(* ===== verification/Prelude.thy ===== *)
theory Prelude
  imports Main "HOL-Library.Word"
begin

text \<open>
  The shared vocabulary of the development: Rust's fixed-width integer types on a
  64-bit target, the outcome of an operation that may return, fail with an error value,
  panic or run into undefined behaviour, byte slices with Rust's range checks, the
  little-endian byte image of integers, and the contract of a fixed-width codec with
  the lemmas every stored structure inherits from it.
\<close>

unbundle bit_operations_syntax

section \<open>Machine types\<close>

type_synonym byte = "8 word"
type_synonym u8 = "8 word"
type_synonym u16 = "16 word"
type_synonym u32 = "32 word"
type_synonym u64 = "64 word"
type_synonym usize = "64 word"
type_synonym bytes = "byte list"

named_theorems usize_simps \<open>arithmetic of machine words that does not wrap\<close>
named_theorems layout_simps \<open>lengths, reads and writes of byte images\<close>

section \<open>Outcomes\<close>

text \<open>
  \<open>Ok\<close> and \<open>Err\<close> are the two variants of Rust's \<open>Result\<close>; \<open>Panic\<close> is an unwinding
  panic with its cause; \<open>Undefined\<close> is an access outside an allocation through a raw
  pointer.
\<close>

datatype panic_reason =
    AssertFailed
  | SliceRange
  | IndexRange
  | PoisonedLock
  | CapacityOverflow
  | StackOverflow
  | ExpectFailed
  | ExplicitPanic

datatype ('e, 'a) outcome =
    Ok 'a
  | Err 'e
  | Panic panic_reason
  | Undefined

fun panics :: "('e, 'a) outcome \<Rightarrow> bool" where
  "panics (Panic _) = True"
| "panics Undefined = True"
| "panics _ = False"

text \<open>
  Sequencing: go on with the returned value, stop at anything else. \<open>run_then\<close> also
  threads the state, which keeps what was done before a panic.
\<close>

fun and_then :: "('e, 'a) outcome \<Rightarrow> ('a \<Rightarrow> ('e, 'b) outcome) \<Rightarrow> ('e, 'b) outcome" where
  "and_then (Ok x) f = f x"
| "and_then (Err e) f = Err e"
| "and_then (Panic p) f = Panic p"
| "and_then Undefined f = Undefined"

fun run_then ::
  "('e, 'a) outcome \<times> 's \<Rightarrow> ('a \<Rightarrow> 's \<Rightarrow> ('e, 'b) outcome \<times> 's) \<Rightarrow> ('e, 'b) outcome \<times> 's" where
  "run_then (Ok x, s) f = f x s"
| "run_then (Err e, s) f = (Err e, s)"
| "run_then (Panic p, s) f = (Panic p, s)"
| "run_then (Undefined, s) f = (Undefined, s)"

lemma run_then_cong [fundef_cong]:
  assumes "x = y" and "\<And>a s. y = (Ok a, s) \<Longrightarrow> f a s = g a s"
  shows "run_then x f = run_then y g"
  using assms by (cases "(y, g)" rule: run_then.cases) auto

lemma and_then_Ok [iff]: "and_then x f = Ok z \<longleftrightarrow> (\<exists>y. x = Ok y \<and> f y = Ok z)"
  by (cases x) auto

lemma run_then_Ok:
  "run_then x f = (Ok z, s) \<longleftrightarrow> (\<exists>y t. x = (Ok y, t) \<and> f y t = (Ok z, s))"
  by (cases "(x, f)" rule: run_then.cases) auto

section \<open>Slices\<close>

definition subslice :: "'a list \<Rightarrow> nat \<Rightarrow> nat \<Rightarrow> 'a list" where
  "subslice m a n = take n (drop a m)"

definition put :: "'a list \<Rightarrow> nat \<Rightarrow> 'a list \<Rightarrow> 'a list" where
  "put m a xs = take a m @ xs @ drop (a + length xs) m"

text \<open>\<open>&m[a..b]\<close> and \<open>m[a..b].copy_from_slice(src)\<close>: \<open>None\<close> is the slice panic.\<close>

definition slice_get :: "'a list \<Rightarrow> usize \<Rightarrow> usize \<Rightarrow> 'a list option" where
  "slice_get m a b =
     (if a \<le> b \<and> unat b \<le> length m then Some (subslice m (unat a) (unat b - unat a)) else None)"

definition slice_copy :: "'a list \<Rightarrow> usize \<Rightarrow> usize \<Rightarrow> 'a list \<Rightarrow> 'a list option" where
  "slice_copy m a b src =
     (if a \<le> b \<and> unat b \<le> length m \<and> length src = unat b - unat a
      then Some (put m (unat a) src) else None)"

lemma length_slice [simp, layout_simps]:
  "a + n \<le> length m \<Longrightarrow> length (subslice m a n) = n"
  by (simp add: subslice_def)

lemma length_put [simp, layout_simps]:
  "a + length xs \<le> length m \<Longrightarrow> length (put m a xs) = length m"
  by (simp add: put_def)

lemma slice_put_same [simp, layout_simps]:
  "a + length xs \<le> length m \<Longrightarrow> subslice (put m a xs) a (length xs) = xs"
  by (simp add: subslice_def put_def)

lemma slice_put_before [layout_simps]:
  assumes "b + n \<le> a" and "a + length xs \<le> length m"
  shows "subslice (put m a xs) b n = subslice m b n"
proof -
  have "take n (drop b (take a m)) = take n (drop b m)"
    using assms(1) by (simp add: drop_take)
  moreover have "length (drop b (take a m)) \<ge> n"
    using assms by simp
  ultimately show ?thesis
    using assms by (simp add: subslice_def put_def)
qed

lemma slice_put_after [layout_simps]:
  assumes "a + length xs \<le> b" and "a + length xs \<le> length m"
  shows "subslice (put m a xs) b n = subslice m b n"
proof -
  have "drop b (put m a xs) = drop b m"
    using assms by (simp add: put_def)
  then show ?thesis by (simp add: subslice_def)
qed

lemma slice_append: "subslice m a (n + k) = subslice m a n @ subslice m (a + n) k"
  by (simp add: subslice_def take_add add.commute[of n a])

lemma take_put_ge: "k \<le> a \<Longrightarrow> a \<le> length m \<Longrightarrow> take k (put m a xs) = take k m"
  by (simp add: put_def min_def)

lemma put_put_adjacent:
  assumes "a + length xs + length ys \<le> length m"
  shows "put (put m a xs) (a + length xs) ys = put m a (xs @ ys)"
  using assms by (simp add: put_def add.assoc add.commute add.left_commute)

section \<open>Sequences of operations that may stop\<close>

fun iter_opt :: "('x \<Rightarrow> 's \<Rightarrow> 's option) \<Rightarrow> 'x list \<Rightarrow> 's \<Rightarrow> 's option" where
  "iter_opt f [] s = Some s"
| "iter_opt f (x # xs) s = (case f x s of None \<Rightarrow> None | Some t \<Rightarrow> iter_opt f xs t)"

section \<open>Word arithmetic without wrap-around\<close>

lemma unat_plus_no_wrap [usize_simps]:
  fixes a b :: usize
  shows "unat a + unat b < 2 ^ 64 \<Longrightarrow> unat (a + b) = unat a + unat b"
  by (simp add: unat_word_ariths)

lemma unat_of_nat_usize [usize_simps]:
  "n < 2 ^ 64 \<Longrightarrow> unat (word_of_nat n :: usize) = n"
  by (simp add: unat_of_nat take_bit_nat_eq_self)

lemma unat_u32_lt: "unat (w :: u32) < 2 ^ 32"
  using unsigned_less[of w] by (simp flip: of_nat_less_iff)

lemma unat_usize_lt: "unat (w :: usize) < 2 ^ 64"
  using unsigned_less[of w] by (simp flip: of_nat_less_iff)

lemma unat_u32_to_usize [usize_simps]: "unat (ucast (w :: u32) :: usize) = unat w"
  using unat_u32_lt[of w] by (simp add: unsigned_ucast_eq take_bit_nat_eq_self)

lemma slice_get_Some [usize_simps]:
  assumes "unat a + n \<le> length m" and "length m < 2 ^ 64" and "unat b = n"
  shows "slice_get m a (a + b) = Some (subslice m (unat a) n)"
proof -
  from assms have "unat (a + b) = unat a + n"
    by (simp add: unat_plus_no_wrap)
  then show ?thesis
    using assms by (simp add: slice_get_def word_le_nat_alt)
qed

lemma slice_copy_Some [usize_simps]:
  assumes "unat a + length xs \<le> length m" and "length m < 2 ^ 64" and "unat b = length xs"
  shows "slice_copy m a (a + b) xs = Some (put m (unat a) xs)"
proof -
  from assms have "unat (a + b) = unat a + length xs"
    by (simp add: unat_plus_no_wrap)
  then show ?thesis
    using assms by (simp add: slice_copy_def word_le_nat_alt)
qed

section \<open>Sign extension of 32-bit integers\<close>

lemma mod_32:
  fixes x :: int
  assumes "2147483648 \<le> x" and "x < 4294967296"
  shows "(x + 2147483648) mod 4294967296 = x - 2147483648"
proof -
  have "x + 2147483648 = (x - 2147483648) + 4294967296" by simp
  then have "(x + 2147483648) mod 4294967296 = (x - 2147483648) mod 4294967296"
    by (simp only: mod_add_self2)
  then show ?thesis using assms by simp
qed

lemma mod_64: "- 2147483648 \<le> x \<Longrightarrow> x < 0 \<Longrightarrow> x mod 18446744073709551616 = x + (18446744073709551616 :: int)"
  by (subst mod_pos_pos_trivial[symmetric, of "x + 18446744073709551616" 18446744073709551616]) simp_all

lemma uint_unat_bounds:
  fixes w :: "32 word"
  shows "unat w < 2 ^ 31 \<Longrightarrow> uint w < 2147483648" "2 ^ 31 \<le> unat w \<Longrightarrow> 2147483648 \<le> uint w"
proof -
  have i: "int (unat w) = uint w" by simp
  show "uint w < 2147483648" if "unat w < 2 ^ 31"
  proof -
    have "unat w < 2147483648" using that by simp
    then show ?thesis using i by linarith
  qed
  show "2147483648 \<le> uint w" if "2 ^ 31 \<le> unat w"
  proof -
    have "2147483648 \<le> unat w" using that by simp
    then show ?thesis using i by linarith
  qed
qed

lemma sint_32:
  fixes w :: "32 word"
  shows "unat w < 2 ^ 31 \<Longrightarrow> sint w = uint w"
    and "2 ^ 31 \<le> unat w \<Longrightarrow> sint w = uint w - 2 ^ 32"
proof -
  have b: "0 \<le> uint w" "uint w < 4294967296" using uint_lt2p[of w] by simp_all
  have "sint w = signed_take_bit 31 (uint w)" by (simp add: sint_uint)
  also have "\<dots> = take_bit 32 (uint w + 2 ^ 31) - 2 ^ 31"
    by (simp add: signed_take_bit_eq_take_bit_shift)
  also have "\<dots> = (uint w + 2147483648) mod 4294967296 - 2147483648"
    by (simp add: take_bit_eq_mod)
  finally have s: "sint w = (uint w + 2147483648) mod 4294967296 - 2147483648" .
  show "sint w = uint w" if "unat w < 2 ^ 31"
    using s b uint_unat_bounds(1)[OF that] by simp
  show "sint w = uint w - 2 ^ 32" if "2 ^ 31 \<le> unat w"
    using s mod_32[OF uint_unat_bounds(2)[OF that] b(2)] by simp
qed

lemma scast_nonneg:
  assumes "unat (w :: 32 word) < 2 ^ 31"
  shows "unat (scast w :: usize) = unat w"
proof -
  have "(word_of_int (sint w) :: usize) = word_of_int (uint w)" using sint_32(1)[OF assms] by simp
  then have "(scast w :: usize) = ucast w" by simp
  then show ?thesis by (simp add: unat_u32_to_usize)
qed

lemma scast_negative:
  assumes "2 ^ 31 \<le> unat (w :: 32 word)"
  shows "2 ^ 63 < (scast w :: usize)"
proof -
  have b: "uint w < 4294967296" "2147483648 \<le> uint w"
    using uint_lt2p[of w] uint_unat_bounds(2)[OF assms] by simp_all
  have s: "- 2147483648 \<le> sint w" "sint w < 0" using sint_32(2)[OF assms] b by simp_all
  have "uint (scast w :: usize) = uint (word_of_int (sint w) :: usize)" by simp
  also have "\<dots> = sint w mod 18446744073709551616" by (simp only: uint_word_of_int) simp
  also have "\<dots> = sint w + 18446744073709551616" by (rule mod_64[OF s])
  finally have "uint (scast w :: usize) = sint w + 18446744073709551616" .
  then show ?thesis using s by (simp only: word_less_def) simp
qed

section \<open>Little-endian images\<close>

definition le_bytes :: "nat \<Rightarrow> 'a::len word \<Rightarrow> bytes" where
  "le_bytes n w = map (\<lambda>i. ucast (drop_bit (8 * i) w)) [0..<n]"

fun of_le :: "bytes \<Rightarrow> 'a::len word" where
  "of_le [] = 0"
| "of_le (b # bs) = ucast b OR push_bit 8 (of_le bs)"

lemma length_le_bytes [simp, layout_simps]: "length (le_bytes n w) = n"
  by (simp add: le_bytes_def)

lemma bit_of_le:
  "bit (of_le bs :: 'a::len word) i \<longleftrightarrow>
     i < LENGTH('a) \<and> i div 8 < length bs \<and> bit (bs ! (i div 8)) (i mod 8)"
proof (induction bs arbitrary: i)
  case Nil
  then show ?case by simp
next
  case (Cons b bs)
  show ?case
  proof (cases "i < 8")
    case True
    then show ?thesis
      by (auto simp: bit_or_iff bit_push_bit_iff bit_ucast_iff)
  next
    case False
    then obtain j where j: "i = j + 8" by (metis add.commute le_Suc_ex not_less)
    have "\<not> bit b i" using False by (auto dest: bit_imp_le_length)
    moreover have "(j + 8) div 8 = Suc (j div 8)" by simp
    ultimately show ?thesis
      using Cons.IH[of j] j
      by (auto simp: bit_or_iff bit_push_bit_iff bit_ucast_iff)
  qed
qed

lemma of_le_le_bytes [simp, layout_simps]:
  assumes "LENGTH('a) \<le> 8 * n"
  shows "of_le (le_bytes n (w :: 'a::len word)) = w"
proof (rule bit_word_eqI)
  fix i assume i: "i < LENGTH('a)"
  then have d: "i div 8 < n" using assms by simp
  have "bit (le_bytes n w ! (i div 8)) (i mod 8) = bit w i"
    using d i by (auto simp: le_bytes_def bit_ucast_iff bit_drop_bit_eq)
  then show "bit (of_le (le_bytes n w) :: 'a word) i = bit w i"
    using d i by (simp add: bit_of_le)
qed

lemma le_bytes_inject:
  assumes "LENGTH('a) \<le> 8 * n"
  shows "le_bytes n (v :: 'a::len word) = le_bytes n w \<longleftrightarrow> v = w"
  by (metis assms of_le_le_bytes)

section \<open>The contract of a fixed-width codec\<close>

text \<open>
  Every structure the program copies byte for byte, into a slot or into the mapped
  file, is read back with a decoder of the same width. The laws are the width and the
  round trip; the lemmas say what a read sees after a write.
\<close>

locale codec =
  fixes enc :: "'a \<Rightarrow> bytes"
    and dec :: "bytes \<Rightarrow> 'a"
    and width :: nat
  assumes enc_width: "length (enc x) = width"
    and dec_enc: "dec (enc x) = x"
begin

lemma enc_inject: "enc x = enc y \<longleftrightarrow> x = y"
  by (metis dec_enc)

lemma load_store:
  "p + width \<le> length m \<Longrightarrow> dec (subslice (put m p (enc x)) p width) = x"
  using slice_put_same[of p "enc x" m] by (simp add: enc_width dec_enc)

lemma load_store_other:
  assumes "p + width \<le> q \<or> q + n \<le> p" and "p + width \<le> length m"
  shows "subslice (put m p (enc x)) q n = subslice m q n"
  using assms by (auto simp: enc_width slice_put_before slice_put_after)

lemma length_store: "p + width \<le> length m \<Longrightarrow> length (put m p (enc x)) = length m"
  by (simp add: enc_width)

end

end
