(* ===== verification/Checksum.thy ===== *)
theory Checksum
  imports Prelude
begin

text \<open>
  The checksum is the crate \<open>crc32fast\<close>: \<open>Hasher::new\<close>, one \<open>update\<close> and \<open>finalize\<close>
  compute a function of the bytes. The model takes that function as a parameter
  \<open>crc\<close>. The only law any property uses is the documented error detection of a 32-bit
  CRC: two messages that differ only inside a window of four bytes have different
  checksums. The IEEE polynomial in its bitwise form shows that the law can hold; it is
  used in witnesses only.
\<close>

type_synonym hasher = "bytes \<Rightarrow> u32"

locale burst_checksum =
  fixes crc :: hasher
  assumes burst: "length u = 4 \<Longrightarrow> length v = 4 \<Longrightarrow>
    crc (xs @ u @ ys) = crc (xs @ v @ ys) \<Longrightarrow> u = v"
begin

text \<open>A 32-bit field inside a message is determined by the rest and the checksum.\<close>

lemma field_determined:
  "crc (xs @ le_bytes 4 v @ ys) = crc (xs @ le_bytes 4 w @ ys) \<longleftrightarrow> v = (w :: u32)"
  using burst[of "le_bytes 4 v" "le_bytes 4 w" xs ys] by (auto simp: le_bytes_inject)

end

section \<open>The bitwise IEEE CRC-32\<close>

definition crc_bit :: "u32 \<Rightarrow> u32" where
  "crc_bit s = (if bit s 0 then drop_bit 1 s XOR 0xEDB88320 else drop_bit 1 s)"

definition crc_byte :: "u32 \<Rightarrow> byte \<Rightarrow> u32" where
  "crc_byte s b = (crc_bit ^^ 8) (s XOR ucast b)"

definition crc32_ieee :: hasher where
  "crc32_ieee bs = NOT (foldl crc_byte (NOT 0) bs)"

lemma crc_bit_bit:
  "bit (crc_bit s) i \<longleftrightarrow> (bit s (Suc i) \<noteq> (bit s 0 \<and> bit (0xEDB88320 :: u32) i))"
  by (auto simp: crc_bit_def bit_xor_iff bit_drop_bit_eq)

lemma crc_bit_linear: "crc_bit (s XOR t) = crc_bit s XOR crc_bit t"
  by (rule bit_word_eqI) (auto simp: crc_bit_bit bit_xor_iff)

lemma crc_bit_inject: "crc_bit s = crc_bit t \<longleftrightarrow> s = t"
proof
  assume eq: "crc_bit s = crc_bit t"
  have top: "bit (0xEDB88320 :: u32) 31" by simp
  have "bit s 0 = bit (crc_bit s) 31" and "bit t 0 = bit (crc_bit t) 31"
    using top by (auto simp: crc_bit_bit dest: bit_imp_le_length)
  with eq have low: "bit s 0 = bit t 0" by simp
  show "s = t"
  proof (rule bit_word_eqI)
    fix i :: nat
    show "bit s i = bit t i"
    proof (cases i)
      case 0
      then show ?thesis using low by simp
    next
      case (Suc j)
      have "bit (crc_bit s) j = bit (crc_bit t) j" using eq by simp
      then show ?thesis using low Suc by (auto simp: crc_bit_bit)
    qed
  qed
qed simp

lemma crc_bits_linear: "(crc_bit ^^ n) (s XOR t) = (crc_bit ^^ n) s XOR (crc_bit ^^ n) t"
  by (induction n) (simp_all add: crc_bit_linear)

lemma crc_bits_inject: "(crc_bit ^^ n) s = (crc_bit ^^ n) t \<longleftrightarrow> s = t"
  by (induction n) (simp_all add: crc_bit_inject)

lemma len_word32: "LENGTH(32) = 32"
  by simp

lemma crc_bits_shift:
  "n + k \<le> 32 \<Longrightarrow> (\<And>i. bit y i \<Longrightarrow> i < k) \<Longrightarrow> (crc_bit ^^ n) (push_bit n y) = y"
proof (induction n arbitrary: y k)
  case 0
  then show ?case by simp
next
  case (Suc n)
  have fits: "bit (push_bit n y) i \<Longrightarrow> Suc i < 32" for i
    using Suc.prems by (fastforce simp: bit_push_bit_iff)
  have shift1: "crc_bit (push_bit 1 z) = z" if z: "\<And>i. bit z i \<Longrightarrow> Suc i < 32" for z :: u32
  proof (rule bit_word_eqI)
    fix i assume "i < LENGTH(32)"
    have "bit (push_bit 1 z) (Suc i) \<longleftrightarrow> bit z i" and "\<not> bit (push_bit 1 z) 0"
      using z[of i] by (auto simp only: bit_push_bit_iff possible_bit_word diff_Suc_1 len_word32)
    then show "bit (crc_bit (push_bit 1 z)) i = bit z i"
      by (simp only: crc_bit_bit simp_thms)
  qed
  have "crc_bit (push_bit 1 (push_bit n y)) = push_bit n y"
    by (rule shift1) (rule fits)
  then have "crc_bit (push_bit (Suc n) y) = push_bit n y"
    by (simp only: push_bit_push_bit plus_1_eq_Suc)
  then have "(crc_bit ^^ Suc n) (push_bit (Suc n) y) = (crc_bit ^^ n) (push_bit n y)"
    by (simp add: funpow_swap1)
  also have "\<dots> = y" using Suc.IH[of k y] Suc.prems by simp
  finally show ?case .
qed

lemma of_le_short:
  assumes "bit (of_le us :: u32) i" shows "i < 8 * length us"
  using assms by (auto simp: bit_of_le)

lemma foldl_crc_byte:
  "length us \<le> 4 \<Longrightarrow> foldl crc_byte s us = (crc_bit ^^ (8 * length us)) (s XOR of_le us)"
proof (induction us arbitrary: s)
  case Nil
  then show ?case by simp
next
  case (Cons b us)
  let ?r = "of_le us :: u32"
  have r: "(crc_bit ^^ 8) (push_bit 8 ?r) = ?r"
    by (rule crc_bits_shift[where k = 24])
       (use Cons.prems of_le_short[of us] in \<open>fastforce\<close>)+
  have or_xor: "ucast b OR push_bit 8 ?r = ucast b XOR push_bit 8 ?r"
    by (rule bit_word_eqI) (auto simp: bit_or_iff bit_xor_iff bit_push_bit_iff bit_ucast_iff
        dest: bit_imp_le_length)
  have "foldl crc_byte s (b # us)
      = (crc_bit ^^ (8 * length us)) ((crc_bit ^^ 8) (s XOR ucast b) XOR ?r)"
    using Cons.IH[of "crc_byte s b"] Cons.prems by (simp add: crc_byte_def[of s b])
  also have "(crc_bit ^^ 8) (s XOR ucast b) XOR ?r
      = (crc_bit ^^ 8) ((s XOR ucast b) XOR push_bit 8 ?r)"
    by (simp only: crc_bits_linear r)
  also have "(s XOR ucast b) XOR push_bit 8 ?r = s XOR of_le (b # us)"
    by (simp add: or_xor xor.assoc)
  also have "(crc_bit ^^ (8 * length us)) ((crc_bit ^^ 8) (s XOR of_le (b # us)))
      = (crc_bit ^^ (8 * length (b # us))) (s XOR of_le (b # us))"
    by (simp only: funpow_add o_apply list.size add_Suc_right add_0_right mult_Suc_right
        add.commute[of "8 :: nat"])
  finally show ?case .
qed

lemma xor_cancel: "s XOR u = t XOR u \<longleftrightarrow> s = (t :: u32)"
  by (auto simp: bit_eq_iff bit_xor_iff)

lemma foldl_crc_byte_inject:
  "foldl crc_byte s ys = foldl crc_byte t ys \<longleftrightarrow> s = t"
proof (induction ys arbitrary: s t)
  case (Cons b ys)
  then show ?case
    by (simp add: crc_byte_def crc_bits_inject xor_cancel)
qed simp

lemma of_le_inject4:
  assumes "length u = 4" and "length v = 4" and "(of_le u :: u32) = of_le v"
  shows "u = v"
proof (rule nth_equalityI)
  fix i assume "i < length u"
  then have i: "i < 4" using assms(1) by simp
  show "u ! i = v ! i"
  proof (rule bit_word_eqI)
    fix k assume "k < LENGTH(8)"
    then have k: "k < 8" by simp
    have "bit (of_le u :: u32) (8 * i + k) = bit (of_le v :: u32) (8 * i + k)"
      using assms(3) by simp
    then show "bit (u ! i) k = bit (v ! i) k"
      using i k assms(1,2) by (simp add: bit_of_le)
  qed
qed (use assms in simp)

interpretation ieee: burst_checksum crc32_ieee
proof
  fix u v xs ys :: bytes
  assume len: "length u = 4" "length v = 4"
    and eq: "crc32_ieee (xs @ u @ ys) = crc32_ieee (xs @ v @ ys)"
  let ?s = "foldl crc_byte (NOT 0) xs"
  from eq have "foldl crc_byte ?s u = foldl crc_byte ?s v"
    by (simp add: crc32_ieee_def foldl_crc_byte_inject)
  then have "?s XOR of_le u = ?s XOR (of_le v :: u32)"
    using len by (simp add: foldl_crc_byte crc_bits_inject)
  then have "(of_le u :: u32) = of_le v"
    by (simp only: xor_cancel xor.commute[of "foldl crc_byte (NOT 0) xs"])
  then show "u = v" using len by (rule of_le_inject4[rotated 2])
qed

text \<open>Unrolled, so that the simplifier evaluates a concrete checksum bit by bit.\<close>

lemma crc_byte_unroll:
  "crc_byte s b =
     crc_bit (crc_bit (crc_bit (crc_bit (crc_bit (crc_bit (crc_bit (crc_bit (s XOR ucast b))))))))"
  by (simp add: crc_byte_def eval_nat_numeral)

lemmas crc32_ieee_eval = crc32_ieee_def crc_byte_unroll crc_bit_def

text \<open>The standard check value of CRC-32/IEEE, over the ASCII digits 1 to 9.\<close>

lemma crc32_ieee_check:
  "crc32_ieee [0x31, 0x32, 0x33, 0x34, 0x35, 0x36, 0x37, 0x38, 0x39] = 0xCBF43926"
  by (simp add: crc32_ieee_eval)

end
