(* ===== verification/Memory.thy ===== *)
theory Memory
  imports Checksum
begin

text \<open>
  The data structures of \<open>src/memory/mod.rs\<close>: the record header with its byte image,
  the record, the masked atomic index and the slot with its state byte. An atomic
  operation is a function on the value it reads and writes; memory orderings are not
  part of the value. The layout is that of \<open>repr(C)\<close> on a little-endian 64-bit target:
  a header takes 24 bytes, the last four of which are padding with unspecified
  contents (the argument \<open>pad\<close>).
\<close>

section \<open>Record headers and records\<close>

record record_header =
  rh_size :: u32
  rh_crc32 :: u32
  rh_timestamp_us :: u64
  rh_tag :: u32

record log_record =
  r_header :: record_header
  r_data :: bytes

definition RecordHeader_SIZE :: usize where
  "RecordHeader_SIZE = 24"

text \<open>
  The clock is an input: \<open>None\<close> when the system time is before the epoch
  (\<open>unwrap_or_default\<close> gives zero), otherwise the microseconds since the epoch, which
  the cast to \<open>u64\<close> truncates.
\<close>

definition RecordHeader_new :: "nat option \<Rightarrow> u32 \<Rightarrow> u32 \<Rightarrow> record_header" where
  "RecordHeader_new clock sz tag =
     \<lparr>rh_size = sz, rh_crc32 = 0,
      rh_timestamp_us = word_of_nat (case clock of None \<Rightarrow> 0 | Some us \<Rightarrow> us),
      rh_tag = tag\<rparr>"

definition rh_update_crc :: "hasher \<Rightarrow> bytes \<Rightarrow> record_header \<Rightarrow> record_header" where
  "rh_update_crc crc d h = h\<lparr>rh_crc32 := crc d\<rparr>"

definition rh_verify_crc :: "hasher \<Rightarrow> record_header \<Rightarrow> bytes \<Rightarrow> bool" where
  "rh_verify_crc crc h d \<longleftrightarrow> rh_crc32 h = crc d"

definition Record_new :: "hasher \<Rightarrow> nat option \<Rightarrow> bytes \<Rightarrow> u32 \<Rightarrow> log_record" where
  "Record_new crc clock d tag =
     \<lparr>r_header = rh_update_crc crc d (RecordHeader_new clock (word_of_nat (length d)) tag),
      r_data = d\<rparr>"

definition total_size :: "log_record \<Rightarrow> usize" where
  "total_size r = RecordHeader_SIZE + word_of_nat (length (r_data r))"

definition encode_record_header :: "u32 \<Rightarrow> record_header \<Rightarrow> bytes" where
  "encode_record_header pad h =
     le_bytes 4 (rh_size h) @ le_bytes 4 (rh_crc32 h) @ le_bytes 8 (rh_timestamp_us h) @
     le_bytes 4 (rh_tag h) @ le_bytes 4 pad"

definition decode_record_header :: "bytes \<Rightarrow> record_header" where
  "decode_record_header bs =
     \<lparr>rh_size = of_le (subslice bs 0 4), rh_crc32 = of_le (subslice bs 4 4),
      rh_timestamp_us = of_le (subslice bs 8 8), rh_tag = of_le (subslice bs 16 4)\<rparr>"

section \<open>Atomic index\<close>

record atomic_index =
  ai_value :: usize
  ai_mask :: usize

text \<open>\<open>usize::is_power_of_two\<close>: exactly one bit is set.\<close>

definition is_power_of_two :: "usize \<Rightarrow> bool" where
  "is_power_of_two w \<longleftrightarrow> length (filter (bit w) [0..<64]) = 1"

definition AtomicIndex_new :: "usize \<Rightarrow> ('e, atomic_index) outcome" where
  "AtomicIndex_new cap =
     (if is_power_of_two cap then Ok \<lparr>ai_value = 0, ai_mask = cap - 1\<rparr>
      else Panic AssertFailed)"

definition ai_load :: "atomic_index \<Rightarrow> usize" where
  "ai_load ai = ai_value ai"

definition ai_store :: "usize \<Rightarrow> atomic_index \<Rightarrow> atomic_index" where
  "ai_store v ai = ai\<lparr>ai_value := v\<rparr>"

definition ai_compare_exchange ::
  "usize \<Rightarrow> usize \<Rightarrow> atomic_index \<Rightarrow> (usize, usize) outcome \<times> atomic_index" where
  "ai_compare_exchange current new ai =
     (if ai_value ai = current then (Ok (ai_value ai), ai\<lparr>ai_value := new\<rparr>)
      else (Err (ai_value ai), ai))"

definition ai_fetch_add :: "usize \<Rightarrow> atomic_index \<Rightarrow> usize \<times> atomic_index" where
  "ai_fetch_add v ai = (ai_value ai, ai\<lparr>ai_value := ai_value ai + v\<rparr>)"

definition ai_wrap :: "atomic_index \<Rightarrow> usize \<Rightarrow> usize" where
  "ai_wrap ai v = v AND ai_mask ai"

definition physical_index :: "atomic_index \<Rightarrow> usize \<Rightarrow> usize" where
  "physical_index ai s = s AND ai_mask ai"

definition ai_capacity :: "atomic_index \<Rightarrow> usize" where
  "ai_capacity ai = ai_mask ai + 1"

section \<open>Slots\<close>

datatype slot_state = Empty | Reserved | Ready | Consumed

fun slot_state_u8 :: "slot_state \<Rightarrow> u8" where
  "slot_state_u8 Empty = 0"
| "slot_state_u8 Reserved = 1"
| "slot_state_u8 Ready = 2"
| "slot_state_u8 Consumed = 3"

record slot =
  slot_state_byte :: u8
  slot_seq_val :: usize

definition Slot_new :: slot where
  "Slot_new = \<lparr>slot_state_byte = slot_state_u8 Empty, slot_seq_val = 0\<rparr>"

definition set_state :: "slot_state \<Rightarrow> slot \<Rightarrow> slot" where
  "set_state st sl = sl\<lparr>slot_state_byte := slot_state_u8 st\<rparr>"

definition state_of :: "slot \<Rightarrow> slot_state" where
  "state_of sl =
     (let v = slot_state_byte sl in
      if v = 0 then Empty else if v = 1 then Reserved else if v = 2 then Ready
      else if v = 3 then Consumed else Empty)"

definition try_transition :: "slot_state \<Rightarrow> slot_state \<Rightarrow> slot \<Rightarrow> bool \<times> slot" where
  "try_transition from to sl =
     (if slot_state_byte sl = slot_state_u8 from
      then (True, sl\<lparr>slot_state_byte := slot_state_u8 to\<rparr>) else (False, sl))"

definition set_seq :: "usize \<Rightarrow> slot \<Rightarrow> slot" where
  "set_seq s sl = sl\<lparr>slot_seq_val := s\<rparr>"

definition seq_of :: "slot \<Rightarrow> usize" where
  "seq_of sl = slot_seq_val sl"

text \<open>A slot whose state byte is one of the four discriminants.\<close>

definition slot_ok :: "slot \<Rightarrow> bool" where
  "slot_ok sl \<longleftrightarrow> slot_state_byte sl = slot_state_u8 (state_of sl)"

section \<open>The byte image of a header\<close>

lemma length_encode_record_header [simp, layout_simps]:
  "length (encode_record_header pad h) = 24"
  by (simp add: encode_record_header_def)

lemma decode_encode_record_header [simp, layout_simps]:
  "decode_record_header (encode_record_header pad h) = h"
  by (simp add: decode_record_header_def encode_record_header_def subslice_def)

interpretation rh_codec: codec "encode_record_header pad" decode_record_header 24 for pad
  by unfold_locales simp_all

lemma decode_record_header_prefix [layout_simps]:
  "decode_record_header (encode_record_header pad h @ rest) = h"
  by (simp add: decode_record_header_def encode_record_header_def subslice_def)

section \<open>Checksums of records\<close>

lemma Record_new_verifies [simp]:
  "rh_verify_crc crc (r_header (Record_new crc clock d tag)) (r_data (Record_new crc clock d tag))"
  by (simp add: Record_new_def rh_verify_crc_def rh_update_crc_def)

lemma Record_new_fields [simp]:
  "r_data (Record_new crc clock d tag) = d"
  "rh_tag (r_header (Record_new crc clock d tag)) = tag"
  "rh_size (r_header (Record_new crc clock d tag)) = word_of_nat (length d)"
  "rh_crc32 (r_header (Record_new crc clock d tag)) = crc d"
  by (simp_all add: Record_new_def rh_update_crc_def RecordHeader_new_def)

section \<open>Masked indices\<close>

lemma is_power_of_two_iff: "is_power_of_two w \<longleftrightarrow> (\<exists>k<64. w = 2 ^ k)"
proof
  assume "is_power_of_two w"
  then obtain k where k: "filter (bit w) [0..<64] = [k]"
    unfolding is_power_of_two_def by (metis One_nat_def length_0_conv length_Suc_conv)
  have "set (filter (bit w) [0..<64]) = {k}" by (simp only: k) simp
  then have set: "{i. i < 64 \<and> bit w i} = {k}" by auto
  then have "w = 2 ^ k"
    by (intro bit_word_eqI) (auto simp: bit_exp_iff set_eq_iff)
  with set show "\<exists>k<64. w = 2 ^ k" by auto
next
  assume "\<exists>k<64. w = 2 ^ k"
  then obtain k where k: "k < 64" "w = 2 ^ k" by auto
  then have "filter (bit w) [0..<64] = filter ((=) k) [0..<64]"
    by (intro filter_cong) (auto simp: bit_exp_iff)
  also have "\<dots> = [k]"
  proof -
    have "[0..<64] = [0..<k] @ k # [Suc k..<64]"
      using k(1) by (metis le_add1 less_imp_add_positive plus_nat.add_0 upt_add_eq_append
          upt_conv_Cons zero_le)
    moreover have "filter ((=) k) [0..<k] = []" and "filter ((=) k) [Suc k..<64] = []"
      by (auto simp: filter_empty_conv)
    ultimately show ?thesis by simp
  qed
  finally show "is_power_of_two w" by (simp add: is_power_of_two_def)
qed

lemma unat_power_of_two:
  assumes "k < 64" shows "unat (2 ^ k :: usize) = 2 ^ k"
proof -
  have "(2 :: nat) ^ k < 2 ^ 64" by (rule power_strict_increasing) (use assms in simp_all)
  then have "unat (word_of_nat (2 ^ k) :: usize) = 2 ^ k" by (rule unat_of_nat_usize)
  then show ?thesis by simp
qed

text \<open>An index made for a power-of-two capacity.\<close>

definition ai_ok :: "usize \<Rightarrow> atomic_index \<Rightarrow> bool" where
  "ai_ok cap ai \<longleftrightarrow> is_power_of_two cap \<and> ai_mask ai = cap - 1"

lemma ai_ok_store [simp]: "ai_ok cap (ai_store v ai) = ai_ok cap ai"
  by (simp add: ai_ok_def ai_store_def)

lemma ai_value_store [simp]: "ai_value (ai_store v ai) = v"
  by (simp add: ai_store_def)

lemma AtomicIndex_new_ok: "AtomicIndex_new cap = Ok ai \<Longrightarrow> ai_ok cap ai \<and> ai_value ai = 0"
  by (auto simp: AtomicIndex_new_def ai_ok_def split: if_splits)

lemma ai_capacity_ok: "ai_ok cap ai \<Longrightarrow> ai_capacity ai = cap"
  by (simp add: ai_ok_def ai_capacity_def)

lemma unat_physical_index:
  assumes "ai_ok cap ai"
  shows "unat (physical_index ai s) = unat s mod unat cap"
proof -
  obtain k where k: "k < 64" "cap = 2 ^ k"
    using assms by (auto simp: ai_ok_def is_power_of_two_iff)
  have "physical_index ai s = take_bit k s"
    using assms k by (simp add: ai_ok_def physical_index_def take_bit_eq_mask mask_eq_exp_minus_1)
  then show ?thesis
    using k by (simp add: unsigned_take_bit_eq unat_power_of_two flip: take_bit_eq_mod)
qed

lemma unat_cap_pos: "is_power_of_two cap \<Longrightarrow> 0 < unat cap"
  by (auto simp: is_power_of_two_iff unat_power_of_two)

lemma physical_index_less: "ai_ok cap ai \<Longrightarrow> unat (physical_index ai s) < unat cap"
  using unat_cap_pos[of cap] by (simp add: unat_physical_index) (simp add: ai_ok_def)

lemma physical_index_add:
  assumes "ai_ok cap ai"
  shows "unat (physical_index ai (s + word_of_nat n)) = (unat s + n) mod unat cap"
proof -
  obtain k where k: "k < 64" "cap = 2 ^ k"
    using assms by (auto simp: ai_ok_def is_power_of_two_iff)
  have "(2 :: nat) ^ k dvd 2 ^ 64" using k by (intro le_imp_power_dvd) simp
  then have "(unat s + n) mod 2 ^ 64 mod 2 ^ k = (unat s + n) mod 2 ^ k"
    by (simp add: mod_mod_cancel)
  moreover have "unat (s + word_of_nat n) = (unat s + n) mod 2 ^ 64"
    by (simp add: unat_word_ariths unat_of_nat mod_add_right_eq)
  ultimately show ?thesis
    using assms k by (simp add: unat_physical_index unat_power_of_two)
qed

section \<open>Slot transitions\<close>

lemma state_of_set_state [simp]: "state_of (set_state st sl) = st"
  by (cases st) (simp_all add: state_of_def set_state_def)

lemma slot_state_u8_inject [simp]: "slot_state_u8 a = slot_state_u8 b \<longleftrightarrow> a = b"
  by (cases a; cases b) simp_all

lemma slot_ok_intros [simp, intro]:
  "slot_ok (set_state st sl)" "slot_ok Slot_new" "slot_ok (set_seq s sl) = slot_ok sl"
  by (cases st; simp add: slot_ok_def set_state_def state_of_def)
     (simp_all add: slot_ok_def Slot_new_def set_seq_def state_of_def)

lemma state_of_Slot_new [simp]: "state_of Slot_new = Empty"
  by (simp add: state_of_def Slot_new_def)

lemma state_of_set_seq [simp]: "state_of (set_seq s sl) = state_of sl"
  by (simp add: state_of_def set_seq_def)

lemma seq_of_simps [simp]: "seq_of (set_seq s sl) = s" "seq_of (set_state st sl) = seq_of sl"
  by (simp_all add: seq_of_def set_seq_def set_state_def)

lemma try_transition_ok:
  assumes "slot_ok sl"
  shows "try_transition from to sl =
     (if state_of sl = from then (True, set_state to sl) else (False, sl))"
  using assms by (auto simp: try_transition_def slot_ok_def set_state_def)

lemma try_transition_slot_ok [simp]:
  "slot_ok sl \<Longrightarrow> slot_ok (snd (try_transition from to sl))"
  by (simp add: try_transition_ok)

end
