(* ===== verification/Disk.thy ===== *)
theory Disk
  imports Checksum
begin

text \<open>
  The on-disk structures of \<open>src/disk/mod.rs\<close>: the control block at the start of the
  mapped file and the header in front of every stored record, with their byte images.
  The control block is \<open>repr(C)\<close> with a \<open>u64\<close> field, so it occupies 48 bytes: the
  checksum sits at offset 40 and the last four bytes are padding (\<open>pad\<close>).
\<close>

section \<open>Control block\<close>

record control_block =
  cb_magic :: u32
  cb_version :: u32
  cb_buffer_size :: u64
  cb_write_pos :: u64
  cb_read_pos :: u64
  cb_wrap_count :: u64
  cb_crc32 :: u32

definition ControlBlock_SIZE :: usize where
  "ControlBlock_SIZE = 48"

definition ControlBlock_MAGIC :: u32 where
  "ControlBlock_MAGIC = 0x5348524C"

definition ControlBlock_VERSION :: u32 where
  "ControlBlock_VERSION = 1"

definition encode_control_block :: "u32 \<Rightarrow> control_block \<Rightarrow> bytes" where
  "encode_control_block pad cb =
     le_bytes 4 (cb_magic cb) @ le_bytes 4 (cb_version cb) @ le_bytes 8 (cb_buffer_size cb) @
     le_bytes 8 (cb_write_pos cb) @ le_bytes 8 (cb_read_pos cb) @
     le_bytes 8 (cb_wrap_count cb) @ le_bytes 4 (cb_crc32 cb) @ le_bytes 4 pad"

definition decode_control_block :: "bytes \<Rightarrow> control_block" where
  "decode_control_block bs =
     \<lparr>cb_magic = of_le (subslice bs 0 4), cb_version = of_le (subslice bs 4 4),
      cb_buffer_size = of_le (subslice bs 8 8), cb_write_pos = of_le (subslice bs 16 8),
      cb_read_pos = of_le (subslice bs 24 8), cb_wrap_count = of_le (subslice bs 32 8),
      cb_crc32 = of_le (subslice bs 40 4)\<rparr>"

text \<open>The bytes both checksum functions hash: the first \<open>SIZE - 4\<close> bytes of the block.\<close>

definition cb_hashed :: "control_block \<Rightarrow> bytes" where
  "cb_hashed cb = take (unat (ControlBlock_SIZE - 4)) (encode_control_block 0 cb)"

definition cb_update_crc :: "hasher \<Rightarrow> control_block \<Rightarrow> control_block" where
  "cb_update_crc crc cb = cb\<lparr>cb_crc32 := crc (cb_hashed cb)\<rparr>"

definition cb_verify_crc :: "hasher \<Rightarrow> control_block \<Rightarrow> bool" where
  "cb_verify_crc crc cb \<longleftrightarrow> cb_crc32 cb = crc (cb_hashed cb)"

definition ControlBlock_new :: "hasher \<Rightarrow> u64 \<Rightarrow> control_block" where
  "ControlBlock_new crc bsize =
     cb_update_crc crc
       \<lparr>cb_magic = ControlBlock_MAGIC, cb_version = ControlBlock_VERSION,
        cb_buffer_size = bsize, cb_write_pos = 0, cb_read_pos = 0, cb_wrap_count = 0,
        cb_crc32 = 0\<rparr>"

section \<open>Stored record header\<close>

record disk_header =
  dh_size :: u32
  dh_crc32 :: u32
  dh_timestamp_us :: u64
  dh_tag :: u32
  dh_marker :: u16
  dh_reserved :: u16

definition Header_SIZE :: usize where
  "Header_SIZE = 24"

definition Header_MARKER :: u16 where
  "Header_MARKER = 0xAA55"

definition Header_new :: "u32 \<Rightarrow> u64 \<Rightarrow> u32 \<Rightarrow> disk_header" where
  "Header_new sz ts tag =
     \<lparr>dh_size = sz, dh_crc32 = 0, dh_timestamp_us = ts, dh_tag = tag,
      dh_marker = Header_MARKER, dh_reserved = 0\<rparr>"

definition dh_update_crc :: "hasher \<Rightarrow> bytes \<Rightarrow> disk_header \<Rightarrow> disk_header" where
  "dh_update_crc crc d h = h\<lparr>dh_crc32 := crc d\<rparr>"

definition dh_verify_crc :: "hasher \<Rightarrow> disk_header \<Rightarrow> bytes \<Rightarrow> bool" where
  "dh_verify_crc crc h d \<longleftrightarrow> dh_crc32 h = crc d"

definition dh_is_valid :: "disk_header \<Rightarrow> bool" where
  "dh_is_valid h \<longleftrightarrow> dh_marker h = Header_MARKER"

definition encode_disk_header :: "disk_header \<Rightarrow> bytes" where
  "encode_disk_header h =
     le_bytes 4 (dh_size h) @ le_bytes 4 (dh_crc32 h) @ le_bytes 8 (dh_timestamp_us h) @
     le_bytes 4 (dh_tag h) @ le_bytes 2 (dh_marker h) @ le_bytes 2 (dh_reserved h)"

definition decode_disk_header :: "bytes \<Rightarrow> disk_header" where
  "decode_disk_header bs =
     \<lparr>dh_size = of_le (subslice bs 0 4), dh_crc32 = of_le (subslice bs 4 4),
      dh_timestamp_us = of_le (subslice bs 8 8), dh_tag = of_le (subslice bs 16 4),
      dh_marker = of_le (subslice bs 20 2), dh_reserved = of_le (subslice bs 22 2)\<rparr>"

section \<open>Byte images\<close>

lemma unat_disk_sizes [simp]:
  "unat ControlBlock_SIZE = 48" "unat Header_SIZE = 24" "unat (ControlBlock_SIZE - 4) = 44"
  by (simp_all add: ControlBlock_SIZE_def Header_SIZE_def)

lemma length_encode_control_block [simp, layout_simps]:
  "length (encode_control_block pad cb) = 48"
  by (simp add: encode_control_block_def)

lemma decode_encode_control_block [simp, layout_simps]:
  "decode_control_block (encode_control_block pad cb) = cb"
  by (simp add: decode_control_block_def encode_control_block_def subslice_def)

interpretation cb_codec: codec "encode_control_block pad" decode_control_block 48 for pad
  by unfold_locales simp_all

lemma length_encode_disk_header [simp, layout_simps]: "length (encode_disk_header h) = 24"
  by (simp add: encode_disk_header_def)

lemma decode_encode_disk_header [simp, layout_simps]:
  "decode_disk_header (encode_disk_header h) = h"
  by (simp add: decode_disk_header_def encode_disk_header_def subslice_def)

interpretation dh_codec: codec encode_disk_header decode_disk_header 24
  by unfold_locales simp_all

section \<open>What the control-block checksum covers\<close>

text \<open>
  The hashed prefix does not depend on the padding, and its last four bytes are the
  checksum field itself: the field the source means to exclude.
\<close>

definition cb_fields :: "control_block \<Rightarrow> bytes" where
  "cb_fields cb =
     le_bytes 4 (cb_magic cb) @ le_bytes 4 (cb_version cb) @ le_bytes 8 (cb_buffer_size cb) @
     le_bytes 8 (cb_write_pos cb) @ le_bytes 8 (cb_read_pos cb) @ le_bytes 8 (cb_wrap_count cb)"

lemma cb_hashed_split: "cb_hashed cb = cb_fields cb @ le_bytes 4 (cb_crc32 cb) @ []"
  by (simp add: cb_hashed_def cb_fields_def encode_control_block_def)

lemma cb_hashed_any_padding:
  "take 44 (encode_control_block pad cb) = cb_hashed cb"
  by (simp add: cb_hashed_def encode_control_block_def)

lemma cb_fields_crc [simp]: "cb_fields (cb\<lparr>cb_crc32 := c\<rparr>) = cb_fields cb"
  by (simp add: cb_fields_def)

lemma cb_update_crc_fields [simp]:
  "cb_magic (cb_update_crc crc cb) = cb_magic cb"
  "cb_version (cb_update_crc crc cb) = cb_version cb"
  "cb_buffer_size (cb_update_crc crc cb) = cb_buffer_size cb"
  "cb_write_pos (cb_update_crc crc cb) = cb_write_pos cb"
  "cb_read_pos (cb_update_crc crc cb) = cb_read_pos cb"
  "cb_wrap_count (cb_update_crc crc cb) = cb_wrap_count cb"
  by (simp_all add: cb_update_crc_def)

context burst_checksum
begin

text \<open>
  Hashing the field it is about to overwrite makes the stored checksum verify only when
  the update did not change it.
\<close>

lemma verify_after_update:
  "cb_verify_crc crc (cb_update_crc crc cb) \<longleftrightarrow> cb_crc32 (cb_update_crc crc cb) = cb_crc32 cb"
proof -
  let ?c = "crc (cb_hashed cb)"
  have "cb_verify_crc crc (cb_update_crc crc cb) \<longleftrightarrow>
      crc (cb_fields cb @ le_bytes 4 (cb_crc32 cb) @ []) = crc (cb_fields cb @ le_bytes 4 ?c @ [])"
    by (simp add: cb_verify_crc_def cb_update_crc_def cb_hashed_split)
  also have "\<dots> \<longleftrightarrow> cb_crc32 cb = ?c" by (rule field_determined)
  finally show ?thesis by (auto simp: cb_update_crc_def)
qed

end

section \<open>Validity of stored headers\<close>

lemma Header_new_valid [simp]: "dh_is_valid (dh_update_crc crc d (Header_new sz ts tag))"
  by (simp add: dh_is_valid_def dh_update_crc_def Header_new_def)

lemma dh_fields [simp]:
  "dh_size (dh_update_crc crc d (Header_new sz ts tag)) = sz"
  "dh_crc32 (dh_update_crc crc d (Header_new sz ts tag)) = crc d"
  "dh_timestamp_us (dh_update_crc crc d (Header_new sz ts tag)) = ts"
  "dh_tag (dh_update_crc crc d (Header_new sz ts tag)) = tag"
  by (simp_all add: dh_update_crc_def Header_new_def)

lemma dh_update_verifies [simp]: "dh_verify_crc crc (dh_update_crc crc d h) d"
  by (simp add: dh_verify_crc_def dh_update_crc_def)

end
