(* ===== verification/Persistent.thy ===== *)
theory Persistent
  imports Memory Disk
begin

text \<open>
  The persistent ring buffer of \<open>src/disk/persistent.rs\<close>. The state holds the bytes of
  the shared mapping (the file's contents), the control block kept in memory, the size
  of the data section and the poisoning of the two \<open>std::sync\<close> locks (the lock around
  the control block is \<open>parking_lot\<close>'s, which does not poison). The results of the
  operating-system calls are inputs: \<open>None\<close> for success, \<open>Some e\<close> for an error.
  Arithmetic is that of the release profile, which wraps; the invariant shows where it
  cannot.
\<close>

type_synonym io_error = nat

datatype persistent_error = Io io_error | InvalidBuffer | InvalidRecord

definition persistent_error_from :: "io_error \<Rightarrow> persistent_error" where
  "persistent_error_from e = Io e"

type_synonym 'a presult = "(persistent_error, 'a) outcome"

record prb =
  buf_path :: string
  buf_mmap :: bytes
  buf_control :: control_block
  buf_size :: usize
  write_lock_poisoned :: bool
  mmap_lock_poisoned :: bool

record open_env =
  open_result :: "io_error option"
  metadata_result :: "io_error option"
  set_len_result :: "io_error option"
  map_result :: "io_error option"

section \<open>Opening\<close>

text \<open>
  \<open>file\<close> is the contents of the file before the call, empty when it does not exist or
  has length zero; the second component of the result is the contents afterwards.
\<close>

definition PersistentRingBuffer_new ::
  "hasher \<Rightarrow> u32 \<Rightarrow> open_env \<Rightarrow> string \<Rightarrow> usize \<Rightarrow> bytes \<Rightarrow> prb presult \<times> bytes" where
  "PersistentRingBuffer_new crc pad env path bsize file =
     (case open_result env of
        Some e \<Rightarrow> (Err (persistent_error_from e), file)
      | None \<Rightarrow>
     (case metadata_result env of
        Some e \<Rightarrow> (Err (persistent_error_from e), file)
      | None \<Rightarrow>
     (let is_new = (length file = 0);
          sized = replicate (unat (bsize + ControlBlock_SIZE)) 0
      in
      case (if is_new then set_len_result env else None) of
        Some e \<Rightarrow> (Err (persistent_error_from e), file)
      | None \<Rightarrow>
     (let file1 = (if is_new then sized else file) in
      case map_result env of
        Some e \<Rightarrow> (Err (persistent_error_from e), file1)
      | None \<Rightarrow>
        if is_new then
          (let control = ControlBlock_new crc bsize in
           case slice_copy file1 0 ControlBlock_SIZE (encode_control_block pad control) of
             None \<Rightarrow> (Panic SliceRange, file1)
           | Some m \<Rightarrow>
               (Ok \<lparr>buf_path = path, buf_mmap = m, buf_control = control, buf_size = bsize,
                    write_lock_poisoned = False, mmap_lock_poisoned = False\<rparr>, m))
        else
          (case slice_get file1 0 ControlBlock_SIZE of
             None \<Rightarrow> (Panic SliceRange, file1)
           | Some control_bytes \<Rightarrow>
               (let control = decode_control_block control_bytes in
                if cb_magic control \<noteq> ControlBlock_MAGIC \<or> \<not> cb_verify_crc crc control
                then (Err InvalidBuffer, file1)
                else
                  (Ok \<lparr>buf_path = path, buf_mmap = file1, buf_control = control,
                       buf_size = cb_buffer_size control,
                       write_lock_poisoned = False, mmap_lock_poisoned = False\<rparr>, file1)))))))"

definition prb_path :: "prb \<Rightarrow> string" where
  "prb_path b = buf_path b"

definition prb_size :: "prb \<Rightarrow> usize" where
  "prb_size b = buf_size b"

definition get_control_block :: "prb \<Rightarrow> control_block" where
  "get_control_block b = buf_control b"

section \<open>Writing\<close>

definition prb_write ::
  "hasher \<Rightarrow> u32 \<Rightarrow> io_error option \<Rightarrow> log_record \<Rightarrow> prb \<Rightarrow> unit presult \<times> prb" where
  "prb_write crc pad flush r b =
     (if write_lock_poisoned b then (Panic PoisonedLock, b)
      else
      let control = buf_control b;
          total = Header_SIZE + word_of_nat (length (r_data r))
      in
      if buf_size b < total then (Err InvalidRecord, b)
      else
      let header = dh_update_crc crc (r_data r)
            (Header_new (word_of_nat (length (r_data r))) (rh_timestamp_us (r_header r))
               (rh_tag (r_header r)));
          data_start = ControlBlock_SIZE + cb_write_pos control;
          wrap = ControlBlock_SIZE + buf_size b < data_start + total
      in
      if mmap_lock_poisoned b then (Panic PoisonedLock, b\<lparr>write_lock_poisoned := True\<rparr>)
      else
      let control1 = (if wrap then control\<lparr>cb_write_pos := 0,
                          cb_wrap_count := cb_wrap_count control + 1\<rparr> else control);
          b1 = b\<lparr>buf_control := control1\<rparr>;
          poisoned = (\<lambda>b. b\<lparr>write_lock_poisoned := True, mmap_lock_poisoned := True\<rparr>);
          header_pos = ControlBlock_SIZE + cb_write_pos control1
      in
      case slice_copy (buf_mmap b1) header_pos (header_pos + Header_SIZE)
             (encode_disk_header header) of
        None \<Rightarrow> (Panic SliceRange, poisoned b1)
      | Some m1 \<Rightarrow>
      let b2 = b1\<lparr>buf_mmap := m1\<rparr>;
          data_pos = header_pos + Header_SIZE
      in
      case slice_copy m1 data_pos (data_pos + word_of_nat (length (r_data r))) (r_data r) of
        None \<Rightarrow> (Panic SliceRange, poisoned b2)
      | Some m2 \<Rightarrow>
      let control2 = cb_update_crc crc
            (control1\<lparr>cb_write_pos := cb_write_pos control1 + total\<rparr>);
          b3 = b2\<lparr>buf_mmap := m2, buf_control := control2\<rparr>
      in
      case slice_copy m2 0 ControlBlock_SIZE (encode_control_block pad control2) of
        None \<Rightarrow> (Panic SliceRange, poisoned b3)
      | Some m3 \<Rightarrow>
      let b4 = b3\<lparr>buf_mmap := m3\<rparr> in
      case flush of
        Some e \<Rightarrow> (Err (persistent_error_from e), b4)
      | None \<Rightarrow> (Ok (), b4))"

section \<open>Reading\<close>

definition read_at :: "hasher \<Rightarrow> u64 \<Rightarrow> prb \<Rightarrow> (log_record \<times> usize) option presult" where
  "read_at crc pos b =
     (if mmap_lock_poisoned b then Panic PoisonedLock
      else if buf_size b \<le> pos then Ok None
      else
      let m = buf_mmap b;
          abs_pos = ControlBlock_SIZE + pos
      in
      if word_of_nat (length m) < abs_pos + Header_SIZE then Ok None
      else
      case slice_get m abs_pos (abs_pos + Header_SIZE) of
        None \<Rightarrow> Panic SliceRange
      | Some header_bytes \<Rightarrow>
      let header = decode_disk_header header_bytes in
      if \<not> dh_is_valid header then Ok None
      else
      let data_size = (ucast (dh_size header) :: usize);
          data_pos = abs_pos + Header_SIZE
      in
      if word_of_nat (length m) < data_pos + data_size then Ok None
      else
      case slice_get m data_pos (data_pos + data_size) of
        None \<Rightarrow> Panic SliceRange
      | Some data \<Rightarrow>
      if \<not> dh_verify_crc crc header data then Err InvalidRecord
      else
      let mem_header = \<lparr>rh_size = dh_size header, rh_crc32 = dh_crc32 header,
                        rh_timestamp_us = dh_timestamp_us header, rh_tag = dh_tag header\<rparr>
      in Ok (Some (\<lparr>r_header = mem_header, r_data = data\<rparr>, Header_SIZE + data_size)))"

text \<open>
  The tail that \<open>read_all\<close> and \<open>reset_read_position\<close> share: recompute the checksum of
  the control block held in memory, copy it to the mapping and flush.
\<close>

definition sync_control ::
  "hasher \<Rightarrow> u32 \<Rightarrow> io_error option \<Rightarrow> control_block \<Rightarrow> prb \<Rightarrow> unit presult \<times> prb" where
  "sync_control crc pad flush control b =
     (let control1 = cb_update_crc crc control;
          b1 = b\<lparr>buf_control := control1\<rparr>
      in
      if mmap_lock_poisoned b then (Panic PoisonedLock, b1)
      else
      case slice_copy (buf_mmap b) 0 ControlBlock_SIZE (encode_control_block pad control1) of
        None \<Rightarrow> (Panic SliceRange, b1\<lparr>mmap_lock_poisoned := True\<rparr>)
      | Some m \<Rightarrow>
      let b2 = b1\<lparr>buf_mmap := m\<rparr> in
      case flush of
        Some e \<Rightarrow> (Err (persistent_error_from e), b2)
      | None \<Rightarrow> (Ok (), b2))"

text \<open>
  The \<open>while\<close> loop of \<open>read_all\<close>. It is a partial function: \<open>None\<close> is a loop that does
  not end (the position is a \<open>u64\<close> that can wrap).
\<close>

partial_function (option) read_all_loop ::
  "hasher \<Rightarrow> prb \<Rightarrow> u64 \<Rightarrow> log_record list \<Rightarrow> (log_record list \<times> u64) presult option" where
  "read_all_loop crc b pos records =
     (if pos < cb_write_pos (buf_control b) then
        (case read_at crc pos b of
           Ok found \<Rightarrow>
             (case found of
                Some rn \<Rightarrow> read_all_loop crc b (pos + snd rn) (records @ [fst rn])
              | None \<Rightarrow> read_all_loop crc b (pos + Header_SIZE) records)
         | Err e \<Rightarrow> Some (Err e)
         | Panic p \<Rightarrow> Some (Panic p)
         | Undefined \<Rightarrow> Some Undefined)
      else Some (Ok (records, pos)))"

definition read_all ::
  "hasher \<Rightarrow> u32 \<Rightarrow> io_error option \<Rightarrow> prb \<Rightarrow> (log_record list presult \<times> prb) option" where
  "read_all crc pad flush b =
     (let control = buf_control b in
      if cb_read_pos control = cb_write_pos control then Some (Ok [], b)
      else
      case read_all_loop crc b (cb_read_pos control) [] of
        None \<Rightarrow> None
      | Some res \<Rightarrow> Some
     (case res of
        Ok (records, pos) \<Rightarrow>
          (case sync_control crc pad flush (control\<lparr>cb_read_pos := pos\<rparr>) b of
             (Ok _, b') \<Rightarrow> (Ok records, b')
           | (Err e, b') \<Rightarrow> (Err e, b')
           | (Panic p, b') \<Rightarrow> (Panic p, b')
           | (Undefined, b') \<Rightarrow> (Undefined, b'))
      | Err e \<Rightarrow> (Err e, b)
      | Panic p \<Rightarrow> (Panic p, b)
      | Undefined \<Rightarrow> (Undefined, b)))"

definition reset_read_position ::
  "hasher \<Rightarrow> u32 \<Rightarrow> io_error option \<Rightarrow> prb \<Rightarrow> unit presult \<times> prb" where
  "reset_read_position crc pad flush b =
     sync_control crc pad flush
       ((buf_control b)\<lparr>cb_read_pos := cb_write_pos (buf_control b)\<rparr>) b"

definition prb_flush :: "io_error option \<Rightarrow> prb \<Rightarrow> unit presult" where
  "prb_flush flush b =
     (if mmap_lock_poisoned b then Panic PoisonedLock
      else case flush of Some e \<Rightarrow> Err (persistent_error_from e) | None \<Rightarrow> Ok ())"

end
