(* ===== verification/Persistent_Log.thy ===== *)
theory Persistent_Log
  imports Persistent
begin

text \<open>
  Correctness of the persistent buffer. The invariant ties the mapping to the size and
  to the control block; the abstraction reads the bytes between the start of the data
  section and the write position as the concatenated images of a list of records.
\<close>

section \<open>Images of stored records\<close>

definition rec_len :: "log_record \<Rightarrow> nat" where
  "rec_len r = 24 + length (r_data r)"

definition log_len :: "log_record list \<Rightarrow> nat" where
  "log_len rs = sum_list (map rec_len rs)"

definition header_for :: "hasher \<Rightarrow> log_record \<Rightarrow> disk_header" where
  "header_for crc r = dh_update_crc crc (r_data r)
     (Header_new (word_of_nat (length (r_data r))) (rh_timestamp_us (r_header r))
        (rh_tag (r_header r)))"

definition record_image :: "hasher \<Rightarrow> log_record \<Rightarrow> bytes" where
  "record_image crc r = encode_disk_header (header_for crc r) @ r_data r"

definition log_image :: "hasher \<Rightarrow> log_record list \<Rightarrow> bytes" where
  "log_image crc rs = concat (map (record_image crc) rs)"

text \<open>What a reader gets back: the length and the checksum are recomputed from the data.\<close>

definition stored :: "hasher \<Rightarrow> log_record \<Rightarrow> log_record" where
  "stored crc r =
     \<lparr>r_header = \<lparr>rh_size = word_of_nat (length (r_data r)), rh_crc32 = crc (r_data r),
        rh_timestamp_us = rh_timestamp_us (r_header r), rh_tag = rh_tag (r_header r)\<rparr>,
      r_data = r_data r\<rparr>"

text \<open>
  \<open>vec_ok\<close>: the data is a Rust vector, which holds at most \<open>isize::MAX\<close> bytes.
  \<open>u32_ok\<close>: its length fits the \<open>u32\<close> size field.
\<close>

definition vec_ok :: "log_record \<Rightarrow> bool" where
  "vec_ok r \<longleftrightarrow> length (r_data r) < 2 ^ 63"

definition u32_ok :: "log_record \<Rightarrow> bool" where
  "u32_ok r \<longleftrightarrow> length (r_data r) < 2 ^ 32"

lemma u32_imp_vec [intro]: "u32_ok r \<Longrightarrow> vec_ok r"
  by (simp add: u32_ok_def vec_ok_def)

lemma stored_Record_new [simp]:
  "stored crc (Record_new crc clock d tag) = Record_new crc clock d tag"
  by (simp add: stored_def Record_new_def rh_update_crc_def RecordHeader_new_def)

lemma stored_data [simp]: "r_data (stored crc r) = r_data r"
  by (simp add: stored_def)

lemma length_record_image [simp]: "length (record_image crc r) = rec_len r"
  by (simp add: record_image_def rec_len_def)

lemma length_log_image [simp]: "length (log_image crc rs) = log_len rs"
  by (simp add: log_image_def log_len_def length_concat comp_def)

lemma log_len_simps [simp]:
  "log_len [] = 0" "log_len (r # rs) = rec_len r + log_len rs"
  "log_len (rs @ ss) = log_len rs + log_len ss"
  by (simp_all add: log_len_def)

lemma log_image_simps [simp]:
  "log_image crc [] = []" "log_image crc (r # rs) = record_image crc r @ log_image crc rs"
  "log_image crc (rs @ ss) = log_image crc rs @ log_image crc ss"
  by (simp_all add: log_image_def)

lemma rec_len_ge: "24 \<le> rec_len r"
  by (simp add: rec_len_def)

section \<open>Invariant and abstraction\<close>

definition prb_inv :: "prb \<Rightarrow> bool" where
  "prb_inv b \<longleftrightarrow>
     length (buf_mmap b) = 48 + unat (buf_size b) \<and> length (buf_mmap b) < 2 ^ 63 \<and>
     unat (cb_write_pos (buf_control b)) \<le> unat (buf_size b) \<and>
     unat (cb_read_pos (buf_control b)) < unat (buf_size b) + 24 \<and>
     cb_buffer_size (buf_control b) = buf_size b \<and>
     cb_magic (buf_control b) = ControlBlock_MAGIC \<and>
     decode_control_block (subslice (buf_mmap b) 0 48) = buf_control b \<and>
     \<not> write_lock_poisoned b \<and> \<not> mmap_lock_poisoned b"

definition represents :: "hasher \<Rightarrow> prb \<Rightarrow> log_record list \<Rightarrow> bool" where
  "represents crc b rs \<longleftrightarrow>
     unat (cb_write_pos (buf_control b)) = log_len rs \<and>
     subslice (buf_mmap b) 48 (log_len rs) = log_image crc rs"

text \<open>The specification of a write: append, or start over when the record does not fit.\<close>

definition log_write :: "nat \<Rightarrow> log_record \<Rightarrow> log_record list \<Rightarrow> log_record list" where
  "log_write cap r rs = (if log_len rs + rec_len r \<le> cap then rs @ [r] else [r])"

lemma prb_inv_facts:
  assumes "prb_inv b"
  shows "length (buf_mmap b) = 48 + unat (buf_size b)"
    and "unat (buf_size b) + 48 < 2 ^ 63"
    and "unat (cb_write_pos (buf_control b)) \<le> unat (buf_size b)"
    and "unat (cb_read_pos (buf_control b)) < unat (buf_size b) + 24"
    and "\<not> write_lock_poisoned b" and "\<not> mmap_lock_poisoned b"
    and "cb_magic (buf_control b) = ControlBlock_MAGIC"
    and "cb_buffer_size (buf_control b) = buf_size b"
    and "decode_control_block (subslice (buf_mmap b) 0 48) = buf_control b"
  using assms by (simp_all add: prb_inv_def)

lemma subslice_middle:
  assumes "subslice m a n = u @ v @ w" and "n = length u + length v + length w"
  shows "subslice m (a + length u) (length v) = v"
proof -
  have "subslice m (a + length u) (length v) = take (length v) (drop (length u) (subslice m a n))"
    using assms(2) by (simp add: subslice_def drop_take min_def add.commute)
  then show ?thesis using assms(1) by simp
qed

lemma slice_copy_start:
  "48 \<le> length m \<Longrightarrow>
    slice_copy m 0 ControlBlock_SIZE (encode_control_block pad cb)
      = Some (put m 0 (encode_control_block pad cb))"
  by (simp add: slice_copy_def)

section \<open>Opening a new file\<close>

definition open_ok :: open_env where
  "open_ok = \<lparr>open_result = None, metadata_result = None, set_len_result = None,
     map_result = None\<rparr>"

lemma new_file:
  assumes "unat bsize + 48 < 2 ^ 63"
  shows "\<exists>b. PersistentRingBuffer_new crc pad open_ok path bsize [] = (Ok b, buf_mmap b) \<and>
           prb_inv b \<and> represents crc b [] \<and> buf_size b = bsize \<and> buf_path b = path \<and>
           buf_control b = ControlBlock_new crc bsize"
proof -
  let ?z = "replicate (48 + unat bsize) (0 :: byte)"
  have "unat (bsize + ControlBlock_SIZE) = 48 + unat bsize"
    using assms by (subst unat_plus_no_wrap) simp_all
  then have eq: "PersistentRingBuffer_new crc pad open_ok path bsize [] =
      (Ok \<lparr>buf_path = path, buf_mmap = put ?z 0 (encode_control_block pad (ControlBlock_new crc bsize)),
           buf_control = ControlBlock_new crc bsize, buf_size = bsize,
           write_lock_poisoned = False, mmap_lock_poisoned = False\<rparr>,
       put ?z 0 (encode_control_block pad (ControlBlock_new crc bsize)))"
    by (simp add: PersistentRingBuffer_new_def open_ok_def slice_copy_start Let_def)
  show ?thesis
    unfolding eq using assms cb_codec.load_store[of 0 ?z pad "ControlBlock_new crc bsize"]
    by (simp add: prb_inv_def represents_def subslice_def ControlBlock_new_def)
qed

section \<open>Writing\<close>

text \<open>Where a record goes, and the mapping afterwards.\<close>

definition write_wraps :: "log_record \<Rightarrow> prb \<Rightarrow> bool" where
  "write_wraps r b \<longleftrightarrow> unat (buf_size b) < unat (cb_write_pos (buf_control b)) + rec_len r"

definition write_offset :: "log_record \<Rightarrow> prb \<Rightarrow> nat" where
  "write_offset r b = (if write_wraps r b then 0 else unat (cb_write_pos (buf_control b)))"

definition control_wrapped :: "log_record \<Rightarrow> prb \<Rightarrow> control_block" where
  "control_wrapped r b = (if write_wraps r b then (buf_control b)\<lparr>cb_write_pos := 0,
     cb_wrap_count := cb_wrap_count (buf_control b) + 1\<rparr> else buf_control b)"

definition control_after :: "hasher \<Rightarrow> log_record \<Rightarrow> prb \<Rightarrow> control_block" where
  "control_after crc r b = cb_update_crc crc
     ((control_wrapped r b)\<lparr>cb_write_pos := word_of_nat (write_offset r b + rec_len r)\<rparr>)"

definition written :: "hasher \<Rightarrow> u32 \<Rightarrow> log_record \<Rightarrow> prb \<Rightarrow> prb" where
  "written crc pad r b = b\<lparr>
     buf_mmap := put (put (buf_mmap b) (48 + write_offset r b) (record_image crc r))
                   0 (encode_control_block pad (control_after crc r b)),
     buf_control := control_after crc r b\<rparr>"

lemma total_word:
  assumes "vec_ok r"
  shows "unat (Header_SIZE + word_of_nat (length (r_data r))) = rec_len r"
  using assms by (simp add: vec_ok_def unat_plus_no_wrap unat_of_nat_usize rec_len_def)

abbreviation header_start :: "log_record \<Rightarrow> prb \<Rightarrow> usize" where
  "header_start r b \<equiv> ControlBlock_SIZE + cb_write_pos (control_wrapped r b)"

lemma write_room:
  assumes "prb_inv b" and "rec_len r \<le> unat (buf_size b)"
  shows "48 + write_offset r b + rec_len r \<le> length (buf_mmap b)"
    and "length (buf_mmap b) < 2 ^ 63"
  using assms prb_inv_facts[OF assms(1)] by (auto simp: write_offset_def write_wraps_def)

text \<open>The comparison of the source, on words, decides whether the record fits.\<close>

lemma write_wraps_word:
  assumes inv: "prb_inv b" and vec: "vec_ok r" and fits: "rec_len r \<le> unat (buf_size b)"
  shows "ControlBlock_SIZE + buf_size b < ControlBlock_SIZE + cb_write_pos (buf_control b) +
           (Header_SIZE + word_of_nat (length (r_data r))) \<longleftrightarrow> write_wraps r b"
proof -
  let ?w = "cb_write_pos (buf_control b)"
  let ?t = "Header_SIZE + word_of_nat (length (r_data r)) :: usize"
  note facts = prb_inv_facts[OF inv]
  have "unat (ControlBlock_SIZE + ?w) = 48 + unat ?w"
    using facts by (subst unat_plus_no_wrap) simp_all
  then have "unat ((ControlBlock_SIZE + ?w) + ?t) = 48 + unat ?w + rec_len r"
    using facts fits total_word[OF vec] by (subst unat_plus_no_wrap) simp_all
  moreover have "unat (ControlBlock_SIZE + buf_size b) = 48 + unat (buf_size b)"
    using facts by (subst unat_plus_no_wrap) simp_all
  ultimately show ?thesis
    by (simp add: word_less_nat_alt write_wraps_def)
qed

lemma unat_header_start:
  assumes "prb_inv b" and "rec_len r \<le> unat (buf_size b)"
  shows "unat (header_start r b) = 48 + write_offset r b"
    and "unat (header_start r b + Header_SIZE) = 72 + write_offset r b"
proof -
  have "unat (cb_write_pos (control_wrapped r b)) = write_offset r b"
    by (simp add: control_wrapped_def write_offset_def)
  then show 1: "unat (header_start r b) = 48 + write_offset r b"
    using write_room[OF assms] by (subst unat_plus_no_wrap) simp_all
  show "unat (header_start r b + Header_SIZE) = 72 + write_offset r b"
    using write_room[OF assms] 1 rec_len_ge[of r] by (subst unat_plus_no_wrap) simp_all
qed

lemma write_copies:
  fixes crc :: hasher
  assumes inv: "prb_inv b" and vec: "vec_ok r" and fits: "rec_len r \<le> unat (buf_size b)"
  defines "m1 \<equiv> put (buf_mmap b) (48 + write_offset r b) (encode_disk_header (header_for crc r))"
    and "m2 \<equiv> put (buf_mmap b) (48 + write_offset r b) (record_image crc r)"
  shows "slice_copy (buf_mmap b) (header_start r b) (header_start r b + Header_SIZE)
           (encode_disk_header (header_for crc r)) = Some m1"
    and "slice_copy m1 (header_start r b + Header_SIZE)
           (header_start r b + Header_SIZE + word_of_nat (length (r_data r))) (r_data r) = Some m2"
    and "slice_copy m2 0 ControlBlock_SIZE (encode_control_block pad cb)
           = Some (put m2 0 (encode_control_block pad cb))"
proof -
  note room = write_room[OF inv fits] and hp = unat_header_start[OF inv fits]
  have rl: "rec_len r = 24 + length (r_data r)" by (simp add: rec_len_def)
  show "slice_copy (buf_mmap b) (header_start r b) (header_start r b + Header_SIZE)
      (encode_disk_header (header_for crc r)) = Some m1"
    using room hp rl by (subst slice_copy_Some) (simp_all add: m1_def)
  have len1: "length m1 = length (buf_mmap b)"
    using room rl by (simp add: m1_def)
  have "slice_copy m1 (header_start r b + Header_SIZE)
      (header_start r b + Header_SIZE + word_of_nat (length (r_data r))) (r_data r)
      = Some (put m1 (72 + write_offset r b) (r_data r))"
    using room hp len1 vec rl
    by (subst slice_copy_Some) (simp_all add: vec_ok_def unat_of_nat_usize)
  also have "put m1 (72 + write_offset r b) (r_data r) = m2"
    using put_put_adjacent[of "48 + write_offset r b" "encode_disk_header (header_for crc r)"
        "r_data r" "buf_mmap b"] room rl
    by (simp add: m1_def m2_def record_image_def add.commute add.left_commute)
  finally show "slice_copy m1 (header_start r b + Header_SIZE)
      (header_start r b + Header_SIZE + word_of_nat (length (r_data r))) (r_data r) = Some m2" .
  show "slice_copy m2 0 ControlBlock_SIZE (encode_control_block pad cb)
      = Some (put m2 0 (encode_control_block pad cb))"
    using room by (intro slice_copy_start) (simp add: m2_def)
qed

lemma control_after_eq:
  assumes "vec_ok r"
  shows "cb_update_crc crc ((control_wrapped r b)\<lparr>cb_write_pos :=
           cb_write_pos (control_wrapped r b) + (Header_SIZE + word_of_nat (length (r_data r)))\<rparr>)
         = control_after crc r b"
proof -
  have "cb_write_pos (control_wrapped r b) = word_of_nat (write_offset r b)"
    by (simp add: control_wrapped_def write_offset_def)
  moreover have "Header_SIZE + word_of_nat (length (r_data r)) = word_of_nat (rec_len r)"
    by (simp add: Header_SIZE_def rec_len_def)
  ultimately show ?thesis
    by (simp add: control_after_def)
qed

lemma prb_write_eq:
  assumes inv: "prb_inv b" and vec: "vec_ok r" and fits: "rec_len r \<le> unat (buf_size b)"
  shows "prb_write crc pad flush r b =
     ((case flush of Some e \<Rightarrow> Err (Io e) | None \<Rightarrow> Ok ()), written crc pad r b)"
proof -
  have "\<not> buf_size b < Header_SIZE + word_of_nat (length (r_data r))"
    using total_word[OF vec] fits by (simp add: word_less_nat_alt)
  then show ?thesis
    using prb_inv_facts(5,6)[OF inv]
    unfolding prb_write_def Let_def header_for_def[symmetric] write_wraps_word[OF assms]
      control_wrapped_def[symmetric]
    by (simp add: write_copies[OF assms] control_after_eq[OF vec] written_def
        persistent_error_from_def split: option.split)
qed

lemma prb_write_too_large:
  assumes "prb_inv b" and "vec_ok r" and "unat (buf_size b) < rec_len r"
  shows "prb_write crc pad flush r b = (Err InvalidRecord, b)"
  using prb_inv_facts(5)[OF assms(1)] total_word[OF assms(2)] assms(3)
  by (simp add: prb_write_def Let_def word_less_nat_alt)

lemma written_control:
  assumes "prb_inv b" and "rec_len r \<le> unat (buf_size b)"
  shows "unat (cb_write_pos (control_after crc r b)) = write_offset r b + rec_len r"
    and "cb_read_pos (control_after crc r b) = cb_read_pos (buf_control b)"
    and "cb_wrap_count (control_after crc r b) =
           cb_wrap_count (buf_control b) + (if write_wraps r b then 1 else 0)"
    and "cb_magic (control_after crc r b) = cb_magic (buf_control b)"
    and "cb_buffer_size (control_after crc r b) = cb_buffer_size (buf_control b)"
  using write_room[OF assms] prb_inv_facts[OF assms(1)]
  by (simp_all add: control_after_def control_wrapped_def unat_of_nat_usize del: of_nat_add)

lemma length_written:
  assumes "prb_inv b" and "rec_len r \<le> unat (buf_size b)"
  shows "length (buf_mmap (written crc pad r b)) = length (buf_mmap b)"
  using write_room[OF assms] by (simp add: written_def)

lemma written_inv:
  assumes "prb_inv b" and "rec_len r \<le> unat (buf_size b)"
  shows "prb_inv (written crc pad r b)"
proof -
  let ?m = "put (buf_mmap b) (48 + write_offset r b) (record_image crc r)"
  have "decode_control_block (subslice (put ?m 0 (encode_control_block pad (control_after crc r b))) 0 48)
      = control_after crc r b"
    using write_room[OF assms] by (intro cb_codec.load_store) simp
  then show ?thesis
    using written_control[OF assms] length_written[OF assms] write_room[OF assms]
      prb_inv_facts[OF assms(1)]
    by (simp add: prb_inv_def) (simp add: written_def)
qed

text \<open>The image of the record stands at its offset, and the rest of the data is untouched.\<close>

lemma written_image:
  assumes "prb_inv b" and "rec_len r \<le> unat (buf_size b)"
  shows "subslice (buf_mmap (written crc pad r b)) (48 + write_offset r b) (rec_len r)
           = record_image crc r"
  using write_room[OF assms]
    slice_put_same[of "48 + write_offset r b" "record_image crc r" "buf_mmap b"]
  by (simp add: written_def slice_put_after)

lemma written_frame:
  assumes "prb_inv b" and "rec_len r \<le> unat (buf_size b)" and "48 \<le> p"
    and "p + n \<le> 48 + write_offset r b \<or> 48 + write_offset r b + rec_len r \<le> p"
  shows "subslice (buf_mmap (written crc pad r b)) p n = subslice (buf_mmap b) p n"
  using write_room[OF assms(1,2)] assms(3,4)
  by (auto simp: written_def slice_put_after slice_put_before)

lemma written_represents:
  assumes inv: "prb_inv b" and fits: "rec_len r \<le> unat (buf_size b)" and rep: "represents crc b rs"
  shows "represents crc (written crc pad r b) (log_write (unat (buf_size b)) r rs)"
proof -
  let ?b = "written crc pad r b"
  note image = written_image[OF inv fits, of crc pad]
  have wp: "unat (cb_write_pos (buf_control ?b)) = write_offset r b + rec_len r"
    using written_control(1)[OF inv fits] by (simp add: written_def)
  have used: "unat (cb_write_pos (buf_control b)) = log_len rs"
    using rep by (simp add: represents_def)
  show ?thesis
  proof (cases "write_wraps r b")
    case True
    then show ?thesis
      using wp image used by (simp add: represents_def log_write_def write_wraps_def write_offset_def)
  next
    case False
    then have off: "write_offset r b = log_len rs" using used by (simp add: write_offset_def)
    have "subslice (buf_mmap ?b) 48 (log_len rs) = subslice (buf_mmap b) 48 (log_len rs)"
      by (rule written_frame[OF inv fits]) (simp_all add: off)
    then have "subslice (buf_mmap ?b) 48 (log_len rs) = log_image crc rs"
      using rep by (simp add: represents_def)
    then have "subslice (buf_mmap ?b) 48 (log_len rs + rec_len r) = log_image crc (rs @ [r])"
      using image off by (simp add: slice_append)
    then show ?thesis
      using False wp off used by (simp add: represents_def log_write_def write_wraps_def)
  qed
qed

section \<open>Reading one record\<close>

text \<open>The read over natural-number positions, equal to the source under the invariant.\<close>

definition record_of :: "disk_header \<Rightarrow> bytes \<Rightarrow> log_record" where
  "record_of h d = \<lparr>r_header = \<lparr>rh_size = dh_size h, rh_crc32 = dh_crc32 h,
     rh_timestamp_us = dh_timestamp_us h, rh_tag = dh_tag h\<rparr>, r_data = d\<rparr>"

definition header_at :: "prb \<Rightarrow> nat \<Rightarrow> disk_header" where
  "header_at b p = decode_disk_header (subslice (buf_mmap b) (48 + p) 24)"

definition data_at :: "prb \<Rightarrow> nat \<Rightarrow> bytes" where
  "data_at b p = subslice (buf_mmap b) (72 + p) (unat (dh_size (header_at b p)))"

definition read_spec :: "hasher \<Rightarrow> nat \<Rightarrow> prb \<Rightarrow> (log_record \<times> usize) option presult" where
  "read_spec crc p b =
     (let h = header_at b p in
      if unat (buf_size b) < p + 24 \<or> \<not> dh_is_valid h
         \<or> unat (buf_size b) < p + 24 + unat (dh_size h) then Ok None
      else if dh_verify_crc crc h (data_at b p)
      then Ok (Some (record_of h (data_at b p), word_of_nat (24 + unat (dh_size h))))
      else Err InvalidRecord)"

lemma unat_length_mmap:
  assumes "prb_inv b"
  shows "unat (word_of_nat (length (buf_mmap b)) :: usize) = 48 + unat (buf_size b)"
proof -
  have "length (buf_mmap b) < 2 ^ 64" using prb_inv_facts(1,2)[OF assms] by simp
  then show ?thesis using prb_inv_facts(1)[OF assms] by (simp only: unat_of_nat_usize)
qed

lemma read_at_outside:
  assumes "prb_inv b" and "unat (buf_size b) < unat pos + 24"
  shows "read_at crc pos b = Ok None"
proof (cases "unat pos < unat (buf_size b)")
  case True
  then have "unat (ControlBlock_SIZE + pos + Header_SIZE) = 72 + unat pos"
    using prb_inv_facts[OF assms(1)] by (simp add: unat_plus_no_wrap)
  then show ?thesis
    using assms prb_inv_facts(6)[OF assms(1)] unat_length_mmap[OF assms(1)]
    by (simp add: read_at_def Let_def word_less_nat_alt del: of_nat_add)
qed (use prb_inv_facts(6)[OF assms(1)] in \<open>simp add: read_at_def word_le_nat_alt\<close>)

lemma read_at_inside:
  assumes inv: "prb_inv b" and fits: "unat pos + 24 \<le> unat (buf_size b)"
  shows "read_at crc pos b = read_spec crc (unat pos) b"
proof -
  note facts = prb_inv_facts[OF inv] and lm = unat_length_mmap[OF inv]
  let ?m = "buf_mmap b" and ?a = "ControlBlock_SIZE + pos" and ?h = "header_at b (unat pos)"
  let ?n = "ucast (dh_size ?h) :: usize"
  have n: "unat ?n = unat (dh_size ?h)" by (rule unat_u32_to_usize)
  have a: "unat ?a = 48 + unat pos" and d: "unat (?a + Header_SIZE) = 72 + unat pos"
    using facts fits by (simp_all add: unat_plus_no_wrap)
  have dn: "unat (?a + Header_SIZE + ?n) = 72 + unat pos + unat (dh_size ?h)"
    using facts fits d n unat_u32_lt[of "dh_size ?h"] by (subst unat_plus_no_wrap) simp_all
  have get1: "slice_get ?m ?a (?a + Header_SIZE) = Some (subslice ?m (48 + unat pos) 24)"
    using facts fits a by (subst slice_get_Some[where n = 24]) simp_all
  have get2: "slice_get ?m (?a + Header_SIZE) (?a + Header_SIZE + ?n) = Some (data_at b (unat pos))"
    if "unat pos + 24 + unat (dh_size ?h) \<le> unat (buf_size b)"
    using that facts d n by (subst slice_get_Some[where n = "unat ?n"]) (simp_all add: data_at_def)
  have total: "Header_SIZE + ?n = word_of_nat (24 + unat (dh_size ?h))"
    by (simp add: Header_SIZE_def)
  have "\<not> buf_size b \<le> pos" and "\<not> word_of_nat (length ?m) < ?a + Header_SIZE"
    using fits lm d by (simp_all add: word_le_nat_alt word_less_nat_alt)
  moreover have "word_of_nat (length ?m) < ?a + Header_SIZE + ?n
      \<longleftrightarrow> unat (buf_size b) < unat pos + 24 + unat (dh_size ?h)"
    unfolding word_less_nat_alt lm dn by arith
  ultimately show ?thesis
    using facts(6) fits get2
    by (simp add: read_at_def read_spec_def Let_def get1 header_at_def[symmetric] record_of_def
        total del: of_nat_add)
qed

lemma read_at_eq:
  assumes "prb_inv b"
  shows "read_at crc pos b = read_spec crc (unat pos) b"
  using read_at_inside[OF assms] read_at_outside[OF assms]
  by (cases "unat pos + 24 \<le> unat (buf_size b)") (simp_all add: read_spec_def)

text \<open>Under the invariant no read panics, whatever the position and the bytes.\<close>

lemma read_at_cases:
  assumes inv: "prb_inv b"
  obtains "read_at crc pos b = Ok None" | "read_at crc pos b = Err InvalidRecord"
  | r n where "read_at crc pos b = Ok (Some (r, n))"
      "24 \<le> unat n" "unat pos + unat n \<le> unat (buf_size b)"
proof -
  let ?n = "24 + unat (dh_size (header_at b (unat pos)))"
  have "?n < 2 ^ 64" using unat_u32_lt[of "dh_size (header_at b (unat pos))"] by simp
  then have n: "unat (word_of_nat ?n :: usize) = ?n" by (rule unat_of_nat_usize)
  note spec = read_at_eq[OF inv, of crc pos, unfolded read_spec_def Let_def]
  show thesis
  proof (cases "read_at crc pos b")
    case (Ok found)
    show thesis
    proof (cases found)
      case None
      with Ok show thesis by (intro that(1)) simp
    next
      case (Some rn)
      with Ok spec have "snd rn = word_of_nat ?n" "unat pos + ?n \<le> unat (buf_size b)"
        by (auto split: if_splits simp del: of_nat_add)
      with Ok Some n show thesis
        by (intro that(3)[of "fst rn" "snd rn"]) (simp_all add: prod_eq_iff)
    qed
  qed (use spec that(2) in \<open>auto split: if_splits\<close>)
qed

text \<open>A record whose image stands at an offset is found there.\<close>

lemma read_at_image:
  assumes inv: "prb_inv b" and image: "subslice (buf_mmap b) (48 + p) (rec_len r) = record_image crc r"
    and room: "p + rec_len r \<le> unat (buf_size b)" and len: "u32_ok r"
  shows "read_at crc (word_of_nat p) b = Ok (Some (stored crc r, word_of_nat (rec_len r)))"
proof -
  let ?h = "encode_disk_header (header_for crc r)"
  have rl: "rec_len r = 24 + length (r_data r)" by (simp add: rec_len_def)
  have bytes: "subslice (buf_mmap b) (48 + p) (24 + length (r_data r)) = ?h @ r_data r"
    using image by (simp add: record_image_def rl)
  have h: "header_at b p = header_for crc r"
    using subslice_middle[of "buf_mmap b" "48 + p" _ "[]" ?h "r_data r"] bytes
    by (simp add: header_at_def)
  have size: "unat (dh_size (header_for crc r)) = length (r_data r)"
    using len by (simp add: header_for_def u32_ok_def unat_of_nat take_bit_nat_eq_self)
  have d: "data_at b p = r_data r"
    using subslice_middle[of "buf_mmap b" "48 + p" _ ?h "r_data r" "[]"] bytes
    by (simp add: data_at_def h size add.commute add.left_commute)
  have "unat (word_of_nat p :: u64) = p"
    using room prb_inv_facts(2)[OF inv] by (intro unat_of_nat_usize) simp
  moreover have "record_of (header_for crc r) (r_data r) = stored crc r"
    by (simp add: record_of_def header_for_def stored_def)
  moreover have "dh_is_valid (header_for crc r)" "dh_verify_crc crc (header_for crc r) (r_data r)"
    by (simp_all add: header_for_def)
  ultimately show ?thesis
    using room rl by (simp add: read_at_eq[OF inv] read_spec_def Let_def h size d del: of_nat_add)
qed

lemma represents_image_at:
  assumes "prb_inv b" and "represents crc b (xs @ r # ys)"
  shows "subslice (buf_mmap b) (48 + log_len xs) (rec_len r) = record_image crc r"
    and "log_len xs + rec_len r \<le> unat (buf_size b)"
proof -
  have "subslice (buf_mmap b) (48 + length (log_image crc xs)) (length (record_image crc r))
      = record_image crc r"
    by (rule subslice_middle[where w = "log_image crc ys" and n = "log_len (xs @ r # ys)"])
       (use assms(2) in \<open>simp_all add: represents_def\<close>)
  then show "subslice (buf_mmap b) (48 + log_len xs) (rec_len r) = record_image crc r" by simp
  show "log_len xs + rec_len r \<le> unat (buf_size b)"
    using assms(2) prb_inv_facts(3)[OF assms(1)] by (simp add: represents_def)
qed

lemma read_at_record:
  assumes "prb_inv b" and "represents crc b (xs @ r # ys)" and "u32_ok r"
  shows "read_at crc (word_of_nat (log_len xs)) b
           = Ok (Some (stored crc r, word_of_nat (rec_len r)))"
  by (rule read_at_image[OF assms(1) represents_image_at[OF assms(1,2)] assms(3)])

section \<open>Reading everything\<close>

lemma read_all_loop_done:
  "\<not> pos < cb_write_pos (buf_control b) \<Longrightarrow> read_all_loop crc b pos acc = Some (Ok (acc, pos))"
  by (subst read_all_loop.simps) simp

lemma read_all_loop_log:
  assumes inv: "prb_inv b"
  shows "represents crc b (xs @ ys) \<Longrightarrow> \<forall>r\<in>set ys. u32_ok r \<Longrightarrow>
    read_all_loop crc b (word_of_nat (log_len xs)) acc
      = Some (Ok (acc @ map (stored crc) ys, cb_write_pos (buf_control b)))"
proof (induction ys arbitrary: xs acc)
  case Nil
  then have "log_len xs = unat (cb_write_pos (buf_control b))"
    by (simp add: represents_def)
  then have "cb_write_pos (buf_control b) = word_of_nat (log_len xs)" by simp
  then show ?case by (simp add: read_all_loop_done)
next
  case (Cons r ys)
  have wp: "unat (cb_write_pos (buf_control b)) = log_len (xs @ r # ys)"
    using Cons.prems(1) by (simp add: represents_def)
  moreover from wp have "unat (word_of_nat (log_len xs) :: u64) = log_len xs"
    using prb_inv_facts(2,3)[OF inv] by (intro unat_of_nat_usize) simp
  ultimately have more: "word_of_nat (log_len xs) < cb_write_pos (buf_control b)"
    using rec_len_ge[of r] by (simp add: word_less_nat_alt)
  have "read_at crc (word_of_nat (log_len xs)) b
      = Ok (Some (stored crc r, word_of_nat (rec_len r)))"
    using Cons.prems by (intro read_at_record[OF inv]) auto
  then have "read_all_loop crc b (word_of_nat (log_len xs)) acc
      = read_all_loop crc b (word_of_nat (log_len (xs @ [r]))) (acc @ [stored crc r])"
    using more by (subst read_all_loop.simps) simp
  also have "\<dots> = Some (Ok ((acc @ [stored crc r]) @ map (stored crc) ys,
      cb_write_pos (buf_control b)))"
    using Cons.prems by (intro Cons.IH) simp_all
  finally show ?case by simp
qed

text \<open>The loop ends on every well-formed buffer, whatever bytes the records hold.\<close>

lemma read_all_loop_returns:
  assumes inv: "prb_inv b"
  obtains "read_all_loop crc b pos acc = Some (Err InvalidRecord)"
  | recs pos' where "read_all_loop crc b pos acc = Some (Ok (recs, pos'))"
      "unat pos' < max (Suc (unat pos)) (unat (buf_size b) + 24)"
proof -
  let ?w = "unat (cb_write_pos (buf_control b))"
  note facts = prb_inv_facts[OF inv]
  have "read_all_loop crc b pos acc = Some (Err InvalidRecord) \<or>
      (\<exists>recs pos'. read_all_loop crc b pos acc = Some (Ok (recs, pos')) \<and>
         unat pos' < max (Suc (unat pos)) (unat (buf_size b) + 24))"
  proof (induction "?w - unat pos" arbitrary: pos acc rule: less_induct)
    case less
    show ?case
    proof (cases "unat pos < ?w")
      case False
      then show ?thesis by (simp add: read_all_loop_done word_less_nat_alt)
    next
      case True
      have step: "unat (pos + d) = unat pos + unat d" if "unat d \<le> unat (buf_size b) \<or> unat d = 24" for d
        using that True facts by (intro unat_plus_no_wrap) auto
      have next_ok: ?thesis
        if eq: "read_all_loop crc b pos acc = read_all_loop crc b (pos + d) acc'"
          and d: "24 \<le> unat d" "unat pos + unat d \<le> unat (buf_size b) \<or> unat d = 24" for d acc'
      proof -
        have "unat (pos + d) = unat pos + unat d" using d by (intro step) auto
        then show ?thesis
          using less[of "pos + d" acc'] True d facts(3) unfolding eq by fastforce
      qed
      from True have lt: "pos < cb_write_pos (buf_control b)" by (simp add: word_less_nat_alt)
      show ?thesis
      proof (cases rule: read_at_cases[OF inv, of crc pos])
        case 1
        then show ?thesis using lt
          by (intro next_ok[of Header_SIZE acc]) (subst read_all_loop.simps, simp, simp_all)
      next
        case 2
        then show ?thesis using lt by (subst read_all_loop.simps) (simp add: read_all_loop.simps)
      next
        case (3 r n)
        then show ?thesis using lt
          by (intro next_ok[of n "acc @ [r]"]) (subst read_all_loop.simps, simp, simp_all)
      qed
    qed
  qed
  then show thesis using that by blast
qed

section \<open>Storing the control block\<close>

definition synced :: "hasher \<Rightarrow> u32 \<Rightarrow> control_block \<Rightarrow> prb \<Rightarrow> prb" where
  "synced crc pad ctl b = b\<lparr>buf_control := cb_update_crc crc ctl,
     buf_mmap := put (buf_mmap b) 0 (encode_control_block pad (cb_update_crc crc ctl))\<rparr>"

lemma sync_control_eq:
  assumes "prb_inv b"
  shows "sync_control crc pad flush ctl b =
     ((case flush of Some e \<Rightarrow> Err (Io e) | None \<Rightarrow> Ok ()), synced crc pad ctl b)"
  using prb_inv_facts(1,6)[OF assms]
  by (simp add: sync_control_def Let_def slice_copy_start synced_def persistent_error_from_def
      split: option.split)

lemma synced_inv:
  assumes inv: "prb_inv b" and "unat pos < unat (buf_size b) + 24"
  shows "prb_inv (synced crc pad ((buf_control b)\<lparr>cb_read_pos := pos\<rparr>) b)"
proof -
  note facts = prb_inv_facts[OF inv]
  let ?c = "cb_update_crc crc ((buf_control b)\<lparr>cb_read_pos := pos\<rparr>)"
  have "decode_control_block (subslice (put (buf_mmap b) 0 (encode_control_block pad ?c)) 0 48) = ?c"
    using facts(1) by (intro cb_codec.load_store) simp
  then show ?thesis
    using facts assms(2) by (simp add: prb_inv_def synced_def)
qed

lemma synced_represents:
  assumes inv: "prb_inv b" and rep: "represents crc b rs"
  shows "represents crc (synced crc pad ((buf_control b)\<lparr>cb_read_pos := pos\<rparr>) b) rs"
  using rep prb_inv_facts(1)[OF inv]
  by (simp add: represents_def synced_def slice_put_after)

lemma synced_fields [simp]:
  "buf_size (synced crc pad ctl b) = buf_size b"
  "buf_control (synced crc pad ctl b) = cb_update_crc crc ctl"
  by (simp_all add: synced_def)

lemma read_all_log:
  assumes inv: "prb_inv b" and rep: "represents crc b (xs @ ys)"
    and rd: "unat (cb_read_pos (buf_control b)) = log_len xs" and ok: "\<forall>r\<in>set ys. u32_ok r"
  shows "\<exists>b'. read_all crc pad None b = Some (Ok (map (stored crc) ys), b') \<and> prb_inv b' \<and>
           represents crc b' (xs @ ys) \<and> buf_size b' = buf_size b \<and>
           cb_read_pos (buf_control b') = cb_write_pos (buf_control b')"
proof (cases "cb_read_pos (buf_control b) = cb_write_pos (buf_control b)")
  case True
  then have "log_len ys = 0" using rd rep by (simp add: represents_def)
  then have "ys = []" using rec_len_ge[of "hd ys"] by (cases ys) simp_all
  then show ?thesis using True inv rep by (simp add: read_all_def)
next
  case False
  let ?w = "cb_write_pos (buf_control b)"
  let ?b = "synced crc pad ((buf_control b)\<lparr>cb_read_pos := ?w\<rparr>) b"
  have pos: "cb_read_pos (buf_control b) = word_of_nat (log_len xs)"
    using arg_cong[OF rd, of "word_of_nat :: nat \<Rightarrow> u64"] by simp
  have "read_all crc pad None b = Some (Ok (map (stored crc) ys), ?b)"
    using False read_all_loop_log[OF inv rep ok, of "[]"] sync_control_eq[OF inv]
    by (simp add: read_all_def Let_def pos)
  moreover have "prb_inv ?b"
    using prb_inv_facts(3)[OF inv] by (intro synced_inv[OF inv]) simp
  ultimately show ?thesis
    using synced_represents[OF inv rep] by simp
qed

lemma read_all_past_write:
  assumes inv: "prb_inv b"
    and past: "cb_write_pos (buf_control b) < cb_read_pos (buf_control b)"
  shows "\<exists>b'. read_all crc pad None b = Some (Ok [], b') \<and>
           cb_read_pos (buf_control b') = cb_read_pos (buf_control b) \<and>
           cb_write_pos (buf_control b') = cb_write_pos (buf_control b)"
proof -
  have "cb_read_pos (buf_control b) \<noteq> cb_write_pos (buf_control b)" using past by auto
  then show ?thesis
    using past sync_control_eq[OF inv] by (simp add: read_all_def Let_def read_all_loop_done)
qed

lemma read_all_returns:
  assumes inv: "prb_inv b"
  obtains recs b' where "read_all crc pad flush b = Some (Ok recs, b')" "prb_inv b'"
      "buf_size b' = buf_size b"
  | e b' where "read_all crc pad flush b = Some (Err e, b')" "prb_inv b'"
      "buf_size b' = buf_size b"
proof (cases "cb_read_pos (buf_control b) = cb_write_pos (buf_control b)")
  case True
  then show thesis using that(1)[of "[]" b] inv by (simp add: read_all_def)
next
  case False
  show thesis
  proof (cases rule: read_all_loop_returns[OF inv, of crc "cb_read_pos (buf_control b)" "[]"])
    case 1
    then show thesis using that(2)[of InvalidRecord b] False inv by (simp add: read_all_def)
  next
    case (2 recs pos)
    then have "prb_inv (synced crc pad ((buf_control b)\<lparr>cb_read_pos := pos\<rparr>) b)"
      using prb_inv_facts(4)[OF inv] by (intro synced_inv[OF inv]) simp
    then show thesis
      using that 2(1) False sync_control_eq[OF inv]
      by (cases flush) (simp_all add: read_all_def Let_def)
  qed
qed

end
