(* ===== verification/Persistent_Safety.thy ===== *)
theory Persistent_Safety
  imports Persistent_Log
begin

text \<open>
  The promises of the persistent buffer to its clients, stated once as an interface
  (append a record, fetch the record at an offset) and discharged for the model; the
  states a process can bring a buffer into, with the invariant and the absence of
  panics; reopening.
\<close>

section \<open>The interface of an appendable log\<close>

locale record_log =
  fixes append :: "'r \<Rightarrow> 'b \<Rightarrow> 'b option"
    and fetch :: "'b \<Rightarrow> nat \<Rightarrow> ('r \<times> nat) option"
    and holds :: "'b \<Rightarrow> 'r list \<Rightarrow> bool"
    and cap :: "'b \<Rightarrow> nat"
    and len :: "'r \<Rightarrow> nat"
    and seen :: "'r \<Rightarrow> 'r"
    and ok :: "'r \<Rightarrow> bool"
  assumes append_room: "holds b rs \<Longrightarrow> ok r \<Longrightarrow> sum_list (map len rs) + len r \<le> cap b \<Longrightarrow>
      \<exists>b'. append r b = Some b' \<and> holds b' (rs @ [r]) \<and> cap b' = cap b"
    and append_wrap: "holds b rs \<Longrightarrow> ok r \<Longrightarrow> cap b < sum_list (map len rs) + len r \<Longrightarrow>
      len r \<le> cap b \<Longrightarrow> \<exists>b'. append r b = Some b' \<and> holds b' [r] \<and> cap b' = cap b"
    and fetch_nth: "holds b (xs @ r # ys) \<Longrightarrow> ok r \<Longrightarrow>
      fetch b (sum_list (map len xs)) = Some (seen r, len r)"
begin

lemma append_all_room:
  "holds b rs \<Longrightarrow> \<forall>r\<in>set xs. ok r \<Longrightarrow> sum_list (map len (rs @ xs)) \<le> cap b \<Longrightarrow>
    \<exists>b'. iter_opt append xs b = Some b' \<and> holds b' (rs @ xs) \<and> cap b' = cap b"
proof (induction xs arbitrary: b rs)
  case Nil
  then show ?case by simp
next
  case (Cons x xs)
  then obtain b1 where b1: "append x b = Some b1" "holds b1 (rs @ [x])" "cap b1 = cap b"
    using append_room[of b rs x] by auto
  then show ?case
    using Cons.IH[of b1 "rs @ [x]"] Cons.prems by auto
qed

text \<open>
  Whatever is appended, the log holds the most recent records: a suffix of everything
  written, in order, ending with the last record.
\<close>

lemma append_all_suffix:
  "holds b rs \<Longrightarrow> \<forall>r\<in>set xs. ok r \<and> len r \<le> cap b \<Longrightarrow>
    \<exists>b' dropped kept. iter_opt append xs b = Some b' \<and> holds b' kept \<and> cap b' = cap b \<and>
      rs @ xs = dropped @ kept \<and> (xs \<noteq> [] \<longrightarrow> kept \<noteq> [])"
proof (induction xs arbitrary: b rs)
  case Nil
  then show ?case by auto
next
  case (Cons x xs)
  have "\<exists>b1 d k. append x b = Some b1 \<and> holds b1 k \<and> cap b1 = cap b \<and> rs @ [x] = d @ k \<and> k \<noteq> []"
  proof (cases "sum_list (map len rs) + len x \<le> cap b")
    case True
    then obtain b1 where "append x b = Some b1" "holds b1 (rs @ [x])" "cap b1 = cap b"
      using append_room[of b rs x] Cons.prems by auto
    then show ?thesis by blast
  next
    case False
    then obtain b1 where "append x b = Some b1" "holds b1 [x]" "cap b1 = cap b"
      using append_wrap[of b rs x] Cons.prems by auto
    then show ?thesis by blast
  qed
  then obtain b1 d k where 1: "append x b = Some b1" "holds b1 k" "cap b1 = cap b"
    "rs @ [x] = d @ k" "k \<noteq> []" by blast
  obtain b' d' k' where 2: "iter_opt append xs b1 = Some b'" "holds b' k'" "cap b' = cap b1"
    "k @ xs = d' @ k'" "xs \<noteq> [] \<longrightarrow> k' \<noteq> []"
    using Cons.IH[OF 1(2)] Cons.prems 1(3) by auto
  show ?case
  proof (cases "xs = []")
    case True
    then show ?thesis using 1 by (intro exI[of _ b1] exI[of _ d] exI[of _ k]) simp
  next
    case False
    have "rs @ x # xs = (d @ d') @ k'"
      using 1(4) 2(4) by (metis append.assoc append_Cons append_Nil)
    then show ?thesis
      using 1 2 False by (intro exI[of _ b'] exI[of _ "d @ d'"] exI[of _ k']) simp
  qed
qed

end

section \<open>The persistent buffer provides it\<close>

definition try_write :: "hasher \<Rightarrow> u32 \<Rightarrow> log_record \<Rightarrow> prb \<Rightarrow> prb option" where
  "try_write crc pad r b =
     (case prb_write crc pad None r b of (Ok _, b') \<Rightarrow> Some b' | _ \<Rightarrow> None)"

definition fetch_at :: "hasher \<Rightarrow> prb \<Rightarrow> nat \<Rightarrow> (log_record \<times> nat) option" where
  "fetch_at crc b p =
     (case read_at crc (word_of_nat p) b of
        Ok found \<Rightarrow> map_option (\<lambda>rn. (fst rn, unat (snd rn))) found | _ \<Rightarrow> None)"

definition holds_log :: "hasher \<Rightarrow> prb \<Rightarrow> log_record list \<Rightarrow> bool" where
  "holds_log crc b rs \<longleftrightarrow> prb_inv b \<and> represents crc b rs"

lemma try_write_eq:
  assumes "holds_log crc b rs" and "u32_ok r" and "rec_len r \<le> unat (buf_size b)"
  shows "try_write crc pad r b = Some (written crc pad r b)"
    and "holds_log crc (written crc pad r b) (log_write (unat (buf_size b)) r rs)"
    and "buf_size (written crc pad r b) = buf_size b"
proof -
  have inv: "prb_inv b" and rep: "represents crc b rs" using assms(1) by (simp_all add: holds_log_def)
  show "try_write crc pad r b = Some (written crc pad r b)"
    using prb_write_eq[OF inv u32_imp_vec[OF assms(2)] assms(3)] by (simp add: try_write_def)
  show "holds_log crc (written crc pad r b) (log_write (unat (buf_size b)) r rs)"
    using written_inv[OF inv assms(3)] written_represents[OF inv assms(3) rep]
    by (simp add: holds_log_def)
  show "buf_size (written crc pad r b) = buf_size b" by (simp add: written_def)
qed

interpretation plog: record_log "try_write crc pad" "fetch_at crc" "holds_log crc"
    "\<lambda>b. unat (buf_size b)" rec_len "stored crc" u32_ok for crc pad
proof
  fix b rs r
  assume h: "holds_log crc b rs" "u32_ok r" "sum_list (map rec_len rs) + rec_len r \<le> unat (buf_size b)"
  then show "\<exists>b'. try_write crc pad r b = Some b' \<and> holds_log crc b' (rs @ [r]) \<and>
      unat (buf_size b') = unat (buf_size b)"
    using try_write_eq[OF h(1,2)] by (auto simp: log_write_def log_len_def)
next
  fix b rs r
  assume h: "holds_log crc b rs" "u32_ok r" "unat (buf_size b) < sum_list (map rec_len rs) + rec_len r"
    "rec_len r \<le> unat (buf_size b)"
  then show "\<exists>b'. try_write crc pad r b = Some b' \<and> holds_log crc b' [r] \<and>
      unat (buf_size b') = unat (buf_size b)"
    using try_write_eq[OF h(1,2,4)] by (auto simp: log_write_def log_len_def)
next
  fix b xs r ys
  assume h: "holds_log crc b (xs @ r # ys)" "u32_ok r"
  then have "unat (word_of_nat (rec_len r) :: usize) = rec_len r"
    by (intro unat_of_nat_usize) (simp add: u32_ok_def rec_len_def)
  then show "fetch_at crc b (sum_list (map rec_len xs)) = Some (stored crc r, rec_len r)"
    using h read_at_record[of b crc xs r ys] by (simp add: holds_log_def fetch_at_def log_len_def)
qed

text \<open>Writing never moves the read position.\<close>

lemma try_write_read_pos:
  assumes "prb_inv b" and "vec_ok r" and "try_write crc pad r b = Some b'"
  shows "prb_inv b' \<and> cb_read_pos (buf_control b') = cb_read_pos (buf_control b)"
proof (cases "rec_len r \<le> unat (buf_size b)")
  case True
  then have "b' = written crc pad r b"
    using assms prb_write_eq[OF assms(1,2) True, of crc pad None] by (simp add: try_write_def)
  then show ?thesis
    using written_inv[OF assms(1) True] written_control(2)[OF assms(1) True] by (simp add: written_def)
next
  case False
  then show ?thesis
    using assms prb_write_too_large[OF assms(1,2)] by (simp add: try_write_def)
qed

lemma iter_write_read_pos:
  "prb_inv b \<Longrightarrow> iter_opt (try_write crc pad) rs b = Some b' \<Longrightarrow> \<forall>r\<in>set rs. vec_ok r \<Longrightarrow>
    cb_read_pos (buf_control b') = cb_read_pos (buf_control b)"
proof (induction rs arbitrary: b)
  case (Cons r rs)
  then show ?case
    using try_write_read_pos[of b r crc pad] by (auto split: option.splits)
qed simp

section \<open>Reachable buffers\<close>

text \<open>
  One step is one call on an open buffer, with any record a program can hold, any
  padding bytes and any result of the flush.
\<close>

inductive prb_step :: "hasher \<Rightarrow> prb \<Rightarrow> prb \<Rightarrow> bool" for crc where
  step_write: "vec_ok r \<Longrightarrow> prb_step crc b (snd (prb_write crc pad flush r b))"
| step_read_all: "read_all crc pad flush b = Some (res, b') \<Longrightarrow> prb_step crc b b'"
| step_reset: "prb_step crc b (snd (reset_read_position crc pad flush b))"

inductive prb_reachable :: "hasher \<Rightarrow> usize \<Rightarrow> prb \<Rightarrow> bool" for crc bsize where
  reach_new: "PersistentRingBuffer_new crc pad open_ok path bsize [] = (Ok b, contents) \<Longrightarrow>
    prb_reachable crc bsize b"
| reach_step: "prb_reachable crc bsize b \<Longrightarrow> prb_step crc b b' \<Longrightarrow> prb_reachable crc bsize b'"

lemma prb_write_preserves:
  assumes "prb_inv b" and "vec_ok r"
  shows "prb_inv (snd (prb_write crc pad flush r b))"
    and "buf_size (snd (prb_write crc pad flush r b)) = buf_size b"
    and "\<not> panics (fst (prb_write crc pad flush r b))"
  using assms prb_write_eq[OF assms] prb_write_too_large[OF assms] written_inv[OF assms(1)]
  by (cases "rec_len r \<le> unat (buf_size b)"; cases flush; simp add: written_def)+

lemma reset_preserves:
  assumes "prb_inv b"
  shows "prb_inv (snd (reset_read_position crc pad flush b))"
    and "buf_size (snd (reset_read_position crc pad flush b)) = buf_size b"
    and "\<not> panics (fst (reset_read_position crc pad flush b))"
  using prb_inv_facts(3)[OF assms] synced_inv[OF assms]
  by (auto simp: reset_read_position_def sync_control_eq[OF assms] split: option.split)

lemma prb_step_preserves:
  "prb_step crc b b' \<Longrightarrow> prb_inv b \<Longrightarrow> prb_inv b' \<and> buf_size b' = buf_size b"
proof (induction rule: prb_step.induct)
  case (step_write r b pad flush)
  then show ?case by (simp add: prb_write_preserves)
next
  case (step_read_all pad flush b res b')
  then show ?case by (elim read_all_returns[of b crc pad flush]) auto
next
  case (step_reset b pad flush)
  then show ?case by (simp add: reset_preserves)
qed

lemma prb_reachable_inv:
  assumes "unat bsize + 48 < 2 ^ 63"
  shows "prb_reachable crc bsize b \<Longrightarrow> prb_inv b \<and> buf_size b = bsize"
proof (induction rule: prb_reachable.induct)
  case (reach_new pad path b contents)
  then show ?case using new_file[OF assms, of crc pad path] by auto
next
  case (reach_step b b')
  then show ?case using prb_step_preserves by blast
qed

section \<open>Reopening\<close>

text \<open>The mapping of a well-formed buffer, opened as a file, is accepted on its checksum only.\<close>

lemma reopen_eq:
  assumes "prb_inv b"
  shows "PersistentRingBuffer_new crc pad open_ok path bsize (buf_mmap b) =
     ((if cb_verify_crc crc (buf_control b) then Ok (b\<lparr>buf_path := path\<rparr>) else Err InvalidBuffer),
      buf_mmap b)"
proof -
  note facts = prb_inv_facts[OF assms]
  have "slice_get (buf_mmap b) 0 ControlBlock_SIZE = Some (subslice (buf_mmap b) 0 48)"
    using facts(1) by (simp add: slice_get_def)
  moreover have "buf_mmap b \<noteq> []" using facts(1) by auto
  ultimately show ?thesis
    using facts(5-9)
    by (cases b) (simp add: PersistentRingBuffer_new_def open_ok_def Let_def)
qed

context burst_checksum
begin

lemma verify_after_write:
  "cb_verify_crc crc (control_after crc r b) \<longleftrightarrow>
     cb_crc32 (control_after crc r b) = cb_crc32 (buf_control b)"
  by (simp add: control_after_def verify_after_update control_wrapped_def)

lemma verify_new: "cb_verify_crc crc (ControlBlock_new crc n) \<longleftrightarrow> cb_crc32 (ControlBlock_new crc n) = 0"
  by (simp add: ControlBlock_new_def verify_after_update)

text \<open>A burst of four changed bytes inside the data of a stored record is detected.\<close>

lemma burst_in_data:
  assumes "i + 4 \<le> length d" and "length v = 4" and "v \<noteq> subslice d i 4"
  shows "crc (put d i v) \<noteq> crc d"
proof
  assume "crc (put d i v) = crc d"
  moreover have "d = take i d @ subslice d i 4 @ drop (i + 4) d"
    by (metis add.commute append_take_drop_id drop_drop subslice_def)
  ultimately have "crc (take i d @ v @ drop (i + 4) d)
      = crc (take i d @ subslice d i 4 @ drop (i + 4) d)"
    using assms(2) by (simp add: put_def)
  then have "v = subslice d i 4" using assms(1,2) by (intro burst) simp_all
  then show False using assms(3) by simp
qed

end

lemma subslice_put_inside:
  assumes "a \<le> p" and "p + length xs \<le> a + n" and "a + n \<le> length m"
  shows "subslice (put m p xs) a n = put (subslice m a n) (p - a) xs"
proof (rule nth_equalityI)
  show "length (subslice (put m p xs) a n) = length (put (subslice m a n) (p - a) xs)"
    using assms by simp
  fix i assume "i < length (subslice (put m p xs) a n)"
  then have i: "i < n" using assms by simp
  then show "subslice (put m p xs) a n ! i = put (subslice m a n) (p - a) xs ! i"
    using assms by (auto simp: subslice_def put_def nth_append add.commute)
qed

lemma read_at_corrupted:
  assumes crc: "burst_checksum crc" and inv: "prb_inv b" and len: "u32_ok r"
    and image: "subslice (buf_mmap b) (48 + p) (rec_len r) = record_image crc r"
    and room: "p + rec_len r \<le> unat (buf_size b)"
    and burst: "i + 4 \<le> length (r_data r)" "length v = 4" "v \<noteq> subslice (r_data r) i 4"
  shows "read_at crc (word_of_nat p) (b\<lparr>buf_mmap := put (buf_mmap b) (72 + p + i) v\<rparr>)
           = Err InvalidRecord"
proof -
  let ?b = "b\<lparr>buf_mmap := put (buf_mmap b) (72 + p + i) v\<rparr>"
  let ?h = "encode_disk_header (header_for crc r)"
  note facts = prb_inv_facts[OF inv]
  have rl: "rec_len r = 24 + length (r_data r)" by (simp add: rec_len_def)
  have bytes: "subslice (buf_mmap b) (48 + p) (24 + length (r_data r)) = ?h @ r_data r"
    using image by (simp add: record_image_def rl)
  have inv': "prb_inv ?b"
    using inv room rl burst facts(1) by (simp add: prb_inv_def slice_put_before)
  have head: "subslice (buf_mmap b) (48 + p) 24 = ?h"
    using subslice_middle[of "buf_mmap b" "48 + p" _ "[]" ?h "r_data r"] bytes by simp
  have data: "subslice (buf_mmap b) (72 + p) (length (r_data r)) = r_data r"
    using subslice_middle[of "buf_mmap b" "48 + p" _ ?h "r_data r" "[]"] bytes
    by (simp add: add.commute add.left_commute)
  have h: "header_at ?b p = header_for crc r"
    using head room rl burst facts(1) by (simp add: header_at_def slice_put_before)
  have size: "unat (dh_size (header_for crc r)) = length (r_data r)"
    using len by (simp add: header_for_def u32_ok_def unat_of_nat take_bit_nat_eq_self)
  have d: "data_at ?b p = put (r_data r) i v"
    using data room rl burst facts(1)
    by (simp add: data_at_def h size subslice_put_inside)
  have "crc (put (r_data r) i v) \<noteq> crc (r_data r)"
    by (rule burst_checksum.burst_in_data[OF crc burst])
  moreover have "unat (word_of_nat p :: u64) = p"
    using room facts(2) by (intro unat_of_nat_usize) simp
  ultimately show ?thesis
    using room rl
    by (simp add: read_at_eq[OF inv'] read_spec_def Let_def h size d dh_verify_crc_def del: of_nat_add)
       (simp add: header_for_def)
qed

end
