(* ===== verification/Persistent_Properties.thy ===== *)
theory Persistent_Properties
  imports Persistent_Safety
begin

text \<open>
  The properties of the persistent buffer, each with a closed instance on a buffer of 64
  bytes checked with the IEEE checksum.
\<close>

section \<open>Concrete buffers\<close>

definition demo_record :: log_record where
  "demo_record = Record_new crc32_ieee (Some 7) [1, 2, 3, 4, 5] 9"

definition demo_buffer :: prb where
  "demo_buffer =
     \<lparr>buf_path = ''log'',
      buf_mmap = put (replicate 112 0) 0 (encode_control_block 0 (ControlBlock_new crc32_ieee 64)),
      buf_control = ControlBlock_new crc32_ieee 64, buf_size = 64,
      write_lock_poisoned = False, mmap_lock_poisoned = False\<rparr>"

text \<open>After two records; and after they have been read.\<close>

definition demo_filled :: prb where
  "demo_filled = written crc32_ieee 0 demo_record (written crc32_ieee 0 demo_record demo_buffer)"

definition demo_read :: prb where
  "demo_read = snd (reset_read_position crc32_ieee 0 None demo_filled)"

lemma demo_buffer_new:
  "PersistentRingBuffer_new crc32_ieee 0 open_ok ''log'' 64 [] = (Ok demo_buffer, buf_mmap demo_buffer)"
  by (simp add: PersistentRingBuffer_new_def open_ok_def Let_def slice_copy_def demo_buffer_def
      ControlBlock_SIZE_def)

lemma demo_buffer_ok: "prb_inv demo_buffer" "represents crc32_ieee demo_buffer []"
  "buf_size demo_buffer = 64" "cb_write_pos (buf_control demo_buffer) = 0"
  using new_file[of 64 crc32_ieee 0 "''log''"]
  by (simp_all add: demo_buffer_new) (simp_all add: demo_buffer_def ControlBlock_new_def)

lemma demo_record_ok: "u32_ok demo_record" "vec_ok demo_record" "rec_len demo_record = 29"
  "r_data demo_record = [1, 2, 3, 4, 5]" "stored crc32_ieee demo_record = demo_record"
  by (simp_all add: u32_ok_def vec_ok_def rec_len_def demo_record_def)

lemma demo_one_ok:
  "prb_inv (written crc32_ieee 0 demo_record demo_buffer)"
  "represents crc32_ieee (written crc32_ieee 0 demo_record demo_buffer) [demo_record]"
  "buf_size (written crc32_ieee 0 demo_record demo_buffer) = 64"
  using written_inv[of demo_buffer demo_record crc32_ieee 0]
    written_represents[of demo_buffer demo_record crc32_ieee "[]" 0] demo_buffer_ok demo_record_ok
  by (simp_all add: log_write_def) (simp add: written_def)

lemma demo_filled_ok: "prb_inv demo_filled"
  "represents crc32_ieee demo_filled [demo_record, demo_record]"
  "buf_size demo_filled = 64" "unat (cb_write_pos (buf_control demo_filled)) = 58"
proof -
  let ?b = "written crc32_ieee 0 demo_record demo_buffer"
  show inv: "prb_inv demo_filled"
    using written_inv[of ?b demo_record crc32_ieee 0] demo_one_ok demo_record_ok
    by (simp add: demo_filled_def)
  show rep: "represents crc32_ieee demo_filled [demo_record, demo_record]"
    using written_represents[of ?b demo_record crc32_ieee "[demo_record]" 0] demo_one_ok demo_record_ok
    by (simp add: demo_filled_def log_write_def)
  show "buf_size demo_filled = 64"
    using demo_one_ok(3) by (simp add: demo_filled_def written_def)
  show "unat (cb_write_pos (buf_control demo_filled)) = 58"
    using rep demo_record_ok(3) by (simp add: represents_def)
qed

lemma demo_read_ok: "prb_inv demo_read" "buf_size demo_read = 64"
  "unat (cb_write_pos (buf_control demo_read)) = 58"
  "unat (cb_read_pos (buf_control demo_read)) = 58"
  using reset_preserves[OF demo_filled_ok(1), of crc32_ieee 0 None] demo_filled_ok
  by (simp_all add: demo_read_def) (simp_all add: reset_read_position_def sync_control_eq)

section \<open>Checksums of the concrete control blocks\<close>

lemma demo_hashed:
  "cb_hashed \<lparr>cb_magic = 0x5348524C, cb_version = 1, cb_buffer_size = 64, cb_write_pos = 0,
      cb_read_pos = 0, cb_wrap_count = 0, cb_crc32 = 0\<rparr>
   = [0x4C, 0x52, 0x48, 0x53, 1, 0, 0, 0, 64, 0, 0, 0, 0, 0, 0, 0, 0, 0, 0, 0, 0, 0, 0, 0,
      0, 0, 0, 0, 0, 0, 0, 0, 0, 0, 0, 0, 0, 0, 0, 0, 0, 0, 0, 0]"
  "cb_hashed \<lparr>cb_magic = 0x5348524C, cb_version = 1, cb_buffer_size = 64, cb_write_pos = 29,
      cb_read_pos = 0, cb_wrap_count = 0, cb_crc32 = 0x1A30E731\<rparr>
   = [0x4C, 0x52, 0x48, 0x53, 1, 0, 0, 0, 64, 0, 0, 0, 0, 0, 0, 0, 29, 0, 0, 0, 0, 0, 0, 0,
      0, 0, 0, 0, 0, 0, 0, 0, 0, 0, 0, 0, 0, 0, 0, 0, 49, 231, 48, 26]"
  by (simp_all add: cb_hashed_def encode_control_block_def le_bytes_def upt_rec)

lemma demo_crc:
  "crc32_ieee [0x4C, 0x52, 0x48, 0x53, 1, 0, 0, 0, 64, 0, 0, 0, 0, 0, 0, 0, 0, 0, 0, 0, 0, 0, 0, 0,
      0, 0, 0, 0, 0, 0, 0, 0, 0, 0, 0, 0, 0, 0, 0, 0, 0, 0, 0, 0] = 0x1A30E731"
  "crc32_ieee [0x4C, 0x52, 0x48, 0x53, 1, 0, 0, 0, 64, 0, 0, 0, 0, 0, 0, 0, 29, 0, 0, 0, 0, 0, 0, 0,
      0, 0, 0, 0, 0, 0, 0, 0, 0, 0, 0, 0, 0, 0, 0, 0, 49, 231, 48, 26] = 0xCDBC4108"
  by (simp_all add: crc32_ieee_eval)

lemma demo_control:
  "ControlBlock_new crc32_ieee 64 =
     \<lparr>cb_magic = 0x5348524C, cb_version = 1, cb_buffer_size = 64, cb_write_pos = 0,
      cb_read_pos = 0, cb_wrap_count = 0, cb_crc32 = 0x1A30E731\<rparr>"
  by (simp add: ControlBlock_new_def cb_update_crc_def ControlBlock_MAGIC_def
      ControlBlock_VERSION_def demo_hashed demo_crc)

lemma demo_control_after:
  "cb_crc32 (control_after crc32_ieee demo_record demo_buffer) = 0xCDBC4108"
  using demo_buffer_ok(3,4) demo_record_ok(3)
  by (simp add: control_after_def control_wrapped_def write_wraps_def write_offset_def)
     (simp add: demo_buffer_def demo_control cb_update_crc_def demo_hashed demo_crc)

section \<open>Writing refines the log specification\<close>

text \<open>
  C1: a write to a well-formed buffer that represents the records \<open>rs\<close> succeeds for
  every record that fits, keeps the invariant and represents the specified log: \<open>rs\<close>
  with the record appended, or the record alone when it wrapped; the wrap counter counts
  the wraps and the read position is left where it was.
\<close>

theorem write_refines_log:
  assumes "prb_inv b" and "represents crc b rs" and "u32_ok r" and "rec_len r \<le> unat (buf_size b)"
  shows "\<exists>b'. prb_write crc pad None r b = (Ok (), b') \<and> prb_inv b' \<and>
     represents crc b' (log_write (unat (buf_size b)) r rs) \<and>
     cb_wrap_count (buf_control b') = cb_wrap_count (buf_control b) +
       (if log_len rs + rec_len r \<le> unat (buf_size b) then 0 else 1) \<and>
     cb_read_pos (buf_control b') = cb_read_pos (buf_control b)"
proof (intro exI conjI)
  have used: "unat (cb_write_pos (buf_control b)) = log_len rs"
    using assms(2) by (simp add: represents_def)
  show "prb_write crc pad None r b = (Ok (), written crc pad r b)"
    using prb_write_eq[OF assms(1) u32_imp_vec[OF assms(3)] assms(4)] by simp
  show "prb_inv (written crc pad r b)" by (rule written_inv[OF assms(1,4)])
  show "represents crc (written crc pad r b) (log_write (unat (buf_size b)) r rs)"
    by (rule written_represents[OF assms(1,4,2)])
  show "cb_wrap_count (buf_control (written crc pad r b)) = cb_wrap_count (buf_control b) +
      (if log_len rs + rec_len r \<le> unat (buf_size b) then 0 else 1)"
    and "cb_read_pos (buf_control (written crc pad r b)) = cb_read_pos (buf_control b)"
    using written_control(2,3)[OF assms(1,4)] used by (auto simp: written_def write_wraps_def)
qed

theorem write_refines_log_witness:
  "\<exists>b'. prb_write crc32_ieee 0 None demo_record demo_filled = (Ok (), b') \<and>
     represents crc32_ieee b' [demo_record] \<and>
     cb_wrap_count (buf_control b') = cb_wrap_count (buf_control demo_filled) + 1"
  using write_refines_log[OF demo_filled_ok(1,2) demo_record_ok(1), of 0]
    demo_filled_ok(3) demo_record_ok(3)
  by (auto simp: log_write_def)

section \<open>Round trips\<close>

text \<open>
  C2: a record written to any well-formed buffer is read back at the offset it was
  written to, with its data, time stamp and tag, the length and the checksum of the
  data, and the size of its stored form.
\<close>

theorem write_then_read_at:
  assumes "prb_inv b" and "u32_ok r" and "rec_len r \<le> unat (buf_size b)"
  shows "read_at crc (word_of_nat (write_offset r b)) (snd (prb_write crc pad flush r b))
     = Ok (Some (stored crc r, word_of_nat (rec_len r)))"
proof -
  have "snd (prb_write crc pad flush r b) = written crc pad r b"
    using prb_write_eq[OF assms(1) u32_imp_vec[OF assms(2)] assms(3)] by simp
  moreover have "write_offset r b + rec_len r \<le> unat (buf_size (written crc pad r b))"
    using assms(3) by (auto simp: write_offset_def write_wraps_def written_def)
  ultimately show ?thesis
    using read_at_image[OF written_inv[OF assms(1,3)] written_image[OF assms(1,3)] _ assms(2)]
    by simp
qed

theorem write_then_read_at_witness:
  "read_at crc32_ieee 0 (snd (prb_write crc32_ieee 0 None demo_record demo_filled))
     = Ok (Some (demo_record, 29))"
  using write_then_read_at[OF demo_filled_ok(1) demo_record_ok(1), of crc32_ieee 0 None]
    demo_filled_ok(3,4) demo_record_ok
  by (simp add: write_offset_def write_wraps_def)

text \<open>
  C3: the whole path of a new buffer: any list of records whose stored forms fit the
  buffer together can be written one after the other, one \<open>read_all\<close> returns exactly
  these records in the order of the writes, and the next one returns nothing.
\<close>

theorem new_write_read_all:
  assumes "unat bsize + 48 < 2 ^ 63" and "\<forall>r\<in>set rs. u32_ok r" and "log_len rs \<le> unat bsize"
  shows "\<exists>b b1 b2. PersistentRingBuffer_new crc pad open_ok path bsize [] = (Ok b, buf_mmap b) \<and>
     iter_opt (try_write crc pad) rs b = Some b1 \<and>
     read_all crc pad None b1 = Some (Ok (map (stored crc) rs), b2) \<and>
     read_all crc pad None b2 = Some (Ok [], b2)"
proof -
  obtain b where b: "PersistentRingBuffer_new crc pad open_ok path bsize [] = (Ok b, buf_mmap b)"
    "holds_log crc b []" "buf_size b = bsize" "cb_read_pos (buf_control b) = 0"
    using new_file[OF assms(1), of crc pad path] by (auto simp: holds_log_def ControlBlock_new_def)
  then obtain b1 where b1: "iter_opt (try_write crc pad) rs b = Some b1" "holds_log crc b1 rs"
    using plog.append_all_room[OF b(2), of rs pad] assms(2,3) by (auto simp: log_len_def)
  have "cb_read_pos (buf_control b1) = 0"
    using iter_write_read_pos[OF _ b1(1)] b(2,4) assms(2,3) by (auto simp: holds_log_def)
  then obtain b2 where "read_all crc pad None b1 = Some (Ok (map (stored crc) rs), b2)"
    "cb_read_pos (buf_control b2) = cb_write_pos (buf_control b2)"
    using read_all_log[of b1 crc "[]" rs pad] b1(2) assms(2) by (auto simp: holds_log_def)
  then show ?thesis using b(1) b1(1) by (auto simp: read_all_def)
qed

theorem new_write_read_all_witness:
  "\<exists>b b1 b2. PersistentRingBuffer_new crc32_ieee 0 open_ok ''log'' 64 [] = (Ok b, buf_mmap b) \<and>
     iter_opt (try_write crc32_ieee 0) [demo_record, demo_record] b = Some b1 \<and>
     read_all crc32_ieee 0 None b1 = Some (Ok [demo_record, demo_record], b2) \<and>
     read_all crc32_ieee 0 None b2 = Some (Ok [], b2)"
  using new_write_read_all[of 64 "[demo_record, demo_record]" crc32_ieee 0 "''log''"] demo_record_ok
  by simp

text \<open>
  C15: writing more than the buffer holds never fails and never mixes laps: after any
  sequence of records that each fit, the buffer represents the most recent ones, a
  suffix of everything written that ends with the last record.
\<close>

theorem log_keeps_latest:
  assumes "prb_inv b" and "represents crc b rs"
    and "\<forall>r\<in>set xs. u32_ok r \<and> rec_len r \<le> unat (buf_size b)"
  shows "\<exists>b' dropped kept. iter_opt (try_write crc pad) xs b = Some b' \<and> prb_inv b' \<and>
     represents crc b' kept \<and> rs @ xs = dropped @ kept \<and> (xs \<noteq> [] \<longrightarrow> kept \<noteq> [])"
  using plog.append_all_suffix[of crc b rs xs pad] assms unfolding holds_log_def by blast

theorem log_keeps_latest_witness:
  "\<exists>b' dropped kept. iter_opt (try_write crc32_ieee 0) [demo_record, demo_record, demo_record]
       demo_buffer = Some b' \<and> represents crc32_ieee b' kept \<and>
     [demo_record, demo_record, demo_record] = dropped @ kept \<and> kept \<noteq> []"
  using log_keeps_latest[OF demo_buffer_ok(1,2), of "[demo_record, demo_record, demo_record]" 0]
    demo_record_ok demo_buffer_ok(3)
  by fastforce

section \<open>Safety of every reachable buffer\<close>

text \<open>
  In every state a process can bring a new buffer into by writing, reading and
  resetting, with any flush results, the invariant holds: the mapping has the length of
  the control block plus the size, the write position is inside the data section, the
  control block on disk is the one in memory and no lock is poisoned.
\<close>

theorem reachable_invariant:
  assumes "unat bsize + 48 < 2 ^ 63" and "prb_reachable crc bsize b"
  shows "prb_inv b \<and> buf_size b = bsize"
  using prb_reachable_inv[OF assms(1)] assms(2) by blast

theorem reachable_invariant_witness:
  "prb_inv (snd (prb_write crc32_ieee 0 (Some 5) demo_record demo_buffer)) \<and>
   buf_size (snd (prb_write crc32_ieee 0 (Some 5) demo_record demo_buffer)) = 64"
proof (rule reachable_invariant[of 64 crc32_ieee])
  have "prb_reachable crc32_ieee 64 demo_buffer"
    by (rule prb_reachable.reach_new[OF demo_buffer_new])
  then show "prb_reachable crc32_ieee 64 (snd (prb_write crc32_ieee 0 (Some 5) demo_record demo_buffer))"
    by (rule prb_reachable.reach_step) (rule prb_step.step_write[OF demo_record_ok(2)])
qed simp

text \<open>
  C16: on every buffer that calls of write, read_all and reset_read_position lead to from a
  new, empty file, no call panics: not a write of any record, not a read at any position, not
  a reset and not a flush; and \<open>read_all\<close> always returns, its loop ends.
\<close>

theorem reachable_never_panics:
  assumes "unat bsize + 48 < 2 ^ 63" and "prb_reachable crc bsize b" and "vec_ok r"
  shows "\<not> panics (fst (prb_write crc pad flush r b)) \<and> \<not> panics (read_at crc pos b) \<and>
     \<not> panics (fst (reset_read_position crc pad flush b)) \<and> \<not> panics (prb_flush flush b) \<and>
     (\<exists>res b'. read_all crc pad flush b = Some (res, b') \<and> \<not> panics res)"
proof -
  have inv: "prb_inv b" using prb_reachable_inv[OF assms(1,2)] by simp
  have "\<not> panics (prb_flush flush b)"
    using prb_inv_facts(6)[OF inv] by (simp add: prb_flush_def split: option.split)
  moreover
  have "\<not> panics (read_at crc pos b)"
    by (rule read_at_cases[OF inv, of crc pos]) simp_all
  moreover have "\<exists>res b'. read_all crc pad flush b = Some (res, b') \<and> \<not> panics res"
    by (rule read_all_returns[OF inv, of crc pad flush]) simp_all
  ultimately show ?thesis
    using prb_write_preserves(3)[OF inv assms(3)] reset_preserves(3)[OF inv] by blast
qed

theorem reachable_never_panics_witness:
  "\<not> panics (fst (prb_write crc32_ieee 0 None demo_record demo_buffer)) \<and>
   \<not> panics (read_at crc32_ieee 63 demo_buffer) \<and> \<not> panics (prb_flush None demo_buffer) \<and>
   (\<exists>res b'. read_all crc32_ieee 0 None demo_buffer = Some (res, b') \<and> \<not> panics res)"
  using reachable_never_panics[OF _ prb_reachable.reach_new[OF demo_buffer_new] demo_record_ok(2)]
  by simp

section \<open>Error paths\<close>

text \<open>
  The two ways a write to a well-formed buffer can fail. A record larger than the
  buffer is refused and nothing changes. When the flush fails the caller gets the I/O
  error although the record is stored and the position advanced, exactly as in a
  successful write.
\<close>

theorem write_errors:
  assumes "prb_inv b" and "vec_ok r"
  shows "prb_write crc pad flush r b =
     (if unat (buf_size b) < rec_len r then (Err InvalidRecord, b)
      else case flush of
          None \<Rightarrow> (Ok (), snd (prb_write crc pad None r b))
        | Some e \<Rightarrow> (Err (Io e), snd (prb_write crc pad None r b)))"
  using prb_write_too_large[OF assms, of crc pad flush] prb_write_eq[OF assms]
  by (cases "unat (buf_size b) < rec_len r") (simp_all split: option.split)

theorem write_errors_witness:
  "prb_write crc32_ieee 0 (Some 5) demo_record demo_buffer =
     (Err (Io 5), snd (prb_write crc32_ieee 0 None demo_record demo_buffer))"
  using write_errors[OF demo_buffer_ok(1) demo_record_ok(2), of crc32_ieee 0 "Some 5"]
    demo_buffer_ok(3) demo_record_ok(3)
  by simp

text \<open>
  C25: a burst of up to four corrupted bytes in the data of a stored record is always
  detected: the read at its offset reports an invalid record instead of returning
  wrong data.
\<close>

theorem corruption_detected:
  assumes "burst_checksum crc" and "prb_inv b" and "u32_ok r" and "rec_len r \<le> unat (buf_size b)"
    and "i + 4 \<le> length (r_data r)" and "length v = 4" and "v \<noteq> subslice (r_data r) i 4"
  shows "let b' = snd (prb_write crc pad flush r b); p = write_offset r b in
     read_at crc (word_of_nat p) (b'\<lparr>buf_mmap := put (buf_mmap b') (72 + p + i) v\<rparr>)
       = Err InvalidRecord"
proof -
  have b': "snd (prb_write crc pad flush r b) = written crc pad r b"
    using prb_write_eq[OF assms(2) u32_imp_vec[OF assms(3)] assms(4)] by simp
  have room: "write_offset r b + rec_len r \<le> unat (buf_size (written crc pad r b))"
    using assms(4) by (auto simp: write_offset_def write_wraps_def written_def)
  show ?thesis
    unfolding b' Let_def
    by (rule read_at_corrupted[OF assms(1) written_inv[OF assms(2,4)] assms(3)
          written_image[OF assms(2,4)] room assms(5-7)])
qed

theorem corruption_detected_witness:
  "let b' = snd (prb_write crc32_ieee 0 None demo_record demo_buffer) in
   read_at crc32_ieee 0 (b'\<lparr>buf_mmap := put (buf_mmap b') 73 [2, 3, 4, 6]\<rparr>) = Err InvalidRecord"
  using corruption_detected[OF ieee.burst_checksum_axioms demo_buffer_ok(1) demo_record_ok(1),
      of 1 "[2, 3, 4, 6]" 0 None] demo_buffer_ok(3,4) demo_record_ok
  by (simp add: write_offset_def write_wraps_def subslice_def Let_def)

section \<open>Behaviour after a wrap\<close>

text \<open>
  The read position does not follow a wrap. When a write wraps while the read
  position lies beyond the end of the new record, the next \<open>read_all\<close> returns no
  records, although one has just been stored.
\<close>

theorem read_all_misses_wrapped:
  assumes "prb_inv b" and "vec_ok r" and "rec_len r \<le> unat (buf_size b)"
    and "unat (buf_size b) < unat (cb_write_pos (buf_control b)) + rec_len r"
    and "rec_len r < unat (cb_read_pos (buf_control b))"
  shows "\<exists>b'. read_all crc pad None (snd (prb_write crc pad flush r b)) = Some (Ok [], b')"
proof -
  let ?b = "written crc pad r b"
  have wraps: "write_offset r b = 0" using assms(4) by (simp add: write_offset_def write_wraps_def)
  have "cb_write_pos (buf_control ?b) < cb_read_pos (buf_control ?b)"
    using written_control(1,2)[OF assms(1,3), of crc] wraps assms(5)
    by (simp add: written_def word_less_nat_alt)
  then show ?thesis
    using read_all_past_write[OF written_inv[OF assms(1,3)], of crc pad crc pad]
      prb_write_eq[OF assms(1-3), of crc pad flush] by auto
qed

theorem read_all_misses_wrapped_witness:
  "\<exists>b'. read_all crc32_ieee 0 None (snd (prb_write crc32_ieee 0 None demo_record demo_read))
     = Some (Ok [], b')"
  using read_all_misses_wrapped[OF demo_read_ok(1) demo_record_ok(2), of crc32_ieee 0 None]
    demo_read_ok demo_record_ok(3)
  by simp

section \<open>Reopening\<close>

text \<open>
  C20: what reopening the file of a buffer does after a write. The checksum of the control
  block is computed over its own previous value, so the file is accepted only when the
  write left the stored checksum unchanged; then the buffer is restored exactly, and
  otherwise the file is rejected as invalid.
\<close>

theorem reopen_after_write:
  assumes "burst_checksum crc" and "prb_inv b" and "vec_ok r" and "rec_len r \<le> unat (buf_size b)"
  shows "let b' = snd (prb_write crc pad flush r b) in
     PersistentRingBuffer_new crc pad' open_ok path bsize (buf_mmap b') =
       ((if cb_crc32 (buf_control b') = cb_crc32 (buf_control b)
         then Ok (b'\<lparr>buf_path := path\<rparr>) else Err InvalidBuffer), buf_mmap b')"
proof -
  have b': "snd (prb_write crc pad flush r b) = written crc pad r b"
    using prb_write_eq[OF assms(2-4)] by simp
  have "buf_control (written crc pad r b) = control_after crc r b" by (simp add: written_def)
  then show ?thesis
    using reopen_eq[OF written_inv[OF assms(2,4)], of crc pad' path bsize]
      burst_checksum.verify_after_write[OF assms(1)]
    unfolding b' Let_def by simp
qed

theorem reopen_after_write_witness:
  "let b' = snd (prb_write crc32_ieee 0 None demo_record demo_buffer) in
   PersistentRingBuffer_new crc32_ieee 0 open_ok ''log'' 0 (buf_mmap b')
     = (Err InvalidBuffer, buf_mmap b')"
proof -
  let ?b = "snd (prb_write crc32_ieee 0 None demo_record demo_buffer)"
  have "?b = written crc32_ieee 0 demo_record demo_buffer"
    using prb_write_eq[OF demo_buffer_ok(1) demo_record_ok(2), of crc32_ieee 0 None]
      demo_buffer_ok(3) demo_record_ok(3) by simp
  then have "buf_control ?b = control_after crc32_ieee demo_record demo_buffer"
    by (simp add: written_def)
  moreover have "cb_crc32 (control_after crc32_ieee demo_record demo_buffer)
      \<noteq> cb_crc32 (buf_control demo_buffer)"
    by (simp add: demo_control_after) (simp add: demo_buffer_def demo_control)
  ultimately show ?thesis
    using reopen_after_write[OF ieee.burst_checksum_axioms demo_buffer_ok(1) demo_record_ok(2),
        of 0 None 0 "''log''" 0] demo_buffer_ok(3) demo_record_ok(3)
    by (simp add: Let_def)
qed

end
