(* ===== verification/Persistent_Faults.thy ===== *)
theory Persistent_Faults
  imports Persistent_Properties
begin

text \<open>
  A buffer over a file that is shorter than its control block says, as opening an existing
  file can produce: the size stored in the control block is not compared with the length of
  the file.
\<close>

definition truncated :: "nat \<Rightarrow> prb \<Rightarrow> prb" where
  "truncated n b = b\<lparr>buf_mmap := take n (buf_mmap b)\<rparr>"

lemma slice_copy_short: "length m < unat e \<Longrightarrow> slice_copy m a e src = None"
  by (simp add: slice_copy_def)

lemma slice_copy_length: "slice_copy m a e src = Some m' \<Longrightarrow> length m' = length m"
  by (auto simp: slice_copy_def word_le_nat_alt split: if_splits)

text \<open>Opening such a file succeeds whenever its control block is accepted.\<close>

lemma open_truncated:
  assumes "prb_inv b" and "48 \<le> n" and "cb_verify_crc crc (buf_control b)"
  shows "PersistentRingBuffer_new crc pad open_ok path bsize (take n (buf_mmap b))
     = (Ok ((truncated n b)\<lparr>buf_path := path\<rparr>), take n (buf_mmap b))"
proof -
  note facts = prb_inv_facts[OF assms(1)]
  let ?m = "take n (buf_mmap b)"
  have len: "48 \<le> length ?m" using facts(1) assms(2) by simp
  have "subslice ?m 0 48 = subslice (buf_mmap b) 0 48" using assms(2) by (simp add: subslice_def min_def)
  moreover have "slice_get ?m 0 ControlBlock_SIZE = Some (subslice ?m 0 48)"
    using len by (simp add: slice_get_def ControlBlock_SIZE_def)
  ultimately show ?thesis
    using assms(1,3) len by (auto simp: PersistentRingBuffer_new_def open_ok_def prb_inv_def truncated_def Let_def)
qed

lemma truncated_simps [simp]:
  "buf_size (truncated n b) = buf_size b" "buf_control (truncated n b) = buf_control b"
  "buf_mmap (truncated n b) = take n (buf_mmap b)"
  "write_lock_poisoned (truncated n b) = write_lock_poisoned b"
  "mmap_lock_poisoned (truncated n b) = mmap_lock_poisoned b"
  "write_wraps r (truncated n b) = write_wraps r b" "control_wrapped r (truncated n b) = control_wrapped r b"
  by (simp_all add: truncated_def write_wraps_def control_wrapped_def)

lemma write_truncated:
  assumes inv: "prb_inv b" and vec: "vec_ok r" and fits: "rec_len r \<le> unat (buf_size b)"
    and short: "n < 48 + write_offset r b + rec_len r"
  shows "\<exists>b'. prb_write crc pad flush r (truncated n b) = (Panic SliceRange, b') \<and>
     write_lock_poisoned b' \<and> mmap_lock_poisoned b'"
proof -
  let ?b = "truncated n b" and ?h = "encode_disk_header (header_for crc r)"
  have big: "\<not> buf_size ?b < Header_SIZE + word_of_nat (length (r_data r))"
    using total_word[OF vec] fits by (simp add: word_less_nat_alt)
  note facts = prb_inv_facts[OF inv] and hp = unat_header_start[OF inv fits] and room = write_room[OF inv fits]
  have wraps: "ControlBlock_SIZE + buf_size ?b < ControlBlock_SIZE + cb_write_pos (buf_control ?b) +
      (Header_SIZE + word_of_nat (length (r_data r))) \<longleftrightarrow> write_wraps r ?b"
    using write_wraps_word[OF inv vec fits] by simp
  have rl: "rec_len r = 24 + length (r_data r)" by (simp add: rec_len_def)
  have data_end: "unat (header_start r b + Header_SIZE + word_of_nat (length (r_data r))) = 48 + write_offset r b + rec_len r"
    using hp room vec rl by (subst unat_plus_no_wrap) (simp_all add: vec_ok_def unat_of_nat_usize)
  have no_data: "slice_copy m1 (header_start r b + Header_SIZE)
      (header_start r b + Header_SIZE + word_of_nat (length (r_data r))) (r_data r) = None"
    if "slice_copy (buf_mmap ?b) (header_start r b) (header_start r b + Header_SIZE) ?h = Some m1" for m1
    using slice_copy_length[OF that] short data_end by (intro slice_copy_short) simp
  show ?thesis
  proof (cases "slice_copy (buf_mmap ?b) (header_start r b) (header_start r b + Header_SIZE) ?h")
    case None
    then show ?thesis
      using facts(5,6) big unfolding prb_write_def Let_def header_for_def[symmetric] wraps control_wrapped_def[symmetric]
      by simp
  next
    case (Some m1)
    then show ?thesis
      using facts(5,6) big no_data[OF Some]
      unfolding prb_write_def Let_def header_for_def[symmetric] wraps control_wrapped_def[symmetric] by simp
  qed
qed

lemma poisoned_operations:
  assumes "write_lock_poisoned b" and "mmap_lock_poisoned b"
  shows "prb_write crc pad flush r b = (Panic PoisonedLock, b)" "read_at crc pos b = Panic PoisonedLock"
    "prb_flush flush b = Panic PoisonedLock" "fst (reset_read_position crc pad flush b) = Panic PoisonedLock"
  using assms by (simp_all add: prb_write_def read_at_def prb_flush_def reset_read_position_def sync_control_def Let_def)

text \<open>
  The loop of \<open>read_all\<close> takes the lock of the mapping for every record, and so does the
  code behind the loop; only a call that finds nothing unread returns before.
\<close>

lemma poisoned_read_all:
  assumes "mmap_lock_poisoned b"
  shows "\<exists>res b'. read_all crc pad flush b = Some (res, b') \<and>
     (if cb_read_pos (buf_control b) = cb_write_pos (buf_control b) then res = Ok [] \<and> b' = b
      else res = Panic PoisonedLock)"
proof (cases "cb_read_pos (buf_control b) < cb_write_pos (buf_control b)")
  case True
  then show ?thesis
    using assms by (subst read_all_def) (simp add: Let_def read_all_loop.simps read_at_def)
next
  case False
  then show ?thesis
    using assms by (simp add: read_all_def Let_def read_all_loop_done sync_control_def)
qed

text \<open>
  C36: a file that is too short. When the control block of a file is intact but the file ends
  before the place of the next record, opening it succeeds, the first write panics in the
  middle of the copy. From then on the locks of the buffer are poisoned: every write, every
  read at a position, every flush and every reset panics, and so does \<open>read_all\<close> unless
  nothing is unread, in which case it returns no record without taking the lock.
\<close>

theorem short_file_poisons_buffer:
  assumes "prb_inv b" and "cb_verify_crc crc (buf_control b)" and "48 \<le> n"
    and "vec_ok r" and "rec_len r \<le> unat (buf_size b)" and "n < 48 + write_offset r b + rec_len r"
  shows "\<exists>b1 b2. PersistentRingBuffer_new crc pad open_ok path bsize (take n (buf_mmap b)) = (Ok b1, buf_mmap b1) \<and>
     prb_write crc pad flush r b1 = (Panic SliceRange, b2) \<and>
     (\<forall>r' flush' pos. prb_write crc pad flush' r' b2 = (Panic PoisonedLock, b2) \<and>
        read_at crc pos b2 = Panic PoisonedLock \<and> prb_flush flush' b2 = Panic PoisonedLock \<and>
        fst (reset_read_position crc pad flush' b2) = Panic PoisonedLock \<and>
        (\<exists>res b3. read_all crc pad flush' b2 = Some (res, b3) \<and>
           (if cb_read_pos (buf_control b2) = cb_write_pos (buf_control b2) then res = Ok [] \<and> b3 = b2
            else res = Panic PoisonedLock)))"
proof -
  let ?b = "b\<lparr>buf_path := path\<rparr>"
  have b: "prb_inv ?b" "write_offset r ?b = write_offset r b"
    using assms(1) by (simp_all add: prb_inv_def write_offset_def write_wraps_def)
  have opened: "PersistentRingBuffer_new crc pad open_ok path bsize (take n (buf_mmap b))
      = (Ok (truncated n ?b), take n (buf_mmap b))"
    using open_truncated[OF assms(1,3,2)] by (simp add: truncated_def)
  from write_truncated[OF b(1) assms(4), of n crc pad flush] assms(5,6) b(2) obtain b2 where
    "prb_write crc pad flush r (truncated n ?b) = (Panic SliceRange, b2)"
    "write_lock_poisoned b2" "mmap_lock_poisoned b2" by auto
  then show ?thesis using opened poisoned_operations poisoned_read_all
    by (intro exI[of _ "truncated n ?b"] exI[of _ b2]) simp
qed

text \<open>
  The control block of 64 bytes whose stored checksum is the checksum of the block that
  contains it, in a buffer that ends twelve bytes after it.
\<close>

definition sealed_control :: control_block where
  "sealed_control = \<lparr>cb_magic = 0x5348524C, cb_version = 1, cb_buffer_size = 64, cb_write_pos = 0,
     cb_read_pos = 0, cb_wrap_count = 0, cb_crc32 = 0x493C9A14\<rparr>"

definition sealed_buffer :: prb where
  "sealed_buffer = demo_buffer\<lparr>buf_mmap := put (replicate 112 0) 0 (encode_control_block 0 sealed_control),
     buf_control := sealed_control\<rparr>"

lemma sealed_buffer_ok: "prb_inv sealed_buffer" "cb_verify_crc crc32_ieee (buf_control sealed_buffer)"
  "buf_size sealed_buffer = 64" "write_offset demo_record sealed_buffer = 0"
proof -
  have "decode_control_block (subslice (put (replicate 112 0) 0 (encode_control_block 0 sealed_control)) 0 48)
      = sealed_control"
    by (intro cb_codec.load_store) simp
  then show "prb_inv sealed_buffer"
    by (simp add: prb_inv_def sealed_buffer_def demo_buffer_def) (simp add: sealed_control_def ControlBlock_MAGIC_def)
  have "cb_hashed sealed_control = [0x4C, 0x52, 0x48, 0x53, 1, 0, 0, 0, 64, 0, 0, 0, 0, 0, 0, 0, 0, 0, 0, 0,
      0, 0, 0, 0, 0, 0, 0, 0, 0, 0, 0, 0, 0, 0, 0, 0, 0, 0, 0, 0, 20, 154, 60, 73]"
    by (simp add: sealed_control_def cb_hashed_def encode_control_block_def le_bytes_def upt_rec)
  then show "cb_verify_crc crc32_ieee (buf_control sealed_buffer)"
    by (simp add: cb_verify_crc_def sealed_buffer_def crc32_ieee_eval) (simp add: sealed_control_def)
  show "buf_size sealed_buffer = 64" "write_offset demo_record sealed_buffer = 0"
    by (simp_all add: sealed_buffer_def demo_buffer_def sealed_control_def write_offset_def)
qed

theorem short_file_poisons_buffer_witness:
  "\<exists>b1 b2. PersistentRingBuffer_new crc32_ieee 0 open_ok ''log'' 0 (take 60 (buf_mmap sealed_buffer))
       = (Ok b1, buf_mmap b1) \<and>
     prb_write crc32_ieee 0 None demo_record b1 = (Panic SliceRange, b2) \<and>
     read_at crc32_ieee 0 b2 = Panic PoisonedLock"
  using short_file_poisons_buffer[OF sealed_buffer_ok(1,2), of 60 demo_record 0 "''log''" 0 None]
    sealed_buffer_ok(3,4) demo_record_ok(2,3) by auto

end
