(* ===== verification/Cursor.thy ===== *)
theory Cursor
  imports Persistent
begin

text \<open>
  The cursor of \<open>src/disk/cursor.rs\<close>. A cursor is a position and an end flag; the
  buffer it refers to is shared and passed to every operation. \<open>next\<close> calls itself
  when it finds no record, so it takes the number of stack frames that are left and
  overflows the stack when they run out.
\<close>

record position =
  pos_offset :: u64
  pos_wrap_count :: u64

record cursor =
  cur_position :: position
  cur_at_end :: bool

definition Position_new :: "u64 \<Rightarrow> u64 \<Rightarrow> position" where
  "Position_new off wc = \<lparr>pos_offset = off, pos_wrap_count = wc\<rparr>"

definition Position_begin :: position where
  "Position_begin = \<lparr>pos_offset = 0, pos_wrap_count = 0\<rparr>"

definition Cursor_new :: "prb \<Rightarrow> position option \<Rightarrow> cursor" where
  "Cursor_new b start =
     (let control = get_control_block b;
          p = (case start of
                 None \<Rightarrow> Position_new (cb_read_pos control) (cb_wrap_count control)
               | Some p \<Rightarrow> p)
      in \<lparr>cur_position = p,
          cur_at_end = (pos_offset p = cb_write_pos control \<and>
                        pos_wrap_count p = cb_wrap_count control)\<rparr>)"

definition cursor_position :: "cursor \<Rightarrow> position" where
  "cursor_position c = cur_position c"

definition cursor_at_end :: "cursor \<Rightarrow> bool" where
  "cursor_at_end c = cur_at_end c"

fun cursor_next ::
  "hasher \<Rightarrow> nat \<Rightarrow> prb \<Rightarrow> cursor \<Rightarrow> log_record option presult \<times> cursor" where
  "cursor_next crc 0 b c = (Panic StackOverflow, c)"
| "cursor_next crc (Suc frames) b c =
     (if cur_at_end c then (Ok None, c)
      else
      case read_at crc (pos_offset (cur_position c)) b of
        Err e \<Rightarrow> (Err e, c)
      | Panic p \<Rightarrow> (Panic p, c)
      | Undefined \<Rightarrow> (Undefined, c)
      | Ok (Some (record, sz)) \<Rightarrow>
          (let p = (cur_position c)\<lparr>pos_offset := pos_offset (cur_position c) + sz\<rparr>;
               control = get_control_block b
           in (Ok (Some record),
               \<lparr>cur_position = p,
                cur_at_end = (pos_offset p = cb_write_pos control \<and>
                              pos_wrap_count p = cb_wrap_count control)\<rparr>))
      | Ok None \<Rightarrow>
          (let p = (cur_position c)\<lparr>pos_offset := pos_offset (cur_position c) + Header_SIZE\<rparr>;
               control = get_control_block b;
               fin = (cb_write_pos control \<le> pos_offset p \<and>
                      cb_wrap_count control \<le> pos_wrap_count p);
               c' = \<lparr>cur_position = p, cur_at_end = fin\<rparr>
           in if fin then (Ok None, c') else cursor_next crc frames b c'))"

fun read_batch_loop ::
  "hasher \<Rightarrow> nat \<Rightarrow> prb \<Rightarrow> nat \<Rightarrow> cursor \<Rightarrow> log_record list \<Rightarrow>
   log_record list presult \<times> cursor" where
  "read_batch_loop crc frames b 0 c records = (Ok records, c)"
| "read_batch_loop crc frames b (Suc k) c records =
     (case cursor_next crc frames b c of
        (Ok (Some record), c') \<Rightarrow> read_batch_loop crc frames b k c' (records @ [record])
      | (Ok None, c') \<Rightarrow> (Ok records, c')
      | (Err e, c') \<Rightarrow> (Err e, c')
      | (Panic p, c') \<Rightarrow> (Panic p, c')
      | (Undefined, c') \<Rightarrow> (Undefined, c'))"

text \<open>
  \<open>Vec::with_capacity(max_count)\<close> panics when the vector of 48-byte records would
  exceed \<open>isize::MAX\<close> bytes.
\<close>

definition read_batch ::
  "hasher \<Rightarrow> nat \<Rightarrow> prb \<Rightarrow> usize \<Rightarrow> cursor \<Rightarrow> log_record list presult \<times> cursor" where
  "read_batch crc frames b max_count c =
     (if 2 ^ 63 \<le> unat max_count * 48 then (Panic CapacityOverflow, c)
      else read_batch_loop crc frames b (unat max_count) c [])"

definition seek_to :: "prb \<Rightarrow> position \<Rightarrow> cursor \<Rightarrow> unit presult \<times> cursor" where
  "seek_to b p c =
     (let control = get_control_block b in
      if cb_wrap_count control < pos_wrap_count p \<or>
         (pos_wrap_count p = cb_wrap_count control \<and> cb_write_pos control < pos_offset p)
      then (Ok (), c\<lparr>cur_position := Position_new (cb_write_pos control) (cb_wrap_count control),
                      cur_at_end := True\<rparr>)
      else if pos_wrap_count p < cb_wrap_count control
      then (Ok (), c\<lparr>cur_position := Position_new 0 (cb_wrap_count control),
                      cur_at_end := False\<rparr>)
      else (Ok (), c\<lparr>cur_position := p,
                      cur_at_end := (pos_offset p = cb_write_pos control)\<rparr>))"

definition seek_to_end :: "prb \<Rightarrow> cursor \<Rightarrow> unit presult \<times> cursor" where
  "seek_to_end b c =
     (let control = get_control_block b in
      (Ok (), c\<lparr>cur_position := Position_new (cb_write_pos control) (cb_wrap_count control),
                 cur_at_end := True\<rparr>))"

text \<open>
  The copy of the control block whose read position the source sets is local to the
  call; the stored block is the one \<open>reset_read_position\<close> writes.
\<close>

definition cursor_commit ::
  "hasher \<Rightarrow> u32 \<Rightarrow> io_error option \<Rightarrow> cursor \<Rightarrow> prb \<Rightarrow> unit presult \<times> prb" where
  "cursor_commit crc pad flush c b =
     (let control = get_control_block b; p = cur_position c in
      if pos_wrap_count p = cb_wrap_count control \<and> cb_read_pos control < pos_offset p \<and>
         pos_offset p \<le> cb_write_pos control
      then reset_read_position crc pad flush b
      else (Ok (), b))"

end
