(* ===== verification/Cursor_Log.thy ===== *)
theory Cursor_Log
  imports Cursor Persistent_Safety
begin

text \<open>
  Correctness of the cursor: over a log it yields the records in order; how many stack
  frames \<open>next\<close> needs, and when no number of frames is enough; where seeking leaves the
  cursor; what a commit stores.
\<close>

section \<open>Reading a log through a cursor\<close>

text \<open>The cursor stands between the records \<open>xs\<close> it has passed and the records \<open>ys\<close> to come.\<close>

definition cursor_between ::
  "hasher \<Rightarrow> prb \<Rightarrow> log_record list \<Rightarrow> log_record list \<Rightarrow> cursor \<Rightarrow> bool" where
  "cursor_between crc b xs ys c \<longleftrightarrow>
     holds_log crc b (xs @ ys) \<and> (\<forall>r\<in>set ys. u32_ok r) \<and>
     c = \<lparr>cur_position = \<lparr>pos_offset = word_of_nat (log_len xs),
                          pos_wrap_count = cb_wrap_count (buf_control b)\<rparr>,
          cur_at_end = (ys = [])\<rparr>"

lemma log_end_word:
  "holds_log crc b rs \<Longrightarrow> cb_write_pos (buf_control b) = word_of_nat (log_len rs)"
  by (metis holds_log_def represents_def word_unat_eq_iff unat_of_nat_usize unat_usize_lt)

lemma log_offset_eq_end:
  assumes "holds_log crc b (xs @ ys)"
  shows "word_of_nat (log_len xs) = cb_write_pos (buf_control b) \<longleftrightarrow> ys = []"
proof -
  have len: "log_len (xs @ ys) < 2 ^ 64" and fin: "cb_write_pos (buf_control b) = word_of_nat (log_len (xs @ ys))"
    using assms log_end_word[OF assms] unat_usize_lt[of "cb_write_pos (buf_control b)"]
    by (auto simp: holds_log_def represents_def)
  then have "unat (word_of_nat (log_len xs) :: u64) = log_len xs"
    by (intro unat_of_nat_usize) simp
  moreover have "unat (word_of_nat (log_len (xs @ ys)) :: u64) = log_len (xs @ ys)"
    using len by (rule unat_of_nat_usize)
  ultimately have "word_of_nat (log_len xs) = cb_write_pos (buf_control b) \<longleftrightarrow> log_len ys = 0"
    unfolding fin word_unat_eq_iff by simp
  then show ?thesis using rec_len_ge[of "hd ys"] by (cases ys) simp_all
qed

lemma cursor_next_record:
  assumes "cursor_between crc b xs (y # ys) c"
  shows "\<exists>c'. cursor_next crc (Suc frames) b c = (Ok (Some (stored crc y)), c') \<and>
           cursor_between crc b (xs @ [y]) ys c'"
proof -
  have log: "holds_log crc b (xs @ y # ys)" and ok: "\<forall>r\<in>set (y # ys). u32_ok r"
    using assms by (simp_all add: cursor_between_def)
  then have "read_at crc (word_of_nat (log_len xs)) b
      = Ok (Some (stored crc y, word_of_nat (rec_len y)))"
    by (intro read_at_record) (auto simp: holds_log_def)
  then show ?thesis
    using assms log_offset_eq_end[of crc b "xs @ [y]" ys] log ok
    by (auto simp: cursor_between_def get_control_block_def Let_def)
qed

lemma cursor_next_end:
  "cursor_between crc b xs [] c \<Longrightarrow> cursor_next crc (Suc frames) b c = (Ok None, c)"
  by (simp add: cursor_between_def)

lemma read_batch_loop_log:
  "cursor_between crc b xs ys c \<Longrightarrow>
    \<exists>c'. read_batch_loop crc (Suc frames) b n c acc = (Ok (acc @ map (stored crc) (take n ys)), c') \<and>
         cursor_between crc b (xs @ take n ys) (drop n ys) c'"
proof (induction n arbitrary: xs ys c acc)
  case 0
  then show ?case by simp
next
  case (Suc n)
  show ?case
  proof (cases ys)
    case Nil
    then show ?thesis using Suc.prems cursor_next_end[of crc b xs c frames] by simp
  next
    case (Cons y ys')
    then obtain c1 where c1: "cursor_next crc (Suc frames) b c = (Ok (Some (stored crc y)), c1)"
      "cursor_between crc b (xs @ [y]) ys' c1"
      using cursor_next_record[of crc b xs y ys' c frames] Suc.prems by auto
    show ?thesis
      using Suc.IH[OF c1(2), of "acc @ [stored crc y]"] c1(1) Cons
      by (simp del: cursor_next.simps)
  qed
qed

lemma read_batch_between:
  assumes "cursor_between crc b xs ys c" and "0 < frames" and "unat n * 48 < 2 ^ 63"
  shows "\<exists>c'. read_batch crc frames b n c = (Ok (map (stored crc) (take (unat n) ys)), c') \<and>
     cursor_between crc b (xs @ take (unat n) ys) (drop (unat n) ys) c'"
proof -
  obtain f where "frames = Suc f" using assms(2) by (cases frames) auto
  then show ?thesis
    using read_batch_loop_log[OF assms(1), of f "unat n" "[]"] assms(3) by (simp add: read_batch_def)
qed

lemma read_batch_at_end:
  "cur_at_end c \<Longrightarrow> 0 < frames \<Longrightarrow> unat n * 48 < 2 ^ 63 \<Longrightarrow> read_batch crc frames b n c = (Ok [], c)"
  by (cases frames; cases "unat n") (simp_all add: read_batch_def)

lemma Cursor_new_between:
  assumes "holds_log crc b (xs @ ys)" and "\<forall>r\<in>set ys. u32_ok r"
    and "unat (cb_read_pos (buf_control b)) = log_len xs"
  shows "cursor_between crc b xs ys (Cursor_new b None)"
proof -
  have "cb_read_pos (buf_control b) = word_of_nat (log_len xs)"
    using arg_cong[OF assms(3), of "word_of_nat :: nat \<Rightarrow> u64"] by simp
  then show ?thesis
    using assms log_offset_eq_end[OF assms(1)]
    by (simp add: cursor_between_def Cursor_new_def get_control_block_def Let_def Position_new_def)
qed

section \<open>Stack frames\<close>

text \<open>A cursor on the current lap stops after at most one frame per header-sized skip.\<close>

lemma cursor_next_enough_frames:
  assumes inv: "prb_inv b"
  shows "cb_wrap_count (buf_control b) \<le> pos_wrap_count (cur_position c) \<Longrightarrow>
    unat (pos_offset (cur_position c)) + 24 < 2 ^ 64 \<Longrightarrow>
    unat (buf_size b) < unat (pos_offset (cur_position c)) + 24 * frames \<Longrightarrow>
    \<not> panics (fst (cursor_next crc (Suc frames) b c))"
proof (induction frames arbitrary: c)
  case 0
  let ?p = "pos_offset (cur_position c)"
  have "read_at crc ?p b = Ok None" using 0 by (intro read_at_outside[OF inv]) simp
  moreover have "unat (?p + Header_SIZE) = unat ?p + 24"
    using 0 by (simp add: unat_plus_no_wrap)
  then have "cb_write_pos (buf_control b) \<le> ?p + Header_SIZE"
    using 0 prb_inv_facts(3)[OF inv] by (simp add: word_le_nat_alt)
  ultimately show ?case using 0(1) by (simp add: get_control_block_def Let_def)
next
  case (Suc frames)
  let ?p = "pos_offset (cur_position c)"
  let ?q = "?p + Header_SIZE"
  let ?c = "\<lparr>cur_position = (cur_position c)\<lparr>pos_offset := ?q\<rparr>, cur_at_end = False\<rparr>"
  note unfold = cursor_next.simps(2)[of crc "Suc frames" b c]
  have q: "unat ?q = unat ?p + 24" using Suc.prems by (simp add: unat_plus_no_wrap)
  show ?case
  proof (cases rule: read_at_cases[OF inv, of crc ?p])
    case 1
    show ?thesis
    proof (cases "cb_write_pos (buf_control b) \<le> ?q")
      case True
      then show ?thesis using 1 Suc.prems(1) by (simp add: get_control_block_def Let_def)
    next
      case False
      then have "unat ?q < 2 ^ 63" using prb_inv_facts(2,3)[OF inv] by (simp add: word_le_nat_alt)
      then have "\<not> panics (fst (cursor_next crc (Suc frames) b ?c))"
        using Suc.prems q by (intro Suc.IH) simp_all
      then show ?thesis
        using 1 False
        by (simp add: unfold get_control_block_def Let_def del: cursor_next.simps)
    qed
  qed (simp_all add: unfold Let_def del: cursor_next.simps)
qed

text \<open>
  A cursor of an earlier lap that stands past the data section finds neither a record
  nor the end: every call nests another one.
\<close>

lemma cursor_next_stale:
  assumes inv: "prb_inv b"
  shows "pos_wrap_count (cur_position c) < cb_wrap_count (buf_control b) \<Longrightarrow>
    \<not> cur_at_end c \<Longrightarrow> unat (buf_size b) < unat (pos_offset (cur_position c)) + 24 \<Longrightarrow>
    unat (pos_offset (cur_position c)) + 24 * frames < 2 ^ 64 \<Longrightarrow>
    fst (cursor_next crc frames b c) = Panic StackOverflow"
proof (induction frames arbitrary: c)
  case 0
  then show ?case by simp
next
  case (Suc frames)
  let ?p = "pos_offset (cur_position c)"
  have none: "read_at crc ?p b = Ok None" using Suc.prems by (intro read_at_outside[OF inv])
  have "unat (?p + Header_SIZE) = unat ?p + 24" using Suc.prems by (simp add: unat_plus_no_wrap)
  then show ?case
    using Suc.prems none
    by (simp add: get_control_block_def Let_def Suc.IH linorder_not_le[symmetric])
qed

section \<open>Seeking\<close>

lemma seek_to_current:
  assumes "seek_to b p c = (res, c')"
  shows "res = Ok ()" and "pos_wrap_count (cur_position c') = cb_wrap_count (buf_control b)"
    and "pos_offset (cur_position c') \<le> cb_write_pos (buf_control b)"
    and "cur_at_end c' \<Longrightarrow> pos_offset (cur_position c') = cb_write_pos (buf_control b)"
  using assms
  by (auto simp: seek_to_def get_control_block_def Let_def Position_new_def not_less split: if_splits)

text \<open>Seeking to the position of a cursor that stands in the log gives that cursor back.\<close>

lemma seek_to_between:
  assumes "cursor_between crc b xs ys c"
  shows "seek_to b (cur_position c) c' = (Ok (), c)"
proof -
  have log: "holds_log crc b (xs @ ys)" using assms by (simp add: cursor_between_def)
  have fin: "cb_write_pos (buf_control b) = word_of_nat (log_len (xs @ ys))" by (rule log_end_word[OF log])
  have "log_len (xs @ ys) < 2 ^ 64"
    using log unat_usize_lt[of "cb_write_pos (buf_control b)"] by (simp add: holds_log_def represents_def)
  then have "unat (word_of_nat (log_len xs) :: u64) = log_len xs"
    "unat (word_of_nat (log_len (xs @ ys)) :: u64) = log_len (xs @ ys)"
    by (simp_all add: unat_of_nat_usize del: of_nat_add)
  then have "\<not> cb_write_pos (buf_control b) < word_of_nat (log_len xs)"
    unfolding fin word_less_nat_alt by simp
  then show ?thesis
    using assms log_offset_eq_end[OF log]
    by (cases c') (auto simp: seek_to_def get_control_block_def Let_def cursor_between_def)
qed

section \<open>Committing\<close>

lemma commit_advanced:
  assumes inv: "prb_inv b" and "pos_wrap_count (cur_position c) = cb_wrap_count (buf_control b)"
    and "cb_read_pos (buf_control b) < pos_offset (cur_position c)"
    and "pos_offset (cur_position c) \<le> cb_write_pos (buf_control b)"
  shows "cursor_commit crc pad flush c b = (case flush of None \<Rightarrow> Ok () | Some e \<Rightarrow> Err (Io e),
     synced crc pad ((buf_control b)\<lparr>cb_read_pos := cb_write_pos (buf_control b)\<rparr>) b)"
  using assms(2-4) by (simp add: cursor_commit_def get_control_block_def Let_def reset_read_position_def
      sync_control_eq[OF inv] split: option.split)

text \<open>Committing a cursor that stands in a log, whatever the result of syncing the mapping.\<close>

lemma commit_between:
  assumes "cursor_between crc b xs ys c" and "unat (cb_read_pos (buf_control b)) \<le> log_len xs"
  shows "\<exists>res b'. cursor_commit crc pad flush c b = (res, b') \<and> \<not> panics res \<and>
     (flush = None \<longrightarrow> res = Ok ()) \<and> holds_log crc b' (xs @ ys) \<and>
     (if unat (cb_read_pos (buf_control b)) < log_len xs
      then cb_read_pos (buf_control b') = cb_write_pos (buf_control b') else b' = b)"
proof -
  have log: "holds_log crc b (xs @ ys)" using assms(1) by (simp add: cursor_between_def)
  then have inv: "prb_inv b" and rep: "represents crc b (xs @ ys)" by (simp_all add: holds_log_def)
  have w: "unat (cb_write_pos (buf_control b)) = log_len (xs @ ys)" using rep by (simp add: represents_def)
  have "log_len xs < 2 ^ 64" using w unat_usize_lt[of "cb_write_pos (buf_control b)"] by simp
  then have pos: "unat (pos_offset (cur_position c)) = log_len xs"
    "pos_wrap_count (cur_position c) = cb_wrap_count (buf_control b)"
    using assms(1) by (simp_all add: cursor_between_def unat_of_nat_usize)
  let ?b = "synced crc pad ((buf_control b)\<lparr>cb_read_pos := cb_write_pos (buf_control b)\<rparr>) b"
  show ?thesis
  proof (cases "unat (cb_read_pos (buf_control b)) < log_len xs")
    case True
    have "prb_inv ?b" using prb_inv_facts(3)[OF inv] by (intro synced_inv[OF inv]) simp
    then have "holds_log crc ?b (xs @ ys)" using synced_represents[OF inv rep] by (simp add: holds_log_def)
    moreover have "cursor_commit crc pad flush c b = (case flush of None \<Rightarrow> Ok () | Some e \<Rightarrow> Err (Io e), ?b)"
      using pos w True by (intro commit_advanced[OF inv]) (simp_all add: word_less_nat_alt word_le_nat_alt)
    ultimately show ?thesis using True by (cases flush) simp_all
  next
    case False
    then show ?thesis using pos log by (simp add: cursor_commit_def get_control_block_def Let_def word_less_nat_alt)
  qed
qed

end
