(* ===== verification/Cursor_Properties.thy ===== *)
theory Cursor_Properties
  imports Cursor_Log Persistent_Properties
begin

text \<open>The properties of the cursor, with instances on the concrete buffers.\<close>

section \<open>Concrete cursors\<close>

text \<open>The buffer of two records with nothing read, and the same after a third write wrapped.\<close>

definition demo_wrapped :: prb where
  "demo_wrapped = written crc32_ieee 0 demo_record demo_filled"

lemma demo_filled_counts:
  "cb_read_pos (buf_control demo_filled) = 0" "cb_wrap_count (buf_control demo_filled) = 0"
proof -
  let ?b = "written crc32_ieee 0 demo_record demo_buffer"
  have one: "cb_write_pos (buf_control ?b) = 29"
    using demo_one_ok(2) demo_record_ok(3) by (simp add: represents_def word_unat_eq_iff)
  have "write_wraps demo_record demo_buffer = False" "write_wraps demo_record ?b = False"
    using demo_buffer_ok(3,4) demo_record_ok(3) demo_one_ok(3) one by (simp_all add: write_wraps_def)
  then show "cb_read_pos (buf_control demo_filled) = 0" "cb_wrap_count (buf_control demo_filled) = 0"
    by (simp_all add: demo_filled_def written_def control_after_def control_wrapped_def)
       (simp_all add: demo_buffer_def ControlBlock_new_def)
qed

lemma demo_wrapped_ok: "prb_inv demo_wrapped" "buf_size demo_wrapped = 64"
  "cb_wrap_count (buf_control demo_wrapped) = 1"
  "unat (cb_write_pos (buf_control demo_wrapped)) = 29"
  using written_inv[of demo_filled demo_record crc32_ieee 0] demo_filled_ok demo_record_ok
    written_control(1,3)[of demo_filled demo_record crc32_ieee] demo_filled_counts
  by (simp_all add: demo_wrapped_def) (simp_all add: written_def write_wraps_def write_offset_def)

section \<open>Reading in batches\<close>

text \<open>
  C4: a cursor opened without a position starts at the buffer's read position, and two
  consecutive batches of any sizes return the unread records in order with none lost or
  repeated in between; the cursor is at its end exactly when it has returned them all.
\<close>

theorem cursor_batches:
  assumes "prb_inv b" and "represents crc b (xs @ ys)" and "\<forall>r\<in>set ys. u32_ok r"
    and "unat (cb_read_pos (buf_control b)) = log_len xs"
    and "unat n * 48 < 2 ^ 63" and "unat k * 48 < 2 ^ 63" and "0 < frames"
  shows "\<exists>c c'. read_batch crc frames b n (Cursor_new b None)
           = (Ok (map (stored crc) (take (unat n) ys)), c) \<and>
     read_batch crc frames b k c
       = (Ok (map (stored crc) (take (unat k) (drop (unat n) ys))), c') \<and>
     (cursor_at_end c' \<longleftrightarrow> length ys \<le> unat n + unat k)"
proof -
  have "cursor_between crc b xs ys (Cursor_new b None)"
    using assms(1-4) by (intro Cursor_new_between) (simp_all add: holds_log_def)
  from read_batch_between[OF this assms(7,5)] obtain c where
    c: "read_batch crc frames b n (Cursor_new b None) = (Ok (map (stored crc) (take (unat n) ys)), c)"
    and at: "cursor_between crc b (xs @ take (unat n) ys) (drop (unat n) ys) c" by blast
  from read_batch_between[OF at assms(7,6)] obtain c' where
    c': "read_batch crc frames b k c
      = (Ok (map (stored crc) (take (unat k) (drop (unat n) ys))), c')"
    and at': "cursor_between crc b ((xs @ take (unat n) ys) @ take (unat k) (drop (unat n) ys))
      (drop (unat k) (drop (unat n) ys)) c'" by blast
  have "cursor_at_end c' \<longleftrightarrow> length ys \<le> unat n + unat k"
    using at' by (simp add: cursor_between_def cursor_at_end_def add.commute)
  with c c' show ?thesis by blast
qed

theorem cursor_batches_witness:
  "\<exists>c c'. read_batch crc32_ieee 1 demo_filled 1 (Cursor_new demo_filled None)
       = (Ok [demo_record], c) \<and>
     read_batch crc32_ieee 1 demo_filled 5 c = (Ok [demo_record], c') \<and> cursor_at_end c'"
  using cursor_batches[of demo_filled crc32_ieee "[]" "[demo_record, demo_record]" 1 5 1]
    demo_filled_ok demo_record_ok demo_filled_counts
  by simp

section \<open>Termination and stack depth\<close>

text \<open>
  After a seek, reading never overflows the stack: one frame for every header-sized
  step through the data section and one more is enough, whatever the bytes are.
\<close>

theorem next_after_seek_returns:
  assumes "prb_inv b" and "seek_to b p c = (res, c')" and "unat (buf_size b) < 24 * frames"
  shows "\<not> panics (fst (cursor_next crc (Suc frames) b c'))"
proof (rule cursor_next_enough_frames[OF assms(1)])
  have "unat (pos_offset (cur_position c')) \<le> unat (buf_size b)"
    using seek_to_current(3)[OF assms(2)] prb_inv_facts(3)[OF assms(1)] by (simp add: word_le_nat_alt)
  then show "unat (pos_offset (cur_position c')) + 24 < 2 ^ 64"
    using prb_inv_facts(2)[OF assms(1)] by simp
  show "cb_wrap_count (buf_control b) \<le> pos_wrap_count (cur_position c')"
    using seek_to_current(2)[OF assms(2)] by simp
  show "unat (buf_size b) < unat (pos_offset (cur_position c')) + 24 * frames"
    using assms(3) by simp
qed

theorem next_after_seek_returns_witness:
  "\<not> panics (fst (cursor_next crc32_ieee (Suc 3) demo_wrapped
      (snd (seek_to demo_wrapped (Position_new 58 0) (Cursor_new demo_wrapped None)))))"
  using next_after_seek_returns[of demo_wrapped "Position_new 58 0" "Cursor_new demo_wrapped None"
      "fst (seek_to demo_wrapped (Position_new 58 0) (Cursor_new demo_wrapped None))"
      "snd (seek_to demo_wrapped (Position_new 58 0) (Cursor_new demo_wrapped None))" 3]
    demo_wrapped_ok
  by (simp del: cursor_next.simps)

text \<open>
  C38: a cursor that was reading when the buffer wrapped never comes to an end: once it
  has passed the last header position of the data section, \<open>next\<close> calls itself until the
  stack is exhausted, however deep the stack.
\<close>

theorem stale_cursor_overflows:
  assumes "prb_inv b" and "\<not> cur_at_end c"
    and "pos_wrap_count (cur_position c) < cb_wrap_count (buf_control b)"
    and "unat (buf_size b) < unat (pos_offset (cur_position c)) + 24"
    and "unat (pos_offset (cur_position c)) + 24 * frames < 2 ^ 64"
  shows "fst (cursor_next crc frames b c) = Panic StackOverflow"
  by (rule cursor_next_stale[OF assms(1,3,2,4,5)])

theorem stale_cursor_overflows_witness:
  "fst (cursor_next crc32_ieee 1000000 demo_wrapped
      \<lparr>cur_position = Position_new 58 0, cur_at_end = False\<rparr>) = Panic StackOverflow"
  using stale_cursor_overflows[of demo_wrapped "\<lparr>cur_position = Position_new 58 0, cur_at_end = False\<rparr>"
      1000000 crc32_ieee] demo_wrapped_ok
  by (simp add: Position_new_def)

section \<open>Seeking and committing\<close>

text \<open>
  Seeking always lands on the current lap at or before the write position: a
  position of the future is clamped to the end, one of an earlier lap to the start, and
  the end flag is set only at the write position.
\<close>

theorem seek_to_clamps:
  assumes "seek_to b p c = (res, c')"
  shows "res = Ok () \<and> pos_wrap_count (cur_position c') = cb_wrap_count (buf_control b) \<and>
     pos_offset (cur_position c') \<le> cb_write_pos (buf_control b) \<and>
     (cur_at_end c' \<longrightarrow> pos_offset (cur_position c') = cb_write_pos (buf_control b)) \<and>
     (pos_wrap_count p = cb_wrap_count (buf_control b) \<longrightarrow>
        pos_offset (cur_position c') = min (pos_offset p) (cb_write_pos (buf_control b)))"
  using seek_to_current[OF assms] assms
  by (auto simp: seek_to_def get_control_block_def Let_def Position_new_def min_def split: if_splits)

theorem seek_to_clamps_witness:
  "pos_offset (cur_position (snd (seek_to demo_filled (Position_new 99 0)
     (Cursor_new demo_filled None)))) = cb_write_pos (buf_control demo_filled)"
  using seek_to_clamps[of demo_filled "Position_new 99 0" "Cursor_new demo_filled None"
      "fst (seek_to demo_filled (Position_new 99 0) (Cursor_new demo_filled None))"
      "snd (seek_to demo_filled (Position_new 99 0) (Cursor_new demo_filled None))"]
    demo_filled_ok(4) demo_filled_counts
  by (simp add: Position_new_def min_def word_le_nat_alt)

text \<open>
  C23: committing a cursor that has advanced on the current lap moves the read position to
  the write position, not to the cursor: a cursor opened afterwards is at its end, and the
  records between the committed position and the write position are skipped.
\<close>

theorem commit_skips_unread:
  assumes "prb_inv b" and "pos_wrap_count (cur_position c) = cb_wrap_count (buf_control b)"
    and "cb_read_pos (buf_control b) < pos_offset (cur_position c)"
    and "pos_offset (cur_position c) \<le> cb_write_pos (buf_control b)"
  shows "\<exists>b'. cursor_commit crc pad None c b = (Ok (), b') \<and> prb_inv b' \<and>
     cb_read_pos (buf_control b') = cb_write_pos (buf_control b) \<and>
     cursor_at_end (Cursor_new b' None)"
  using commit_advanced[OF assms, of crc pad None] prb_inv_facts(3)[OF assms(1)]
  by (simp add: synced_inv[OF assms(1)] Cursor_new_def cursor_at_end_def Position_new_def get_control_block_def)

theorem commit_skips_unread_witness:
  "\<exists>b'. cursor_commit crc32_ieee 0 None
       \<lparr>cur_position = Position_new 29 0, cur_at_end = False\<rparr> demo_filled = (Ok (), b') \<and>
     unat (cb_read_pos (buf_control b')) = 58 \<and> cursor_at_end (Cursor_new b' None)"
  using commit_skips_unread[of demo_filled
      "\<lparr>cur_position = Position_new 29 0, cur_at_end = False\<rparr>" crc32_ieee 0]
    demo_filled_ok demo_filled_counts
  by (auto simp: Position_new_def word_le_nat_alt word_less_nat_alt)

end
