(* ===== verification/Float32.thy ===== *)
theory Float32
  imports Prelude Complex_Main
begin

text \<open>
  The part of Rust's \<open>f32\<close> the program uses: IEEE 754 binary32 values as rational numbers
  with infinities and NaN, results rounded to nearest, ties to even, with 24 significant
  bits and gradual underflow. The sign of zero is not represented: no operation of the
  program depends on it.
\<close>

datatype f32 = Fin rat | PosInf | NegInf | NaN

section \<open>Rounding\<close>

abbreviation pow2 :: "int \<Rightarrow> rat" where
  "pow2 e \<equiv> 2 powi e"

definition round_even :: "rat \<Rightarrow> int" where
  "round_even q =
     (let f = \<lfloor>q\<rfloor>; d = q - of_int f in
      if d < 1 / 2 then f else if 1 / 2 < d then f + 1 else if even f then f else f + 1)"

text \<open>
  The exponent of the last significant bit of a magnitude: the least one, from the
  subnormal range up, for which the magnitude has at most 24 bits before it.
\<close>

definition ulp_exponents :: "int list" where
  "ulp_exponents = [- 149..104]"

definition ulp_exponent :: "rat \<Rightarrow> int option" where
  "ulp_exponent x = List.find (\<lambda>e. x < pow2 (e + 24)) ulp_exponents"

definition round_magnitude :: "rat \<Rightarrow> rat option" where
  "round_magnitude x =
     (case ulp_exponent x of
        None \<Rightarrow> None
      | Some e \<Rightarrow>
          (let y = of_int (round_even (x / pow2 e)) * pow2 e in if y < pow2 128 then Some y else None))"

definition round_f32 :: "rat \<Rightarrow> f32" where
  "round_f32 x =
     (case round_magnitude \<bar>x\<bar> of
        None \<Rightarrow> if x < 0 then NegInf else PosInf
      | Some y \<Rightarrow> Fin (if x < 0 then - y else y))"

section \<open>Operations\<close>

definition f32_of_usize :: "usize \<Rightarrow> f32" where
  "f32_of_usize n = round_f32 (of_nat (unat n))"

fun f32_sgn :: "f32 \<Rightarrow> rat" where
  "f32_sgn (Fin x) = sgn x"
| "f32_sgn PosInf = 1"
| "f32_sgn NegInf = - 1"
| "f32_sgn NaN = 0"

definition f32_inf :: "rat \<Rightarrow> f32" where
  "f32_inf s = (if 0 < s then PosInf else if s < 0 then NegInf else NaN)"

fun f32_mul :: "f32 \<Rightarrow> f32 \<Rightarrow> f32" where
  "f32_mul (Fin x) (Fin y) = round_f32 (x * y)"
| "f32_mul NaN y = NaN"
| "f32_mul x NaN = NaN"
| "f32_mul x y = f32_inf (f32_sgn x * f32_sgn y)"

text \<open>Division; a zero divisor is taken as positive.\<close>

fun f32_div :: "f32 \<Rightarrow> f32 \<Rightarrow> f32" where
  "f32_div (Fin x) (Fin y) = (if y = 0 then f32_inf (sgn x) else round_f32 (x / y))"
| "f32_div NaN y = NaN"
| "f32_div x NaN = NaN"
| "f32_div (Fin x) y = Fin 0"
| "f32_div x (Fin y) = f32_inf (f32_sgn x * (if y < 0 then - 1 else 1))"
| "f32_div x y = NaN"

fun f32_less :: "f32 \<Rightarrow> f32 \<Rightarrow> bool" where
  "f32_less NaN y = False"
| "f32_less x NaN = False"
| "f32_less (Fin x) (Fin y) = (x < y)"
| "f32_less NegInf y = (y \<noteq> NegInf)"
| "f32_less x PosInf = (x \<noteq> PosInf)"
| "f32_less x y = False"

fun f32_le :: "f32 \<Rightarrow> f32 \<Rightarrow> bool" where
  "f32_le NaN y = False"
| "f32_le x NaN = False"
| "f32_le (Fin x) (Fin y) = (x \<le> y)"
| "f32_le NegInf y = True"
| "f32_le x PosInf = True"
| "f32_le x y = False"

text \<open>
  The comparison operators of the source. They form no order, because NaN compares with
  nothing, not even with itself.
\<close>

instantiation f32 :: ord
begin

definition less_eq_f32 :: "f32 \<Rightarrow> f32 \<Rightarrow> bool" where
  "less_eq_f32 = f32_le"

definition less_f32 :: "f32 \<Rightarrow> f32 \<Rightarrow> bool" where
  "less_f32 = f32_less"

instance ..

end

lemma f32_order_simps [simp]:
  "Fin x \<le> Fin y \<longleftrightarrow> x \<le> y" "Fin x < Fin y \<longleftrightarrow> x < y" "\<not> NaN \<le> z" "\<not> NaN < z" "\<not> z \<le> NaN" "\<not> z < NaN"
  by (cases z; simp add: less_eq_f32_def less_f32_def)+

text \<open>The cast to \<open>usize\<close> truncates and saturates; NaN gives zero.\<close>

fun f32_to_usize :: "f32 \<Rightarrow> usize" where
  "f32_to_usize (Fin x) =
     (if x \<le> 0 then 0 else if 2 ^ 64 \<le> x then - 1 else word_of_nat (nat \<lfloor>x\<rfloor>))"
| "f32_to_usize PosInf = - 1"
| "f32_to_usize NegInf = 0"
| "f32_to_usize NaN = 0"

section \<open>Properties of rounding\<close>

lemma pow2_mono: "a \<le> b \<Longrightarrow> pow2 a \<le> pow2 b"
  by (rule power_int_increasing) simp_all

lemma pow2_add: "pow2 (a + b) = pow2 a * pow2 b"
  by (rule power_int_add) simp

lemma pow2_nat: "pow2 (int n) = 2 ^ n"
  by simp

lemma length_ulp_exponents [simp]: "length ulp_exponents = 254"
  by (simp only: ulp_exponents_def length_upto)

lemma nth_ulp_exponents: "i < 254 \<Longrightarrow> ulp_exponents ! i = - 149 + int i"
  unfolding ulp_exponents_def by (rule nth_upto) simp

lemma ulp_exponent_Some:
  assumes "ulp_exponent x = Some e"
  shows "- 149 \<le> e" "e \<le> 104" "x < pow2 (e + 24)" "e = - 149 \<or> pow2 (e + 23) \<le> x"
proof -
  obtain i where i: "i < length ulp_exponents" "x < pow2 (ulp_exponents ! i + 24)"
      "e = ulp_exponents ! i"
    and before: "\<forall>j<i. \<not> x < pow2 (ulp_exponents ! j + 24)"
    using assms unfolding ulp_exponent_def find_Some_iff by blast
  have e: "e = - 149 + int i" and "i < 254" using i(1,3) by (simp_all add: nth_ulp_exponents)
  then show "- 149 \<le> e" "e \<le> 104" "x < pow2 (e + 24)" using i(2,3) by simp_all
  show "e = - 149 \<or> pow2 (e + 23) \<le> x"
  proof (cases i)
    case 0
    then show ?thesis using e by simp
  next
    case (Suc j)
    then have "\<not> x < pow2 (ulp_exponents ! j + 24)" using before by simp
    moreover have "ulp_exponents ! j + 24 = e + 23" using e Suc i(1) by (simp add: nth_ulp_exponents)
    ultimately show ?thesis by (metis not_less)
  qed
qed

lemma ulp_exponent_exists:
  assumes "x < pow2 128"
  obtains e where "ulp_exponent x = Some e"
proof -
  have "(104 :: int) \<in> set ulp_exponents" unfolding ulp_exponents_def set_upto by simp
  moreover have "x < pow2 (104 + 24)" using assms by simp
  ultimately have "ulp_exponent x \<noteq> None" unfolding ulp_exponent_def find_None_iff by blast
  then show thesis using that by auto
qed

lemma round_even_of_int [simp]: "round_even (of_int n) = n"
  by (simp add: round_even_def)

lemma round_even_bounds: "\<lfloor>q\<rfloor> \<le> round_even q" "round_even q \<le> \<lfloor>q\<rfloor> + 1"
  by (simp_all add: round_even_def Let_def)

lemma round_even_mono:
  assumes "p \<le> q" shows "round_even p \<le> round_even q"
proof (cases "\<lfloor>p\<rfloor> = \<lfloor>q\<rfloor>")
  case True
  then show ?thesis using assms by (auto simp: round_even_def Let_def)
next
  case False
  then have "\<lfloor>p\<rfloor> + 1 \<le> \<lfloor>q\<rfloor>" using floor_mono[OF assms] by simp
  then show ?thesis using round_even_bounds(2)[of p] round_even_bounds(1)[of q] by linarith
qed

lemma round_even_ge: "of_int n \<le> q \<Longrightarrow> n \<le> round_even q"
  using round_even_mono[of "of_int n" q] by simp

lemma round_even_le: "q \<le> of_int n \<Longrightarrow> round_even q \<le> n"
  using round_even_mono[of q "of_int n"] by simp

text \<open>Rounding is monotone, also across the points where the precision changes.\<close>

definition rounded :: "int \<Rightarrow> rat \<Rightarrow> rat" where
  "rounded e x = of_int (round_even (x / pow2 e)) * pow2 e"

lemma rounded_le: "x / pow2 e \<le> of_int n \<Longrightarrow> rounded e x \<le> of_int n * pow2 e"
  unfolding rounded_def by (intro mult_right_mono) (simp_all only: of_int_le_iff round_even_le zero_le_power_int zero_le_numeral)

lemma rounded_ge: "of_int n \<le> x / pow2 e \<Longrightarrow> of_int n * pow2 e \<le> rounded e x"
  unfolding rounded_def by (intro mult_right_mono) (simp_all only: of_int_le_iff round_even_ge zero_le_power_int zero_le_numeral)

lemma rounded_mono:
  assumes "0 \<le> x" and "x \<le> y" and "ulp_exponent x = Some d" and "ulp_exponent y = Some e"
  shows "rounded d x \<le> rounded e y"
proof -
  note x = ulp_exponent_Some[OF assms(3)] and y = ulp_exponent_Some[OF assms(4)]
  consider "d = e" | "d < e" | "e < d" by linarith
  then show ?thesis
  proof cases
    case 1
    then show ?thesis
      using assms(2) by (auto simp: rounded_def intro!: mult_right_mono round_even_mono divide_right_mono)
  next
    case 2
    have "x / pow2 d \<le> of_int (2 ^ 24)"
      using x(3) by (simp add: pow2_add field_simps)
    then have "rounded d x \<le> of_int (2 ^ 24) * pow2 d" by (rule rounded_le)
    also have "\<dots> = pow2 (d + 24)" by (simp add: pow2_add)
    also have "\<dots> \<le> pow2 (e + 23)" using 2 by (intro pow2_mono) simp
    also have "\<dots> = of_int (2 ^ 23) * pow2 e" by (simp add: pow2_add)
    also have "\<dots> \<le> rounded e y"
    proof -
      have "pow2 (e + 23) \<le> y" using y(4) 2 x(1) by linarith
      then have "of_int (2 ^ 23) \<le> y / pow2 e" by (simp add: pow2_add field_simps)
      then show ?thesis by (rule rounded_ge)
    qed
    finally show ?thesis .
  next
    case 3
    then have "pow2 (d + 23) \<le> x" using x(4) y(1) by linarith
    moreover have "pow2 (e + 24) \<le> pow2 (d + 23)" using 3 by (intro pow2_mono) simp
    ultimately show ?thesis using assms(2) y(3) by linarith
  qed
qed

lemma round_magnitude_mono:
  assumes "0 \<le> x" and "x \<le> y" and "round_magnitude y = Some b"
  obtains a where "round_magnitude x = Some a" "a \<le> b"
proof -
  obtain e where e: "ulp_exponent y = Some e" "b = rounded e y" "b < pow2 128"
    using assms(3) by (auto simp: round_magnitude_def rounded_def Let_def split: option.splits if_splits)
  have "y < pow2 128"
    using ulp_exponent_Some(2,3)[OF e(1)] pow2_mono[of "e + 24" 128] by linarith
  then obtain d where d: "ulp_exponent x = Some d"
    using assms(2) ulp_exponent_exists[of x] by (meson order_le_less_trans)
  have "rounded d x \<le> b" unfolding e(2) by (rule rounded_mono[OF assms(1,2) d e(1)])
  then show thesis
    using e(3) d by (intro that[of "rounded d x"]) (simp_all add: round_magnitude_def rounded_def)
qed

lemma round_magnitude_exact:
  assumes "x = of_nat n * pow2 k" and "n < 2 ^ 24" and "- 149 \<le> k" and "k \<le> 104"
  shows "round_magnitude x = Some x"
proof -
  have "(of_nat n :: rat) < of_nat (2 ^ 24)" using assms(2) by (simp only: of_nat_less_iff)
  then have "of_nat n * pow2 k < of_nat (2 ^ 24) * pow2 k" by (rule mult_strict_right_mono) simp
  then have small: "x < pow2 (k + 24)" by (simp add: assms(1) pow2_add)
  also have top: "pow2 (k + 24) \<le> pow2 128" using assms(4) by (intro pow2_mono) simp
  finally have "x < pow2 128" .
  then obtain e where e: "ulp_exponent x = Some e" by (rule ulp_exponent_exists)
  note f = ulp_exponent_Some[OF e]
  have "e \<le> k"
  proof (rule ccontr)
    assume "\<not> e \<le> k"
    then have "pow2 (e + 23) \<le> x" "pow2 (k + 24) \<le> pow2 (e + 23)"
      using f(4) assms(3) by (auto intro: pow2_mono)
    with small show False by linarith
  qed
  then obtain i where i: "k = int i + e" by (metis add.commute diff_add_cancel zle_iff_zadd)
  have "x / pow2 e = of_int (int n * 2 ^ i)" by (simp add: assms(1) i pow2_add)
  then have "of_int (round_even (x / pow2 e)) * pow2 e = x"
    by (simp only: round_even_of_int) (simp add: field_simps)
  then show ?thesis using e \<open>x < pow2 128\<close> by (simp add: round_magnitude_def)
qed

lemma round_magnitude_nonneg: "0 \<le> x \<Longrightarrow> round_magnitude x = Some y \<Longrightarrow> 0 \<le> y"
  using round_even_ge[of 0] by (auto simp: round_magnitude_def Let_def split: option.splits if_splits)

lemma round_f32_exact:
  assumes "x = of_nat n * pow2 k" and "n < 2 ^ 24" and "- 149 \<le> k" and "k \<le> 104"
  shows "round_f32 x = Fin x"
proof -
  have "0 \<le> x" unfolding assms(1) by (intro mult_nonneg_nonneg) simp_all
  then show ?thesis using round_magnitude_exact[OF assms] by (simp add: round_f32_def not_less)
qed

text \<open>A value between zero and a representable one rounds to a value between them.\<close>

lemma round_f32_between:
  assumes "0 \<le> x" and "x \<le> y" and "0 \<le> y" and "round_f32 y = Fin y"
  obtains z where "round_f32 x = Fin z" "0 \<le> z" "z \<le> y"
proof -
  have "round_magnitude y = Some y"
    using assms(3,4) by (auto simp: round_f32_def split: option.splits)
  then obtain z where "round_magnitude x = Some z" "z \<le> y"
    using round_magnitude_mono[OF assms(1,2)] by blast
  then show thesis
    using assms(1) round_magnitude_nonneg[OF assms(1)] by (intro that[of z]) (simp_all add: round_f32_def)
qed

end
