(* ===== verification/Volatile.thy ===== *)
theory Volatile
  imports Memory Float32
begin

text \<open>
  The volatile ring buffer of \<open>src/memory/volatile.rs\<close>. Buffers and condition-variable
  flags are shared objects, so they live in a store and are referred to by address (an
  index into the store; \<open>Arc::new\<close> appends). Every operation takes the store and returns
  it updated. Allocations within Rust's size limits succeed; the data of a buffer is
  aligned for a record header. Access outside an allocation through a raw pointer is
  \<open>Undefined\<close>. Arithmetic is that of the release profile, which wraps.
\<close>

type_synonym addr = nat
type_synonym 'a run = "(unit, 'a) outcome"

record vrb =
  vb_slots :: "slot list"
  vb_data :: bytes
  vb_prod_seq :: atomic_index
  vb_cons_seq :: atomic_index
  vb_capacity :: usize
  vb_slot_size :: usize
  vb_consumer_signal :: addr
  vb_overflow_queue :: "log_record list"
  vb_max_overflow :: usize
  vb_max_spins :: usize

record mem =
  mem_bufs :: "vrb list"
  mem_signals :: "bool list"

record reservation =
  res_slot_idx :: usize
  res_seq :: usize
  res_size :: usize
  res_buffer :: addr
  res_committed :: bool

section \<open>The store\<close>

definition buf_at :: "addr \<Rightarrow> mem \<Rightarrow> vrb" where
  "buf_at a m = mem_bufs m ! a"

definition set_buf :: "addr \<Rightarrow> vrb \<Rightarrow> mem \<Rightarrow> mem" where
  "set_buf a b m = m\<lparr>mem_bufs := (mem_bufs m)[a := b]\<rparr>"

definition arc_new :: "vrb \<Rightarrow> mem \<Rightarrow> addr \<times> mem" where
  "arc_new b m = (length (mem_bufs m), m\<lparr>mem_bufs := mem_bufs m @ [b]\<rparr>)"

section \<open>Creation\<close>

text \<open>
  \<open>usize::next_power_of_two\<close>: the least power of two that is not smaller; without
  overflow checks the result is zero when there is none.
\<close>

definition next_power_of_two :: "usize \<Rightarrow> usize" where
  "next_power_of_two n = (case filter (\<lambda>k. n \<le> 2 ^ k) [0..<64] of [] \<Rightarrow> 0 | k # _ \<Rightarrow> 2 ^ k)"

text \<open>
  The allocations \<open>new\<close> and \<open>clone\<close> share: the slots (16 bytes each), the data and the two
  indices. A vector of more than \<open>isize::MAX\<close> bytes panics.
\<close>

definition fresh_storage ::
  "usize \<Rightarrow> usize \<Rightarrow> (slot list \<times> bytes \<times> atomic_index \<times> atomic_index) run" where
  "fresh_storage num_slots ssize =
     (let total_data_size = num_slots * ssize in
      if 2 ^ 63 \<le> unat num_slots * 16 then Panic CapacityOverflow
      else if 2 ^ 63 \<le> unat total_data_size then Panic CapacityOverflow
      else
      and_then (AtomicIndex_new num_slots) (\<lambda>prod_seq.
      and_then (AtomicIndex_new num_slots) (\<lambda>cons_seq.
        Ok (replicate (unat num_slots) Slot_new, replicate (unat total_data_size) 0,
            prod_seq, cons_seq))))"

definition VolatileRingBuffer_new :: "usize \<Rightarrow> mem \<Rightarrow> vrb run \<times> mem" where
  "VolatileRingBuffer_new cap m =
     (let num_slots = next_power_of_two cap; slot_size = 256 in
      run_then (fresh_storage num_slots slot_size, m) (\<lambda>(slots, data, prod_seq, cons_seq) m.
        (Ok \<lparr>vb_slots = slots, vb_data = data, vb_prod_seq = prod_seq,
             vb_cons_seq = cons_seq, vb_capacity = num_slots, vb_slot_size = slot_size,
             vb_consumer_signal = length (mem_signals m), vb_overflow_queue = [],
             vb_max_overflow = 1000, vb_max_spins = 100\<rparr>,
         m\<lparr>mem_signals := mem_signals m @ [False]\<rparr>)))"

text \<open>Cloning allocates empty storage; only the signal is shared with the original.\<close>

definition vrb_clone :: "vrb \<Rightarrow> vrb run" where
  "vrb_clone b =
     and_then (fresh_storage (vb_capacity b) (vb_slot_size b))
       (\<lambda>(slots, data, prod_seq, cons_seq).
         Ok \<lparr>vb_slots = slots, vb_data = data, vb_prod_seq = prod_seq,
             vb_cons_seq = cons_seq, vb_capacity = vb_capacity b,
             vb_slot_size = vb_slot_size b, vb_consumer_signal = vb_consumer_signal b,
             vb_overflow_queue = [], vb_max_overflow = vb_max_overflow b,
             vb_max_spins = vb_max_spins b\<rparr>)"

section \<open>Reserving\<close>

text \<open>
  How the bounded spin loop of \<open>reserve\<close> ends: a slot was claimed (its index and sequence
  number), the call gives up early because it does not block, or all spins are used.
\<close>

datatype spin_result = Claimed usize usize | GaveUp | Exhausted

lemma spins_decrease:
  fixes s t :: usize
  assumes "s < t"
  shows "unat t - unat (s + 1) < unat t - unat s"
proof -
  have "unat s < unat t" using assms by (simp add: word_less_nat_alt)
  moreover have "unat (s + 1) = unat s + 1"
    using calculation unat_usize_lt[of t] by (simp add: unat_plus_no_wrap)
  ultimately show ?thesis by simp
qed

function reserve_spin :: "bool \<Rightarrow> usize \<Rightarrow> vrb \<Rightarrow> spin_result run \<times> vrb" where
  "reserve_spin block spins b =
     (if spins < vb_max_spins b then
        (let prod_seq = ai_load (vb_prod_seq b);
             slot_idx = physical_index (vb_prod_seq b) prod_seq;
             retry = (let spins' = spins + 1 in
                      if \<not> block \<and> 10 < spins' then (Ok GaveUp, b)
                      else reserve_spin block spins' b)
         in
         if length (vb_slots b) \<le> unat slot_idx then (Panic IndexRange, b)
         else
         let slot = vb_slots b ! unat slot_idx in
         case state_of slot of
           Empty \<Rightarrow>
             (case try_transition Empty Reserved slot of
                (True, slot') \<Rightarrow>
                  (Ok (Claimed slot_idx prod_seq),
                   b\<lparr>vb_prod_seq := ai_store (prod_seq + 1) (vb_prod_seq b),
                     vb_slots := (vb_slots b)[unat slot_idx := set_seq prod_seq slot']\<rparr>)
              | (False, _) \<Rightarrow> retry)
         | _ \<Rightarrow> retry)
      else (Ok Exhausted, b))"
  by pat_completeness auto

termination
  by (relation "measure (\<lambda>(_, spins, b). unat (vb_max_spins b) - unat spins)")
     (auto intro: spins_decrease)

declare reserve_spin.simps [simp del]

text \<open>
  A blocking call that exhausts its spins sleeps and calls itself, so \<open>reserve\<close> takes the
  number of stack frames that are left.
\<close>

fun reserve :: "nat \<Rightarrow> usize \<Rightarrow> bool \<Rightarrow> addr \<Rightarrow> mem \<Rightarrow> reservation option run \<times> mem" where
  "reserve 0 sz block a m = (Panic StackOverflow, m)"
| "reserve (Suc frames) sz block a m =
     (let b = buf_at a m;
          total_size = sz + RecordHeader_SIZE
      in
      if vb_slot_size b < total_size then (Panic AssertFailed, m)
      else
      let (spun, b') = reserve_spin block 0 b in
      run_then (spun, set_buf a b' m) (\<lambda>result m1.
        case result of
          Claimed slot_idx prod_seq \<Rightarrow>
            run_then (vrb_clone b', m1) (\<lambda>c m2.
              let (ca, m3) = arc_new c m2 in
              (Ok (Some \<lparr>res_slot_idx = slot_idx, res_seq = prod_seq, res_size = total_size,
                         res_buffer = ca, res_committed = False\<rparr>), m3))
        | GaveUp \<Rightarrow> (Ok None, m1)
        | Exhausted \<Rightarrow> if block then reserve frames sz block a m1 else (Ok None, m1)))"

section \<open>Using a reservation\<close>

text \<open>Offset of a slot in the data; the pointer is used with an access of some length.\<close>

definition get_slot_data_ptr :: "usize \<Rightarrow> vrb \<Rightarrow> usize" where
  "get_slot_data_ptr slot_idx b = slot_idx * vb_slot_size b"

definition in_data :: "vrb \<Rightarrow> nat \<Rightarrow> nat \<Rightarrow> bool" where
  "in_data b off n \<longleftrightarrow> off + n \<le> length (vb_data b)"

definition reservation_write ::
  "u32 \<Rightarrow> record_header \<Rightarrow> bytes \<Rightarrow> reservation \<Rightarrow> mem \<Rightarrow> unit run \<times> mem" where
  "reservation_write pad header data res m =
     (if \<not> word_of_nat (length data) \<le> res_size res - RecordHeader_SIZE
      then (Panic AssertFailed, m)
      else
      let b = buf_at (res_buffer res) m;
          ptr = unat (get_slot_data_ptr (res_slot_idx res) b)
      in
      if \<not> in_data b ptr 24 then (Undefined, m)
      else
      let b1 = b\<lparr>vb_data := put (vb_data b) ptr (encode_record_header pad header)\<rparr>;
          dptr = ptr + unat RecordHeader_SIZE
      in
      if \<not> in_data b1 dptr (length data) then (Undefined, set_buf (res_buffer res) b1 m)
      else
      (Ok (), set_buf (res_buffer res) (b1\<lparr>vb_data := put (vb_data b1) dptr data\<rparr>) m))"

definition notify_consumer :: "addr \<Rightarrow> mem \<Rightarrow> mem" where
  "notify_consumer a m =
     m\<lparr>mem_signals := (mem_signals m)[vb_consumer_signal (buf_at a m) := True]\<rparr>"

definition reservation_drop :: "reservation \<Rightarrow> mem \<Rightarrow> unit run \<times> mem" where
  "reservation_drop res m =
     (if \<not> res_committed res then
        (let b = buf_at (res_buffer res) m; i = unat (res_slot_idx res) in
         if length (vb_slots b) \<le> i then (Panic IndexRange, m)
         else
         let slot' = snd (try_transition Reserved Empty (vb_slots b ! i)) in
         (Ok (), set_buf (res_buffer res) (b\<lparr>vb_slots := (vb_slots b)[i := slot']\<rparr>) m))
      else (Ok (), m))"

text \<open>\<open>commit\<close> takes the reservation by value, so it is dropped at the end of the call.\<close>

definition reservation_commit :: "reservation \<Rightarrow> mem \<Rightarrow> unit run \<times> mem" where
  "reservation_commit res m =
     (if \<not> res_committed res then
        (let b = buf_at (res_buffer res) m; i = unat (res_slot_idx res) in
         if length (vb_slots b) \<le> i then (Panic IndexRange, m)
         else
         case try_transition Reserved Ready (vb_slots b ! i) of
           (True, slot') \<Rightarrow>
             (let b' = b\<lparr>vb_slots := (vb_slots b)[i := set_seq (res_seq res) slot']\<rparr>;
                  m1 = notify_consumer (res_buffer res) (set_buf (res_buffer res) b' m)
              in reservation_drop (res\<lparr>res_committed := True\<rparr>) m1)
         | (False, _) \<Rightarrow> reservation_drop res m)
      else reservation_drop res m)"

text \<open>
  The lines \<open>write\<close> and \<open>read\<close> share: fill the reservation and commit it. A panic while
  filling it drops the reservation.
\<close>

definition fill_and_commit :: "u32 \<Rightarrow> log_record \<Rightarrow> reservation \<Rightarrow> mem \<Rightarrow> unit run \<times> mem" where
  "fill_and_commit pad r res m =
     (case reservation_write pad (r_header r) (r_data r) res m of
        (Ok _, m1) \<Rightarrow> reservation_commit res m1
      | (Err e, m1) \<Rightarrow> (Err e, m1)
      | (Panic p, m1) \<Rightarrow> (Panic p, snd (reservation_drop res m1))
      | (Undefined, m1) \<Rightarrow> (Undefined, m1))"

section \<open>Writing\<close>

definition enqueue_overflow :: "usize \<Rightarrow> log_record \<Rightarrow> log_record list \<Rightarrow> log_record list" where
  "enqueue_overflow max_overflow r q =
     (if word_of_nat (length q) < max_overflow then q @ [r]
      else if q \<noteq> [] then tl q @ [r]
      else q)"

text \<open>A call that does not block never recurses: one frame is enough.\<close>

definition vrb_write :: "u32 \<Rightarrow> log_record \<Rightarrow> addr \<Rightarrow> mem \<Rightarrow> bool run \<times> mem" where
  "vrb_write pad r a m =
     run_then (reserve 1 (word_of_nat (length (r_data r))) False a m) (\<lambda>reserved m1.
       case reserved of
         Some res \<Rightarrow> run_then (fill_and_commit pad r res m1) (\<lambda>_ m2. (Ok True, m2))
       | None \<Rightarrow>
           (let b = buf_at a m1 in
            (Ok False, set_buf a (b\<lparr>vb_overflow_queue :=
               enqueue_overflow (vb_max_overflow b) r (vb_overflow_queue b)\<rparr>) m1)))"

section \<open>Waiting\<close>

text \<open>
  \<open>notified\<close> is what the condition variable reports: whether the wait ended because of a
  notification. Without a timeout and without a notification the call does not return.
\<close>

definition wait_for_data :: "u64 option \<Rightarrow> bool \<Rightarrow> addr \<Rightarrow> mem \<Rightarrow> (bool \<times> mem) option" where
  "wait_for_data timeout_ms notified a m =
     (let s = vb_consumer_signal (buf_at a m);
          cleared = m\<lparr>mem_signals := (mem_signals m)[s := False]\<rparr>
      in
      if mem_signals m ! s then Some (True, cleared)
      else
      case timeout_ms of
        Some timeout \<Rightarrow> Some (notified, cleared)
      | None \<Rightarrow> if notified then Some (True, cleared) else None)"

section \<open>Reading\<close>

fun read_slots ::
  "hasher \<Rightarrow> nat \<Rightarrow> usize \<Rightarrow> nat \<Rightarrow> log_record list \<Rightarrow> vrb \<Rightarrow>
   (log_record list \<times> usize \<times> nat) run \<times> vrb" where
  "read_slots crc 0 cons_seq processed records b = (Ok (records, cons_seq, processed), b)"
| "read_slots crc (Suc k) cons_seq processed records b =
     (let slot_idx = physical_index (vb_cons_seq b) cons_seq; i = unat slot_idx in
      if length (vb_slots b) \<le> i then (Panic IndexRange, b)
      else
      let slot = vb_slots b ! i in
      if state_of slot = Ready \<and> seq_of slot = cons_seq then
        (let ptr = unat (get_slot_data_ptr slot_idx b) in
         if \<not> in_data b ptr 24 then (Undefined, b)
         else
         let header = decode_record_header (subslice (vb_data b) ptr 24);
             data_size = unat (rh_size header);
             src = ptr + unat RecordHeader_SIZE
         in
         if \<not> in_data b src data_size then (Undefined, b)
         else
         let data = subslice (vb_data b) src data_size;
             records' = (if rh_verify_crc crc header data
                         then records @ [\<lparr>r_header = header, r_data = data\<rparr>] else records);
             slot' = set_state Empty (set_state Consumed slot)
         in read_slots crc k (cons_seq + 1) (Suc processed) records'
              (b\<lparr>vb_slots := (vb_slots b)[i := slot']\<rparr>))
      else (Ok (records, cons_seq, processed), b))"

text \<open>
  The drain of the overflow queue, whose lock the caller holds; \<open>q\<close> is the queue at the
  head of the loop.
\<close>

definition set_queue :: "addr \<Rightarrow> log_record list \<Rightarrow> mem \<Rightarrow> mem" where
  "set_queue a q m = set_buf a ((buf_at a m)\<lparr>vb_overflow_queue := q\<rparr>) m"

fun drain_overflow :: "u32 \<Rightarrow> addr \<Rightarrow> log_record list \<Rightarrow> mem \<Rightarrow> unit run \<times> mem" where
  "drain_overflow pad a [] m = (Ok (), m)"
| "drain_overflow pad a (r # q) m =
     (let m0 = set_queue a q m in
      run_then (reserve 1 (word_of_nat (length (r_data r))) False a m0) (\<lambda>reserved m1.
        case reserved of
          Some res \<Rightarrow> run_then (fill_and_commit pad r res m1) (\<lambda>_ m2. drain_overflow pad a q m2)
        | None \<Rightarrow> (Ok (), set_queue a (r # q) m1)))"

definition vrb_read :: "hasher \<Rightarrow> u32 \<Rightarrow> addr \<Rightarrow> mem \<Rightarrow> log_record list run \<times> mem" where
  "vrb_read crc pad a m =
     (let b = buf_at a m;
          (found, b1) = read_slots crc (unat (vb_capacity b)) (ai_load (vb_cons_seq b)) 0 [] b
      in
      run_then (found, set_buf a b1 m) (\<lambda>(records, cons_seq, processed) m1.
        if 0 < processed then
          (let m2 = set_buf a (b1\<lparr>vb_cons_seq := ai_store cons_seq (vb_cons_seq b1)\<rparr>) m1 in
           run_then (drain_overflow pad a (vb_overflow_queue (buf_at a m2)) m2)
             (\<lambda>_ m3. (Ok records, m3)))
        else (Ok records, m1)))"

definition usage_percent :: "vrb \<Rightarrow> f32" where
  "usage_percent b =
     (let prod_seq = ai_load (vb_prod_seq b);
          cons_seq = ai_load (vb_cons_seq b);
          used = f32_of_usize (prod_seq - cons_seq);
          cap = f32_of_usize (vb_capacity b)
      in f32_mul (f32_div used cap) (Fin 100))"

definition capacity :: "vrb \<Rightarrow> usize" where
  "capacity b = vb_capacity b"

definition slot_size :: "vrb \<Rightarrow> usize" where
  "slot_size b = vb_slot_size b"

end
