(* ===== verification/Volatile_Log.thy ===== *)
theory Volatile_Log
  imports Volatile
begin

text \<open>
  The lemmas on the volatile buffer: its well-formedness, closed forms of the operations
  on a well-formed buffer, the slot protocol on a buffer and on the fresh copy a
  reservation refers to, and the effect of reading.
\<close>

section \<open>Well-formed buffers\<close>

definition vinv :: "vrb \<Rightarrow> bool" where
  "vinv b \<longleftrightarrow>
     ai_ok (vb_capacity b) (vb_prod_seq b) \<and> ai_ok (vb_capacity b) (vb_cons_seq b) \<and>
     length (vb_slots b) = unat (vb_capacity b) \<and> (\<forall>sl\<in>set (vb_slots b). slot_ok sl) \<and>
     vb_slot_size b = 256 \<and> length (vb_data b) = unat (vb_capacity b) * 256 \<and>
     unat (vb_capacity b) * 256 < 2 ^ 63 \<and>
     vb_max_overflow b = 1000 \<and> length (vb_overflow_queue b) \<le> 1000 \<and> vb_max_spins b = 100"

lemma vinv_facts:
  assumes "vinv b"
  shows "ai_ok (vb_capacity b) (vb_prod_seq b)" "ai_ok (vb_capacity b) (vb_cons_seq b)"
    "length (vb_slots b) = unat (vb_capacity b)" "vb_slot_size b = 256"
    "length (vb_data b) = unat (vb_capacity b) * 256" "unat (vb_capacity b) * 256 < 2 ^ 63"
    "vb_max_spins b = 100" "vb_max_overflow b = 1000" "is_power_of_two (vb_capacity b)"
    "length (vb_overflow_queue b) \<le> 1000" "0 < unat (vb_capacity b)"
  using assms unat_cap_pos[of "vb_capacity b"] by (simp_all add: vinv_def) (simp_all add: ai_ok_def)

lemma vinv_slot_ok: "vinv b \<Longrightarrow> i < unat (vb_capacity b) \<Longrightarrow> slot_ok (vb_slots b ! i)"
  by (simp add: vinv_def)

lemma unat_header_size [simp]: "unat RecordHeader_SIZE = 24"
  by (simp add: RecordHeader_SIZE_def)

section \<open>Creation\<close>

lemma fresh_storage_eq:
  assumes "is_power_of_two n" and "unat n * 256 < 2 ^ 63"
  shows "fresh_storage n 256 = Ok (replicate (unat n) Slot_new, replicate (unat n * 256) 0,
     \<lparr>ai_value = 0, ai_mask = n - 1\<rparr>, \<lparr>ai_value = 0, ai_mask = n - 1\<rparr>)"
proof -
  have "unat (n * 256) = unat n * 256" using assms(2) by (simp add: unat_word_ariths)
  then show ?thesis using assms by (simp add: fresh_storage_def AtomicIndex_new_def)
qed

definition empty_like :: "vrb \<Rightarrow> vrb" where
  "empty_like b = b\<lparr>vb_slots := replicate (unat (vb_capacity b)) Slot_new,
     vb_data := replicate (unat (vb_capacity b) * 256) 0,
     vb_prod_seq := \<lparr>ai_value = 0, ai_mask = vb_capacity b - 1\<rparr>,
     vb_cons_seq := \<lparr>ai_value = 0, ai_mask = vb_capacity b - 1\<rparr>,
     vb_overflow_queue := []\<rparr>"

lemma empty_like_simps [simp]:
  "vb_capacity (empty_like b) = vb_capacity b" "vb_slot_size (empty_like b) = vb_slot_size b"
  "vb_consumer_signal (empty_like b) = vb_consumer_signal b"
  "vb_slots (empty_like b) = replicate (unat (vb_capacity b)) Slot_new"
  "length (vb_data (empty_like b)) = unat (vb_capacity b) * 256"
  by (simp_all add: empty_like_def)

lemma vrb_clone_eq: "vinv b \<Longrightarrow> vrb_clone b = Ok (empty_like b)"
  using fresh_storage_eq[of "vb_capacity b"] vinv_facts[of b]
  by (simp add: vrb_clone_def empty_like_def)

lemma empty_like_inv: "vinv b \<Longrightarrow> vinv (empty_like b)"
  by (auto simp: vinv_def empty_like_def ai_ok_def)

lemma next_power_of_two_spec:
  assumes "n \<le> 2 ^ 63"
  obtains k where "k < 64" "next_power_of_two n = 2 ^ k" "n \<le> 2 ^ k" "\<forall>j<k. (2 :: usize) ^ j < n"
proof -
  let ?xs = "filter (\<lambda>k. n \<le> 2 ^ k) [0..<64]"
  have "63 \<in> set ?xs" using assms by simp
  then obtain k ks where xs: "?xs = k # ks" by (cases ?xs) auto
  then have k: "k < 64" "n \<le> 2 ^ k"
    by (metis (mono_tags, lifting) list.set_intros(1) mem_Collect_eq set_filter set_upt
        atLeastLessThan_iff)+
  have "sorted ?xs" by (rule sorted_wrt_filter) simp
  have "2 ^ j < n" if "j < k" for j
  proof (rule ccontr)
    assume "\<not> 2 ^ j < n"
    then have "j \<in> set ?xs" using that k(1) by simp
    with xs \<open>sorted ?xs\<close> have "k \<le> j" by (auto simp: xs)
    with that show False by simp
  qed
  with k xs show thesis by (intro that[of k]) (simp_all add: next_power_of_two_def)
qed

lemma power_of_two_mono:
  assumes "i \<le> j" and "j < 64" shows "(2 :: usize) ^ i \<le> 2 ^ j"
proof -
  have "(2 :: nat) ^ i \<le> 2 ^ j" using assms(1) by (rule power_increasing) simp
  then show ?thesis using assms by (simp add: word_le_nat_alt unat_power_of_two)
qed

lemma next_power_of_two_least:
  assumes "n \<le> 2 ^ 63" and "is_power_of_two p" and "n \<le> p"
  shows "next_power_of_two n \<le> p"
proof -
  obtain k where k: "next_power_of_two n = 2 ^ k" "\<forall>j<k. (2 :: usize) ^ j < n"
    using next_power_of_two_spec[OF assms(1)] by blast
  obtain j where j: "j < 64" "p = 2 ^ j" using assms(2) by (auto simp: is_power_of_two_iff)
  then have "k \<le> j" using k(2) assms(3) by (metis leD leI)
  then show ?thesis using j k(1) by (simp add: power_of_two_mono)
qed

lemma next_power_of_two_overflow:
  assumes "2 ^ 63 < n" shows "next_power_of_two n = 0"
proof -
  have "\<not> n \<le> 2 ^ k" if "k < 64" for k
    using assms power_of_two_mono[of k 63] that by (simp add: not_le order.strict_trans1)
  then have "filter (\<lambda>k. n \<le> 2 ^ k) [0..<64] = []" by (simp add: filter_empty_conv del: upt_conv_Cons)
  then show ?thesis by (simp only: next_power_of_two_def list.case)
qed

definition new_vrb :: "usize \<Rightarrow> addr \<Rightarrow> vrb" where
  "new_vrb n s = empty_like \<lparr>vb_slots = [], vb_data = [],
     vb_prod_seq = \<lparr>ai_value = 0, ai_mask = 0\<rparr>, vb_cons_seq = \<lparr>ai_value = 0, ai_mask = 0\<rparr>,
     vb_capacity = n, vb_slot_size = 256, vb_consumer_signal = s, vb_overflow_queue = [],
     vb_max_overflow = 1000, vb_max_spins = 100\<rparr>"

lemma next_power_of_two_small:
  assumes "unat n \<le> 2 ^ 54"
  shows "is_power_of_two (next_power_of_two n)" "unat (next_power_of_two n) * 256 < 2 ^ 63"
    "n \<le> next_power_of_two n"
proof -
  have "n \<le> 2 ^ 63" using assms by (simp add: word_le_nat_alt)
  then obtain k where k: "k < 64" "next_power_of_two n = 2 ^ k" "n \<le> 2 ^ k" "\<forall>j<k. (2 :: usize) ^ j < n"
    using next_power_of_two_spec by blast
  have "k \<le> 54"
  proof (rule ccontr)
    assume "\<not> k \<le> 54"
    then have "(2 :: usize) ^ 54 < n" using k(4) by (metis not_le)
    then show False using assms by (simp add: word_less_nat_alt)
  qed
  then have "(2 :: nat) ^ k \<le> 2 ^ 54" by (rule power_increasing) simp
  then show "unat (next_power_of_two n) * 256 < 2 ^ 63" using k by (simp add: unat_power_of_two)
  show "is_power_of_two (next_power_of_two n)" "n \<le> next_power_of_two n"
    using k by (auto simp: is_power_of_two_iff)
qed

lemma VolatileRingBuffer_new_eq:
  assumes "unat n \<le> 2 ^ 54"
  shows "VolatileRingBuffer_new n m = (Ok (new_vrb (next_power_of_two n) (length (mem_signals m))),
     m\<lparr>mem_signals := mem_signals m @ [False]\<rparr>)"
  using fresh_storage_eq[OF next_power_of_two_small(1,2)[OF assms]]
  by (simp add: VolatileRingBuffer_new_def new_vrb_def empty_like_def Let_def)

lemma new_vrb_inv: "is_power_of_two n \<Longrightarrow> unat n * 256 < 2 ^ 63 \<Longrightarrow> vinv (new_vrb n s)"
  by (simp add: vinv_def new_vrb_def empty_like_def ai_ok_def)

section \<open>The store\<close>

lemma buf_at_set_buf [simp]:
  "a < length (mem_bufs m) \<Longrightarrow> buf_at a (set_buf a b m) = b"
  "c \<noteq> a \<Longrightarrow> buf_at c (set_buf a b m) = buf_at c m"
  by (simp_all add: buf_at_def set_buf_def)

lemma buf_at_signals [simp]: "buf_at a (m\<lparr>mem_signals := ws\<rparr>) = buf_at a m"
  by (simp add: buf_at_def)

lemma set_buf_id [simp]: "set_buf a (buf_at a m) m = m"
  by (simp add: buf_at_def set_buf_def)

lemma set_buf_simps [simp]:
  "length (mem_bufs (set_buf a b m)) = length (mem_bufs m)"
  "mem_signals (set_buf a b m) = mem_signals m"
  "set_buf a c (set_buf a b m) = set_buf a c m"
  by (simp_all add: set_buf_def)

section \<open>Claiming a slot\<close>

definition prod_idx :: "vrb \<Rightarrow> nat" where
  "prod_idx b = unat (ai_value (vb_prod_seq b)) mod unat (vb_capacity b)"

definition full :: "vrb \<Rightarrow> bool" where
  "full b \<longleftrightarrow> state_of (vb_slots b ! prod_idx b) \<noteq> Empty"

definition claimed :: "vrb \<Rightarrow> vrb" where
  "claimed b = b\<lparr>vb_prod_seq := ai_store (ai_value (vb_prod_seq b) + 1) (vb_prod_seq b),
     vb_slots := (vb_slots b)[prod_idx b :=
       set_seq (ai_value (vb_prod_seq b)) (set_state Reserved (vb_slots b ! prod_idx b))]\<rparr>"

lemma prod_idx_less: "vinv b \<Longrightarrow> prod_idx b < unat (vb_capacity b)"
  using vinv_facts(11)[of b] by (simp add: prod_idx_def)

lemma prod_idx_physical:
  "vinv b \<Longrightarrow> unat (physical_index (vb_prod_seq b) (ai_value (vb_prod_seq b))) = prod_idx b"
  using unat_physical_index[OF vinv_facts(1)] by (simp add: prod_idx_def)

lemma claimed_inv:
  assumes "vinv b" shows "vinv (claimed b)"
proof -
  have "set (vb_slots (claimed b)) \<subseteq> insert (set_seq (ai_value (vb_prod_seq b))
      (set_state Reserved (vb_slots b ! prod_idx b))) (set (vb_slots b))"
    by (simp add: claimed_def set_update_subset_insert)
  then have "\<forall>sl\<in>set (vb_slots (claimed b)). slot_ok sl" using assms by (auto simp: vinv_def)
  then show ?thesis using assms by (simp add: vinv_def claimed_def)
qed

lemma claimed_simps [simp]:
  "vb_capacity (claimed b) = vb_capacity b" "vb_slot_size (claimed b) = vb_slot_size b"
  "vb_data (claimed b) = vb_data b" "vb_cons_seq (claimed b) = vb_cons_seq b"
  "vb_overflow_queue (claimed b) = vb_overflow_queue b"
  "vb_consumer_signal (claimed b) = vb_consumer_signal b"
  "length (vb_slots (claimed b)) = length (vb_slots b)"
  "empty_like (claimed b) = empty_like b"
  by (simp_all add: claimed_def empty_like_def)

lemma reserve_spin_claims:
  assumes "vinv b" and "\<not> full b"
  shows "reserve_spin block 0 b =
     (Ok (Claimed (physical_index (vb_prod_seq b) (ai_value (vb_prod_seq b)))
            (ai_value (vb_prod_seq b))), claimed b)"
  using assms prod_idx_less[OF assms(1)] vinv_facts[OF assms(1)]
    try_transition_ok[OF vinv_slot_ok[OF assms(1) prod_idx_less[OF assms(1)]], of Empty Reserved]
  by (subst reserve_spin.simps)
     (simp add: prod_idx_physical full_def claimed_def ai_load_def Let_def)

lemma reserve_spin_step:
  assumes "vinv b" and "full b"
  shows "reserve_spin block spins b =
     (if spins < 100 then
        (if \<not> block \<and> 10 < spins + 1 then (Ok GaveUp, b) else reserve_spin block (spins + 1) b)
      else (Ok Exhausted, b))"
  using assms prod_idx_less[OF assms(1)] vinv_facts[OF assms(1)]
  by (subst reserve_spin.simps)
     (simp add: prod_idx_physical full_def ai_load_def Let_def split: slot_state.split)

lemma reserve_spin_full:
  assumes "vinv b" and "full b"
  shows "reserve_spin block spins b =
     (Ok (if \<not> block \<and> spins < 100 then GaveUp else Exhausted), b)"
proof (induction "unat (100 :: usize) - unat spins" arbitrary: spins rule: less_induct)
  case less
  show ?case
  proof (cases "spins < 100")
    case True
    have "spins + 1 \<le> 10 \<Longrightarrow> spins + 1 < 100" by (erule order_le_less_trans) simp
    then show ?thesis
      using less[OF spins_decrease[OF True]] True
      by (subst reserve_spin_step[OF assms]) (auto simp: not_less)
  next
    case False
    then show ?thesis by (subst reserve_spin_step[OF assms]) simp
  qed
qed

section \<open>Reserving\<close>

definition new_reservation :: "usize \<Rightarrow> addr \<Rightarrow> mem \<Rightarrow> reservation" where
  "new_reservation sz a m = (let b = buf_at a m in
     \<lparr>res_slot_idx = physical_index (vb_prod_seq b) (ai_value (vb_prod_seq b)),
      res_seq = ai_value (vb_prod_seq b), res_size = sz + 24,
      res_buffer = length (mem_bufs m), res_committed = False\<rparr>)"

definition reserved_mem :: "addr \<Rightarrow> mem \<Rightarrow> mem" where
  "reserved_mem a m = m\<lparr>mem_bufs := (mem_bufs m)[a := claimed (buf_at a m)] @ [empty_like (buf_at a m)]\<rparr>"

lemma reserve_eq:
  assumes "vinv (buf_at a m)" and "sz + 24 \<le> 256"
  shows "reserve (Suc frames) sz block a m =
     (if full (buf_at a m) then (if block then reserve frames sz block a m else (Ok None, m))
      else (Ok (Some (new_reservation sz a m)), reserved_mem a m))"
proof -
  have fits: "\<not> vb_slot_size (buf_at a m) < sz + RecordHeader_SIZE"
    using assms(2) vinv_facts(4)[OF assms(1)] by (simp add: RecordHeader_SIZE_def not_less)
  show ?thesis
  proof (cases "full (buf_at a m)")
    case True
    then show ?thesis using assms(1) fits by (simp add: reserve_spin_full Let_def)
  next
    case False
    then show ?thesis
      using assms(1) fits
      by (simp add: reserve_spin_claims claimed_inv vrb_clone_eq arc_new_def Let_def
          new_reservation_def reserved_mem_def set_buf_def) (simp add: RecordHeader_SIZE_def)
  qed
qed

lemma reserve_too_large:
  "vinv (buf_at a m) \<Longrightarrow> 256 < sz + 24 \<Longrightarrow> reserve (Suc frames) sz block a m = (Panic AssertFailed, m)"
  using vinv_facts(4)[of "buf_at a m"] by (simp add: RecordHeader_SIZE_def)

lemma reserve_full_blocks:
  "vinv (buf_at a m) \<Longrightarrow> sz + 24 \<le> 256 \<Longrightarrow> full (buf_at a m) \<Longrightarrow>
   reserve frames sz True a m = (Panic StackOverflow, m)"
  by (induction frames) (simp_all only: reserve.simps(1) reserve_eq if_True)

lemma data_fits:
  assumes "length d \<le> 232"
  shows "(word_of_nat (length d) :: usize) + 24 \<le> 256" "unat (word_of_nat (length d) :: usize) = length d"
    "word_of_nat (length d) \<le> (word_of_nat (length d) :: usize) + 24 - RecordHeader_SIZE"
proof -
  show u: "unat (word_of_nat (length d) :: usize) = length d"
    using assms by (intro unat_of_nat_usize) simp
  then show "(word_of_nat (length d) :: usize) + 24 \<le> 256"
    using assms by (simp add: word_le_nat_alt unat_plus_no_wrap)
  show "word_of_nat (length d) \<le> (word_of_nat (length d) :: usize) + 24 - RecordHeader_SIZE"
    by (simp add: RecordHeader_SIZE_def)
qed

section \<open>Filling and committing\<close>

text \<open>The bytes of a record in a slot, and a buffer with such bytes stored in slot \<open>i\<close>.\<close>

definition slot_image :: "u32 \<Rightarrow> log_record \<Rightarrow> bytes" where
  "slot_image pad r = encode_record_header pad (r_header r) @ r_data r"

definition filled :: "u32 \<Rightarrow> log_record \<Rightarrow> nat \<Rightarrow> vrb \<Rightarrow> vrb" where
  "filled pad r i b = b\<lparr>vb_data := put (vb_data b) (i * 256) (slot_image pad r)\<rparr>"

definition committed :: "usize \<Rightarrow> nat \<Rightarrow> vrb \<Rightarrow> vrb" where
  "committed s i b = b\<lparr>vb_slots := (vb_slots b)[i := set_seq s (set_state Ready (vb_slots b ! i))]\<rparr>"

lemma length_slot_image [simp]: "length (slot_image pad r) = 24 + length (r_data r)"
  by (simp add: slot_image_def)

lemma slot_ptr:
  assumes "vinv b" and "unat i < unat (vb_capacity b)"
  shows "unat (get_slot_data_ptr i b) = unat i * 256"
proof -
  have "unat i * 256 < 2 ^ 64" using assms vinv_facts(6)[OF assms(1)] by simp
  then show ?thesis
    using vinv_facts(4)[OF assms(1)] by (simp add: get_slot_data_ptr_def unat_word_ariths)
qed

lemma slot_room:
  assumes "vinv b" and "i < unat (vb_capacity b)" and "n \<le> 256"
  shows "i * 256 + n \<le> length (vb_data b)"
proof -
  have "(i + 1) * 256 \<le> unat (vb_capacity b) * 256" using assms(2) by (intro mult_le_mono1) simp
  then show ?thesis using assms(3) vinv_facts(5)[OF assms(1)] by simp
qed

lemma filled_inv:
  assumes "vinv b" and "i < unat (vb_capacity b)" and "length (r_data r) \<le> 232"
  shows "vinv (filled pad r i b)"
  using assms slot_room[OF assms(1,2), of "24 + length (r_data r)"]
  by (simp add: vinv_def filled_def)

lemma filled_simps [simp]:
  "vb_slots (filled pad r i b) = vb_slots b" "vb_capacity (filled pad r i b) = vb_capacity b"
  "vb_consumer_signal (filled pad r i b) = vb_consumer_signal b"
  "vb_prod_seq (filled pad r i b) = vb_prod_seq b" "vb_cons_seq (filled pad r i b) = vb_cons_seq b"
  "vb_overflow_queue (filled pad r i b) = vb_overflow_queue b"
  by (simp_all add: filled_def)

lemma reservation_write_eq:
  assumes "vinv (buf_at (res_buffer res) m)"
    and "unat (res_slot_idx res) < unat (vb_capacity (buf_at (res_buffer res) m))"
    and "length (r_data r) \<le> 232" and "word_of_nat (length (r_data r)) \<le> res_size res - 24"
  shows "reservation_write pad (r_header r) (r_data r) res m =
     (Ok (), set_buf (res_buffer res)
        (filled pad r (unat (res_slot_idx res)) (buf_at (res_buffer res) m)) m)"
proof -
  let ?b = "buf_at (res_buffer res) m" and ?i = "unat (res_slot_idx res)"
  have room: "?i * 256 + (24 + length (r_data r)) \<le> length (vb_data ?b)"
    using slot_room[OF assms(1,2)] assms(3) by simp
  then have "put (put (vb_data ?b) (?i * 256) (encode_record_header pad (r_header r)))
      (?i * 256 + 24) (r_data r) = put (vb_data ?b) (?i * 256) (slot_image pad r)"
    using put_put_adjacent[of "?i * 256" "encode_record_header pad (r_header r)" "r_data r" "vb_data ?b"]
    by (simp add: slot_image_def)
  with assms(4) room show ?thesis
    by (simp add: reservation_write_def slot_ptr[OF assms(1,2)] in_data_def Let_def
        RecordHeader_SIZE_def filled_def)
qed

text \<open>Committing or dropping a reservation whose slot is not reserved changes nothing.\<close>

lemma drop_no_effect:
  assumes "vinv (buf_at (res_buffer res) m)"
    and "unat (res_slot_idx res) < unat (vb_capacity (buf_at (res_buffer res) m))"
    and "state_of (vb_slots (buf_at (res_buffer res) m) ! unat (res_slot_idx res)) \<noteq> Reserved"
  shows "reservation_drop res m = (Ok (), m)"
  using assms vinv_facts(3)[OF assms(1)] vinv_slot_ok[OF assms(1,2)]
  by (simp add: reservation_drop_def try_transition_ok Let_def)

lemma commit_no_effect:
  assumes "vinv (buf_at (res_buffer res) m)"
    and "unat (res_slot_idx res) < unat (vb_capacity (buf_at (res_buffer res) m))"
    and "state_of (vb_slots (buf_at (res_buffer res) m) ! unat (res_slot_idx res)) \<noteq> Reserved"
  shows "reservation_commit res m = (Ok (), m)"
  using assms vinv_facts(3)[OF assms(1)] vinv_slot_ok[OF assms(1,2)] drop_no_effect[OF assms]
  by (simp add: reservation_commit_def try_transition_ok Let_def)

text \<open>Committing a reservation whose slot is reserved publishes it.\<close>

lemma commit_publishes:
  assumes "vinv (buf_at (res_buffer res) m)" and "res_buffer res < length (mem_bufs m)"
    and "unat (res_slot_idx res) < unat (vb_capacity (buf_at (res_buffer res) m))"
    and "state_of (vb_slots (buf_at (res_buffer res) m) ! unat (res_slot_idx res)) = Reserved"
    and "\<not> res_committed res"
  shows "reservation_commit res m = (Ok (), notify_consumer (res_buffer res)
     (set_buf (res_buffer res)
       (committed (res_seq res) (unat (res_slot_idx res)) (buf_at (res_buffer res) m)) m))"
  using assms vinv_facts(3)[OF assms(1)] vinv_slot_ok[OF assms(1,3)]
  by (simp add: reservation_commit_def reservation_drop_def try_transition_ok committed_def Let_def)

section \<open>Writing\<close>

lemma reserved_mem_simps [simp]:
  "length (mem_bufs (reserved_mem a m)) = Suc (length (mem_bufs m))"
  "mem_signals (reserved_mem a m) = mem_signals m"
  "a < length (mem_bufs m) \<Longrightarrow> buf_at a (reserved_mem a m) = claimed (buf_at a m)"
  "c < length (mem_bufs m) \<Longrightarrow> c \<noteq> a \<Longrightarrow> buf_at c (reserved_mem a m) = buf_at c m"
  "buf_at (length (mem_bufs m)) (reserved_mem a m) = empty_like (buf_at a m)"
  by (simp_all add: reserved_mem_def buf_at_def nth_append)

lemma new_reservation_simps [simp]:
  "res_buffer (new_reservation sz a m) = length (mem_bufs m)"
  "res_size (new_reservation sz a m) = sz + 24"
  "res_committed (new_reservation sz a m) = False"
  "vinv (buf_at a m) \<Longrightarrow> unat (res_slot_idx (new_reservation sz a m)) = prod_idx (buf_at a m)"
  by (simp_all add: new_reservation_def Let_def prod_idx_physical)

text \<open>The store after a direct write: the record went to the copy the reservation refers to.\<close>

definition lost_mem :: "u32 \<Rightarrow> log_record \<Rightarrow> addr \<Rightarrow> mem \<Rightarrow> mem" where
  "lost_mem pad r a m = set_buf (length (mem_bufs m))
     (filled pad r (prod_idx (buf_at a m)) (empty_like (buf_at a m))) (reserved_mem a m)"

lemma fill_reserved:
  assumes "vinv (buf_at a m)" and "length (r_data r) \<le> 232" and "word_of_nat (length (r_data r)) \<le> sz"
  shows "fill_and_commit pad r (new_reservation sz a m) (reserved_mem a m) = (Ok (), lost_mem pad r a m)"
proof -
  let ?c = "filled pad r (prod_idx (buf_at a m)) (empty_like (buf_at a m))"
  let ?res = "new_reservation sz a m"
  have idx: "prod_idx (buf_at a m) < unat (vb_capacity (buf_at a m))" by (rule prod_idx_less[OF assms(1)])
  have "reservation_write pad (r_header r) (r_data r) ?res (reserved_mem a m) = (Ok (), lost_mem pad r a m)"
    using assms idx empty_like_inv[OF assms(1)]
    by (subst reservation_write_eq) (simp_all add: lost_mem_def)
  moreover have "reservation_commit ?res (lost_mem pad r a m) = (Ok (), lost_mem pad r a m)"
    using assms idx filled_inv[OF empty_like_inv[OF assms(1)], of "prod_idx (buf_at a m)" r pad]
    by (intro commit_no_effect) (simp_all add: lost_mem_def)
  ultimately show ?thesis by (simp add: fill_and_commit_def)
qed

definition queued :: "log_record \<Rightarrow> vrb \<Rightarrow> vrb" where
  "queued r b = b\<lparr>vb_overflow_queue := enqueue_overflow (vb_max_overflow b) r (vb_overflow_queue b)\<rparr>"

lemma vrb_write_eq:
  assumes "vinv (buf_at a m)" and "length (r_data r) \<le> 232"
  shows "vrb_write pad r a m =
     (if full (buf_at a m) then (Ok False, set_buf a (queued r (buf_at a m)) m)
      else (Ok True, lost_mem pad r a m))"
  using reserve_eq[OF assms(1) data_fits(1)[OF assms(2)], of 0 False] fill_reserved[OF assms order_refl, of pad]
  by (simp add: vrb_write_def queued_def Let_def del: reserve.simps)

section \<open>Usage\<close>

lemma f32_of_usize_exact:
  assumes "unat n < 2 ^ 24" shows "f32_of_usize n = Fin (of_nat (unat n))"
  unfolding f32_of_usize_def by (rule round_f32_exact[OF _ assms, of _ 0]) simp_all

lemma f32_of_usize_power:
  assumes "k < 64" shows "f32_of_usize (2 ^ k) = Fin (2 ^ k)"
proof -
  have "of_nat (unat (2 ^ k :: usize)) = (of_nat 1 :: rat) * pow2 (int k)"
    by (simp add: unat_power_of_two[OF assms])
  then have "round_f32 (of_nat (unat (2 ^ k :: usize))) = Fin (of_nat (unat (2 ^ k :: usize)))"
    by (rule round_f32_exact) (use assms in simp_all)
  then show ?thesis by (simp add: f32_of_usize_def unat_power_of_two[OF assms])
qed

definition used_slots :: "vrb \<Rightarrow> nat" where
  "used_slots b = unat (ai_value (vb_prod_seq b) - ai_value (vb_cons_seq b))"

lemma usage_percent_alt:
  "usage_percent b = f32_mul (f32_div (f32_of_usize (word_of_nat (used_slots b)))
     (f32_of_usize (vb_capacity b))) (Fin 100)"
  by (simp add: usage_percent_def used_slots_def ai_load_def)

lemma usage_percent_exact:
  assumes "vinv b" and "used_slots b * 100 < 2 ^ 24"
  shows "usage_percent b = Fin (100 * of_nat (used_slots b) / of_nat (unat (vb_capacity b)))"
proof -
  let ?u = "used_slots b"
  obtain k where k: "k < 64" "vb_capacity b = 2 ^ k"
    using vinv_facts(9)[OF assms(1)] by (auto simp: is_power_of_two_iff)
  have u: "unat (word_of_nat ?u :: usize) = ?u" by (simp add: used_slots_def)
  have used: "f32_of_usize (word_of_nat ?u) = Fin (of_nat ?u)"
    using f32_of_usize_exact[of "word_of_nat ?u"] assms(2) u by simp
  have cap: "f32_of_usize (vb_capacity b) = Fin (2 ^ k)" using k f32_of_usize_power by simp
  have "round_f32 (of_nat ?u / 2 ^ k) = Fin (of_nat ?u / 2 ^ k)"
    by (rule round_f32_exact[of _ ?u "- int k"])
       (use k assms(2) in \<open>simp_all add: power_int_minus divide_inverse\<close>)
  moreover have "round_f32 (of_nat ?u / 2 ^ k * 100) = Fin (of_nat ?u / 2 ^ k * 100)"
    by (rule round_f32_exact[of _ "?u * 100" "- int k"])
       (use k assms(2) in \<open>simp_all add: power_int_minus divide_inverse\<close>)
  ultimately show ?thesis
    using k(1) unfolding usage_percent_alt used cap
    by (simp add: k(2) unat_power_of_two mult.commute)
qed

lemma round_f32_100: "round_f32 100 = Fin 100" and round_f32_1: "round_f32 1 = Fin 1"
  and round_f32_0: "round_f32 0 = Fin 0"
  by (rule round_f32_exact[of _ 100 0], simp_all)
     (rule round_f32_exact[of _ 1 0], simp_all, rule round_f32_exact[of _ 0 0], simp_all)

lemma usage_percent_range:
  assumes "vinv b" and "used_slots b \<le> unat (vb_capacity b)"
  shows "\<exists>x. usage_percent b = Fin x \<and> 0 \<le> x \<and> x \<le> 100"
    and "used_slots b = 0 \<Longrightarrow> usage_percent b = Fin 0"
    and "used_slots b = unat (vb_capacity b) \<Longrightarrow> usage_percent b = Fin 100"
proof -
  let ?u = "used_slots b"
  obtain k where k: "k < 64" "vb_capacity b = 2 ^ k"
    using vinv_facts(9)[OF assms(1)] by (auto simp: is_power_of_two_iff)
  have u: "unat (word_of_nat ?u :: usize) = ?u" by (simp add: used_slots_def)
  have cap: "f32_of_usize (vb_capacity b) = Fin (2 ^ k)" "unat (vb_capacity b) = 2 ^ k"
    using k f32_of_usize_power by (simp_all add: unat_power_of_two)
  then have exact: "round_f32 (2 ^ k) = Fin (2 ^ k)" by (simp add: f32_of_usize_def)
  have "(of_nat ?u :: rat) \<le> of_nat (2 ^ k)" using assms(2) cap(2) by (simp only: of_nat_le_iff)
  then obtain y where y: "round_f32 (of_nat ?u) = Fin y" "0 \<le> y" "y \<le> 2 ^ k"
    using round_f32_between[of "of_nat ?u" "2 ^ k"] exact by auto
  have "y / 2 ^ k \<le> 1" using y(3) by simp
  then obtain z where z: "round_f32 (y / 2 ^ k) = Fin z" "0 \<le> z" "z \<le> 1"
    using round_f32_between[of "y / 2 ^ k" 1] y(2) round_f32_1 by auto
  obtain x where x: "round_f32 (z * 100) = Fin x" "0 \<le> x" "x \<le> 100"
    using round_f32_between[of "z * 100" 100] z round_f32_100 by auto
  have "f32_of_usize (word_of_nat ?u) = Fin y" using y(1) by (simp add: f32_of_usize_def u)
  then have eq: "usage_percent b = Fin x"
    unfolding usage_percent_alt cap(1) by (simp add: z(1) x(1))
  then show "\<exists>x. usage_percent b = Fin x \<and> 0 \<le> x \<and> x \<le> 100" using x by blast
  show "usage_percent b = Fin 0" if "?u = 0"
    using usage_percent_exact[OF assms(1)] that by simp
  show "usage_percent b = Fin 100" if "?u = unat (vb_capacity b)"
  proof -
    have "y = 2 ^ k" using y(1) that cap(2) exact by simp
    then have "z = 1" using z(1) round_f32_1 by simp
    then show ?thesis using eq x(1) round_f32_100 by simp
  qed
qed

end
