(* ===== verification/Volatile_Fifo.thy ===== *)
theory Volatile_Fifo
  imports Volatile_Log
begin

text \<open>
  The slot protocol as a bounded queue. A slot is addressed by its sequence number; a
  buffer \<open>holds\<close> a list of records when the slots from the consumer's to the producer's
  sequence number are ready and store these records. Reading returns them in order and
  frees their slots; a reservation that refers to the buffer it was taken from appends
  one when it is committed. Reservations of the code refer to a copy instead, so the second half
  is the protocol that the slots are made for, not a path of the program.
\<close>

section \<open>Slots by sequence number\<close>

definition ring_idx :: "vrb \<Rightarrow> usize \<Rightarrow> nat" where
  "ring_idx b s = unat s mod unat (vb_capacity b)"

definition slot_at :: "vrb \<Rightarrow> usize \<Rightarrow> slot" where
  "slot_at b s = vb_slots b ! ring_idx b s"

definition ready_at :: "vrb \<Rightarrow> usize \<Rightarrow> bool" where
  "ready_at b s \<longleftrightarrow> state_of (slot_at b s) = Ready \<and> seq_of (slot_at b s) = s"

definition record_at :: "vrb \<Rightarrow> usize \<Rightarrow> log_record" where
  "record_at b s =
     (let p = ring_idx b s * 256; h = decode_record_header (subslice (vb_data b) p 24) in
      \<lparr>r_header = h, r_data = subslice (vb_data b) (p + 24) (unat (rh_size h))\<rparr>)"

definition intact :: "hasher \<Rightarrow> log_record \<Rightarrow> bool" where
  "intact crc r \<longleftrightarrow> rh_verify_crc crc (r_header r) (r_data r)"

definition fits_slot :: "log_record \<Rightarrow> bool" where
  "fits_slot r \<longleftrightarrow> unat (rh_size (r_header r)) = length (r_data r) \<and> length (r_data r) \<le> 232"

definition stores :: "vrb \<Rightarrow> usize \<Rightarrow> log_record list \<Rightarrow> bool" where
  "stores b s rs \<longleftrightarrow>
     (\<forall>j<length rs. ready_at b (s + word_of_nat j) \<and> record_at b (s + word_of_nat j) = rs ! j \<and>
        unat (rh_size (r_header (rs ! j))) \<le> 232)"

lemma ring_idx_less: "vinv b \<Longrightarrow> ring_idx b s < unat (vb_capacity b)"
  using vinv_facts(11)[of b] by (simp add: ring_idx_def)

lemma ring_idx_add:
  assumes "vinv b"
  shows "ring_idx b (s + word_of_nat n) = (unat s + n) mod unat (vb_capacity b)"
  using physical_index_add[OF vinv_facts(2)[OF assms], of s n]
  by (simp add: ring_idx_def unat_physical_index[OF vinv_facts(2)[OF assms]])

lemma ring_idx_distinct:
  assumes "vinv b" and "i < j" and "j < i + unat (vb_capacity b)"
  shows "ring_idx b (s + word_of_nat i) \<noteq> ring_idx b (s + word_of_nat j)"
proof
  assume "ring_idx b (s + word_of_nat i) = ring_idx b (s + word_of_nat j)"
  then have "(unat s + j) mod unat (vb_capacity b) = (unat s + i) mod unat (vb_capacity b)"
    by (simp add: ring_idx_add[OF assms(1)])
  then have "unat (vb_capacity b) dvd (unat s + j) - (unat s + i)"
    using assms(2) by (subst (asm) mod_eq_dvd_iff_nat) simp_all
  then have "unat (vb_capacity b) \<le> j - i" using assms(2) by (auto dest: dvd_imp_le)
  with assms(2,3) show False by simp
qed

lemma ring_idx_surj:
  assumes "vinv b" and "i < unat (vb_capacity b)"
  obtains j where "j < unat (vb_capacity b)" "i = ring_idx b (s + word_of_nat j)"
proof -
  let ?c = "unat (vb_capacity b)"
  let ?j = "(i + ?c - unat s mod ?c) mod ?c"
  have c: "0 < ?c" by (rule vinv_facts(11)[OF assms(1)])
  have "(unat s + ?j) mod ?c = (unat s mod ?c + (i + ?c - unat s mod ?c)) mod ?c"
    by (simp add: mod_simps)
  also have "unat s mod ?c + (i + ?c - unat s mod ?c) = i + ?c"
    using c by (simp add: less_imp_le trans_le_add2)
  finally have "i = ring_idx b (s + word_of_nat ?j)" using assms by (simp add: ring_idx_add)
  with c show thesis by (intro that[of ?j]) simp_all
qed

section \<open>Freeing a run of slots\<close>

definition freed :: "usize \<Rightarrow> vrb \<Rightarrow> vrb" where
  "freed s b = b\<lparr>vb_slots := (vb_slots b)[ring_idx b s := set_state Empty (slot_at b s)]\<rparr>"

fun freed_run :: "nat \<Rightarrow> usize \<Rightarrow> vrb \<Rightarrow> vrb" where
  "freed_run 0 s b = b"
| "freed_run (Suc n) s b = freed_run n (s + 1) (freed s b)"

lemma freed_simps [simp]:
  "vb_capacity (freed s b) = vb_capacity b" "vb_data (freed s b) = vb_data b"
  "vb_cons_seq (freed s b) = vb_cons_seq b" "vb_prod_seq (freed s b) = vb_prod_seq b"
  "vb_overflow_queue (freed s b) = vb_overflow_queue b"
  "vb_consumer_signal (freed s b) = vb_consumer_signal b"
  "ring_idx (freed s b) t = ring_idx b t" "record_at (freed s b) t = record_at b t"
  by (simp_all add: freed_def ring_idx_def record_at_def)

lemma freed_run_simps [simp]:
  "vb_capacity (freed_run n s b) = vb_capacity b" "vb_data (freed_run n s b) = vb_data b"
  "vb_cons_seq (freed_run n s b) = vb_cons_seq b" "vb_prod_seq (freed_run n s b) = vb_prod_seq b"
  "vb_overflow_queue (freed_run n s b) = vb_overflow_queue b"
  "vb_consumer_signal (freed_run n s b) = vb_consumer_signal b"
  "ring_idx (freed_run n s b) t = ring_idx b t"
  by (induction n arbitrary: s b) simp_all

lemma freed_inv: "vinv b \<Longrightarrow> vinv (freed s b)"
  using set_update_subset_insert[of "vb_slots b" "ring_idx b s" "set_state Empty (slot_at b s)"]
  by (auto simp: vinv_def freed_def)

lemma freed_run_inv: "vinv b \<Longrightarrow> vinv (freed_run n s b)"
  by (induction n arbitrary: s b) (simp_all add: freed_inv)

lemma slot_at_freed:
  "vinv b \<Longrightarrow> slot_at (freed s b) t =
     (if ring_idx b t = ring_idx b s then set_state Empty (slot_at b s) else slot_at b t)"
  using ring_idx_less[of b s] vinv_facts(3)[of b]
  by (simp add: slot_at_def) (simp add: freed_def nth_list_update slot_at_def)

lemma set_state_twice [simp]: "set_state x (set_state y sl) = set_state x sl"
  by (simp add: set_state_def)

lemma slot_at_cong: "ring_idx b s = ring_idx b t \<Longrightarrow> slot_at b s = slot_at b t"
  by (simp add: slot_at_def)

text \<open>Which slots a run frees: the \<open>n\<close> slots from \<open>s\<close> on, and no other.\<close>

lemma slot_at_freed_run:
  "vinv b \<Longrightarrow> slot_at (freed_run n s b) t =
     (if \<exists>i<n. ring_idx b (s + word_of_nat i) = ring_idx b t then set_state Empty (slot_at b t)
      else slot_at b t)"
proof (induction n arbitrary: s b)
  case (Suc n)
  have "slot_at (freed_run (Suc n) s b) t =
      (if \<exists>i<n. ring_idx b (s + 1 + word_of_nat i) = ring_idx b t
       then set_state Empty (slot_at (freed s b) t) else slot_at (freed s b) t)"
    using Suc.IH[OF freed_inv[OF Suc.prems]] by simp
  then show ?case
    using slot_at_cong[of b t s]
    by (auto simp: slot_at_freed[OF Suc.prems] Ex_less_Suc2 add.assoc)
qed simp

lemma slot_at_freed_run_index:
  assumes "vinv b" and "n \<le> unat (vb_capacity b)" and "j < unat (vb_capacity b)"
  shows "slot_at (freed_run n s b) (s + word_of_nat j) =
     (if j < n then set_state Empty (slot_at b (s + word_of_nat j)) else slot_at b (s + word_of_nat j))"
proof (cases "j < n")
  case False
  then have "ring_idx b (s + word_of_nat i) \<noteq> ring_idx b (s + word_of_nat j)" if "i < n" for i
    using that assms by (intro ring_idx_distinct) simp_all
  then show ?thesis using False by (auto simp: slot_at_freed_run[OF assms(1)])
qed (auto simp: slot_at_freed_run[OF assms(1)])

section \<open>Reading\<close>

lemma read_slots_stop:
  assumes "vinv b" and "\<not> ready_at b s"
  shows "read_slots crc k s p rs b = (Ok (rs, s, p), b)"
  using assms ring_idx_less[OF assms(1), of s] vinv_facts(3)[OF assms(1)]
    unat_physical_index[OF vinv_facts(2)[OF assms(1)], of s]
  by (cases k) (auto simp: Let_def ready_at_def slot_at_def ring_idx_def)

lemma read_slots_step:
  assumes "vinv b" and "ready_at b s" and "unat (rh_size (r_header (record_at b s))) \<le> 232"
  shows "read_slots crc (Suc k) s p rs b =
     read_slots crc k (s + 1) (Suc p)
       (if intact crc (record_at b s) then rs @ [record_at b s] else rs) (freed s b)"
proof -
  have idx: "unat (physical_index (vb_cons_seq b) s) = ring_idx b s"
    using unat_physical_index[OF vinv_facts(2)[OF assms(1)], of s] by (simp add: ring_idx_def)
  have less: "ring_idx b s < unat (vb_capacity b)" by (rule ring_idx_less[OF assms(1)])
  have ptr: "unat (get_slot_data_ptr (physical_index (vb_cons_seq b) s) b) = ring_idx b s * 256"
    using slot_ptr[OF assms(1), of "physical_index (vb_cons_seq b) s"] less idx by simp
  have "in_data b (ring_idx b s * 256) 24"
    "in_data b (ring_idx b s * 256 + 24) (unat (rh_size (r_header (record_at b s))))"
    using slot_room[OF assms(1) less, of 24] slot_room[OF assms(1) less, of 256] assms(3)
    by (simp_all add: in_data_def)
  then show ?thesis
    using assms(2) less vinv_facts(3)[OF assms(1)]
    by (simp add: Let_def idx ptr ready_at_def slot_at_def record_at_def intact_def freed_def)
qed

lemma ready_at_freed:
  assumes "vinv b" and "ready_at (freed s b) t"
  shows "ready_at b t"
  using assms by (auto simp: ready_at_def slot_at_freed split: if_splits)

lemma stores_step:
  assumes "vinv b" and "stores b s (r # rs)" and "length rs < unat (vb_capacity b)"
  shows "ready_at b s" "record_at b s = r" "unat (rh_size (r_header r)) \<le> 232"
    and "stores (freed s b) (s + 1) rs"
proof -
  have all: "ready_at b (s + word_of_nat j) \<and> record_at b (s + word_of_nat j) = (r # rs) ! j \<and>
      unat (rh_size (r_header ((r # rs) ! j))) \<le> 232" if "j < Suc (length rs)" for j
    using assms(2) that by (simp add: stores_def)
  show "ready_at b s" "record_at b s = r" "unat (rh_size (r_header r)) \<le> 232"
    using all[of 0] by simp_all
  have "ready_at (freed s b) (s + 1 + word_of_nat j) \<and>
      record_at (freed s b) (s + 1 + word_of_nat j) = rs ! j \<and>
      unat (rh_size (r_header (rs ! j))) \<le> 232" if "j < length rs" for j
  proof -
    have "ring_idx b (s + word_of_nat 0) \<noteq> ring_idx b (s + word_of_nat (Suc j))"
      using that assms(1,3) by (intro ring_idx_distinct) simp_all
    then show ?thesis
      using all[of "Suc j"] that by (simp add: ready_at_def slot_at_freed[OF assms(1)] add.assoc)
  qed
  then show "stores (freed s b) (s + 1) rs" by (simp add: stores_def)
qed

lemma read_slots_stores:
  assumes "vinv b" and "stores b s rs" and "length rs \<le> k" and "k \<le> unat (vb_capacity b)"
    and "length rs = k \<or> \<not> ready_at b (s + word_of_nat (length rs))"
  shows "read_slots crc k s p acc b =
     (Ok (acc @ filter (intact crc) rs, s + word_of_nat (length rs), p + length rs),
      freed_run (length rs) s b)"
  using assms
proof (induction rs arbitrary: k s p acc b)
  case Nil
  then show ?case by (cases k) (simp_all add: read_slots_stop del: read_slots.simps(2))
next
  case (Cons r rs)
  obtain l where k: "k = Suc l" using Cons.prems(3) by (cases k) auto
  note st = stores_step[OF Cons.prems(1,2)]
  have less: "length rs < unat (vb_capacity b)" using Cons.prems(3,4) by simp
  have "length rs = l \<or> \<not> ready_at (freed s b) (s + 1 + word_of_nat (length rs))"
    using Cons.prems(5) ready_at_freed[OF Cons.prems(1)] k by (auto simp: add.assoc)
  then have "read_slots crc l (s + 1) (Suc p) (if intact crc r then acc @ [r] else acc) (freed s b) =
     (Ok ((if intact crc r then acc @ [r] else acc) @ filter (intact crc) rs,
        s + 1 + word_of_nat (length rs), Suc p + length rs), freed_run (length rs) (s + 1) (freed s b))"
    using Cons.prems(3,4) k st(4)[OF less]
    by (intro Cons.IH freed_inv[OF Cons.prems(1)]) simp_all
  then show ?case
    using read_slots_step[OF Cons.prems(1) st(1)[OF less], of crc l p acc] st(2,3)[OF less]
    by (cases "intact crc r") (simp_all add: k add.assoc del: read_slots.simps)
qed

section \<open>A buffer as a queue\<close>

definition holds :: "vrb \<Rightarrow> log_record list \<Rightarrow> bool" where
  "holds b rs \<longleftrightarrow> vinv b \<and> length rs \<le> unat (vb_capacity b) \<and>
     ai_value (vb_prod_seq b) = ai_value (vb_cons_seq b) + word_of_nat (length rs) \<and>
     stores b (ai_value (vb_cons_seq b)) rs \<and>
     (\<forall>j. length rs \<le> j \<and> j < unat (vb_capacity b) \<longrightarrow>
        state_of (slot_at b (ai_value (vb_cons_seq b) + word_of_nat j)) = Empty)"

lemma new_vrb_holds:
  assumes "is_power_of_two n" and "unat n * 256 < 2 ^ 63"
  shows "holds (new_vrb n s) []"
proof -
  have "ring_idx (new_vrb n s) t < unat n" for t
    using unat_cap_pos[OF assms(1)] by (simp add: ring_idx_def new_vrb_def)
  then show ?thesis
    using new_vrb_inv[OF assms, of s]
    by (simp add: holds_def stores_def slot_at_def) (simp add: new_vrb_def empty_like_def)
qed

lemma holds_not_full:
  assumes "holds b rs" and "length rs < unat (vb_capacity b)"
  shows "\<not> full b"
proof -
  have "state_of (slot_at b (ai_value (vb_cons_seq b) + word_of_nat (length rs))) = Empty"
    using assms by (simp add: holds_def)
  then show ?thesis using assms(1) by (simp add: holds_def full_def prod_idx_def slot_at_def ring_idx_def)
qed

text \<open>Filling and committing the slot behind the stored ones appends the record.\<close>

definition published :: "u32 \<Rightarrow> log_record \<Rightarrow> vrb \<Rightarrow> vrb" where
  "published pad r b =
     committed (ai_value (vb_prod_seq b)) (prod_idx b) (filled pad r (prod_idx b) (claimed b))"

lemma published_simps [simp]:
  "vb_capacity (published pad r b) = vb_capacity b" "vb_cons_seq (published pad r b) = vb_cons_seq b"
  "ai_value (vb_prod_seq (published pad r b)) = ai_value (vb_prod_seq b) + 1"
  "vb_consumer_signal (published pad r b) = vb_consumer_signal b"
  "vb_overflow_queue (published pad r b) = vb_overflow_queue b"
  "ring_idx (published pad r b) s = ring_idx b s"
  by (simp_all add: published_def committed_def filled_def claimed_def ai_store_def ring_idx_def)

lemma committed_inv: "vinv b \<Longrightarrow> vinv (committed s i b)"
  using set_update_subset_insert[of "vb_slots b" i "set_seq s (set_state Ready (vb_slots b ! i))"]
  by (auto simp: vinv_def committed_def)

lemma published_inv: "vinv b \<Longrightarrow> length (r_data r) \<le> 232 \<Longrightarrow> vinv (published pad r b)"
  unfolding published_def
  by (intro committed_inv filled_inv claimed_inv) (simp_all add: prod_idx_less)

lemma slot_at_published:
  assumes "vinv b"
  shows "slot_at (published pad r b) s =
     (if ring_idx b s = prod_idx b
      then set_seq (ai_value (vb_prod_seq b)) (set_state Ready (slot_at b s)) else slot_at b s)"
proof -
  have "set_state Ready (set_seq n sl) = set_seq n (set_state Ready sl)" for n sl
    by (simp add: set_state_def set_seq_def)
  moreover have "set_seq n (set_seq n sl) = set_seq n sl" for n sl by (simp add: set_seq_def)
  ultimately show ?thesis
    using prod_idx_less[OF assms] vinv_facts(3)[OF assms]
    by (simp add: slot_at_def) (simp add: published_def committed_def claimed_def)
qed

lemma data_published: "vb_data (published pad r b) = put (vb_data b) (prod_idx b * 256) (slot_image pad r)"
  by (simp add: published_def committed_def filled_def)

lemma record_at_published_same:
  assumes "vinv b" and "fits_slot r" and "ring_idx b s = prod_idx b"
  shows "record_at (published pad r b) s = r"
proof -
  let ?p = "prod_idx b * 256" and ?d = "vb_data (published pad r b)"
  have room: "?p + length (slot_image pad r) \<le> length (vb_data b)"
    using slot_room[OF assms(1) prod_idx_less[OF assms(1)]] assms(2) by (simp add: fits_slot_def)
  have "subslice ?d ?p (24 + length (r_data r)) = slot_image pad r"
    using slice_put_same[OF room] by (simp add: data_published)
  then have "subslice ?d ?p 24 @ subslice ?d (?p + 24) (length (r_data r)) =
      encode_record_header pad (r_header r) @ r_data r"
    by (simp add: slice_append slot_image_def)
  moreover have "length (subslice ?d ?p 24) = 24"
    using room by (intro length_slice) (simp add: data_published)
  ultimately have "subslice ?d ?p 24 = encode_record_header pad (r_header r)"
    "subslice ?d (?p + 24) (length (r_data r)) = r_data r"
    by (simp_all add: append_eq_append_conv)
  then show ?thesis using assms(2,3) by (simp add: record_at_def fits_slot_def Let_def)
qed

lemma record_at_published_other:
  assumes "vinv b" and "length (r_data r) \<le> 232" and "ring_idx b s \<noteq> prod_idx b"
    and "unat (rh_size (r_header (record_at b s))) \<le> 232"
  shows "record_at (published pad r b) s = record_at b s"
proof -
  let ?p = "prod_idx b * 256" and ?q = "ring_idx b s * 256"
  have room: "?p + length (slot_image pad r) \<le> length (vb_data b)"
    using slot_room[OF assms(1) prod_idx_less[OF assms(1)]] assms(2) by simp
  have apart: "?q + 256 \<le> ?p \<or> ?p + 256 \<le> ?q"
    using assms(3) by (metis add_mult_distrib2 linorder_neqE_nat mult.commute mult_le_mono1
        mult_1_right not_less_eq_eq Suc_leI mult_Suc add.commute)
  have same: "subslice (put (vb_data b) ?p (slot_image pad r)) (?q + k) n = subslice (vb_data b) (?q + k) n"
    if "k + n \<le> 256" for k n
    using apart that room assms(2) slice_put_before[of "?q + k" n ?p "slot_image pad r" "vb_data b"]
      slice_put_after[of ?p "slot_image pad r" "?q + k" "vb_data b" n]
    by auto
  show ?thesis
    using same[of 0 24] same[of 24 "unat (rh_size (r_header (record_at b s)))"] assms(4)
    by (simp add: record_at_def data_published Let_def)
qed

lemma holds_published:
  assumes "holds b rs" and "length rs < unat (vb_capacity b)" and "fits_slot r"
  shows "holds (published pad r b) (rs @ [r])"
proof -
  let ?s = "ai_value (vb_cons_seq b)" and ?n = "length rs"
  have inv: "vinv b" and small: "length (r_data r) \<le> 232" "unat (rh_size (r_header r)) \<le> 232"
    using assms(1,3) by (simp_all add: holds_def fits_slot_def)
  have prod_is: "prod_idx b = ring_idx b (?s + word_of_nat ?n)" and
    seq: "ai_value (vb_prod_seq b) = ?s + word_of_nat ?n"
    using assms(1) by (simp_all add: holds_def prod_idx_def ring_idx_def)
  have old: "ready_at b (?s + word_of_nat j) \<and> record_at b (?s + word_of_nat j) = rs ! j \<and>
      unat (rh_size (r_header (rs ! j))) \<le> 232" if "j < ?n" for j
    using assms(1) that by (simp add: holds_def stores_def)
  have away: "ring_idx b (?s + word_of_nat j) \<noteq> prod_idx b" if "j \<noteq> ?n" "j < unat (vb_capacity b)" for j
    using that ring_idx_distinct[OF inv, of j ?n ?s] ring_idx_distinct[OF inv, of ?n j ?s] assms(2)
    by (cases "j < ?n") (auto simp: prod_is)
  have "stores (published pad r b) ?s (rs @ [r])"
    unfolding stores_def
  proof (intro allI impI)
    fix j assume "j < length (rs @ [r])"
    then consider "j < ?n" | "j = ?n" by fastforce
    then show "ready_at (published pad r b) (?s + word_of_nat j) \<and>
       record_at (published pad r b) (?s + word_of_nat j) = (rs @ [r]) ! j \<and>
       unat (rh_size (r_header ((rs @ [r]) ! j))) \<le> 232"
    proof cases
      case 1
      then show ?thesis
        using old[of j] away[of j] assms(2) record_at_published_other[OF inv small(1), of "?s + word_of_nat j" pad]
        by (simp add: ready_at_def slot_at_published[OF inv] nth_append)
    next
      case 2
      then show ?thesis
        using record_at_published_same[OF inv assms(3)] small
        by (simp add: ready_at_def slot_at_published[OF inv] prod_is seq)
    qed
  qed
  moreover have "state_of (slot_at (published pad r b) (?s + word_of_nat j)) = Empty"
    if "length (rs @ [r]) \<le> j" "j < unat (vb_capacity b)" for j
    using that away[of j] assms(1) by (simp add: slot_at_published[OF inv] holds_def)
  ultimately show ?thesis
    using assms published_inv[OF inv small(1), of pad] by (simp add: holds_def add.assoc)
qed

lemma holds_consumed:
  assumes "holds b rs"
  shows "holds ((freed_run (length rs) (ai_value (vb_cons_seq b)) b)
     \<lparr>vb_cons_seq := ai_store (ai_value (vb_cons_seq b) + word_of_nat (length rs)) (vb_cons_seq b)\<rparr>) []"
proof -
  let ?s = "ai_value (vb_cons_seq b)" and ?n = "length rs"
  let ?f = "freed_run ?n ?s b"
  have inv: "vinv b" and n: "?n \<le> unat (vb_capacity b)" using assms by (simp_all add: holds_def)
  have "state_of (slot_at ?f t) = Empty" for t
  proof -
    obtain j where j: "j < unat (vb_capacity b)" "ring_idx b t = ring_idx b (?s + word_of_nat j)"
      using ring_idx_surj[OF inv ring_idx_less[OF inv, of t]] by metis
    then have "slot_at ?f t = slot_at ?f (?s + word_of_nat j)" by (intro slot_at_cong) simp
    then show ?thesis
      using slot_at_freed_run_index[OF inv n j(1), of ?s] assms j(1) by (simp add: holds_def)
  qed
  then show ?thesis
    using assms freed_run_inv[OF inv, of ?n ?s]
    by (simp add: holds_def stores_def slot_at_def ring_idx_def) (simp add: vinv_def)
qed

lemma read_slots_holds:
  assumes "holds b rs"
  shows "read_slots crc (unat (vb_capacity b)) (ai_value (vb_cons_seq b)) 0 [] b =
     (Ok (filter (intact crc) rs, ai_value (vb_cons_seq b) + word_of_nat (length rs), length rs),
      freed_run (length rs) (ai_value (vb_cons_seq b)) b)"
proof -
  have "length rs = unat (vb_capacity b) \<or>
      \<not> ready_at b (ai_value (vb_cons_seq b) + word_of_nat (length rs))"
    using assms by (cases "length rs = unat (vb_capacity b)") (auto simp: holds_def ready_at_def)
  then show ?thesis
    using assms read_slots_stores[of b "ai_value (vb_cons_seq b)" rs "unat (vb_capacity b)" crc 0 "[]"]
    by (simp add: holds_def)
qed

section \<open>The contract of a bounded queue\<close>

text \<open>
  What a producer and a consumer rely on: putting an element into a queue that is not full
  appends it, and getting takes all elements out, in order, less those that fail the
  integrity test. The rounds of a session put a batch and get it back.
\<close>

fun rounds ::
  "('r \<Rightarrow> 's \<Rightarrow> 's option) \<Rightarrow> ('s \<Rightarrow> ('r list \<times> 's) option) \<Rightarrow> 'r list list \<Rightarrow> 's \<Rightarrow>
   ('r list \<times> 's) option" where
  "rounds enq deq [] s = Some ([], s)"
| "rounds enq deq (xs # xss) s =
     (case iter_opt enq xs s of
        None \<Rightarrow> None
      | Some t \<Rightarrow>
     (case deq t of
        None \<Rightarrow> None
      | Some (ys, u) \<Rightarrow> (case rounds enq deq xss u of None \<Rightarrow> None | Some (zs, v) \<Rightarrow> Some (ys @ zs, v))))"

locale bounded_fifo =
  fixes content :: "'s \<Rightarrow> 'r list \<Rightarrow> bool"
    and bound :: nat
    and admissible :: "'r \<Rightarrow> bool"
    and valid :: "'r \<Rightarrow> bool"
    and enq :: "'r \<Rightarrow> 's \<Rightarrow> 's option"
    and deq :: "'s \<Rightarrow> ('r list \<times> 's) option"
  assumes enq_appends: "content s xs \<Longrightarrow> length xs < bound \<Longrightarrow> admissible x \<Longrightarrow>
      \<exists>t. enq x s = Some t \<and> content t (xs @ [x])"
    and deq_drains: "content s xs \<Longrightarrow> \<exists>t. deq s = Some (filter valid xs, t) \<and> content t []"
begin

lemma enq_all:
  "content s xs \<Longrightarrow> length xs + length ys \<le> bound \<Longrightarrow> \<forall>y\<in>set ys. admissible y \<Longrightarrow>
   \<exists>t. iter_opt enq ys s = Some t \<and> content t (xs @ ys)"
proof (induction ys arbitrary: s xs)
  case (Cons y ys)
  then obtain t where "enq y s = Some t" "content t (xs @ [y])"
    using enq_appends[of s xs y] by auto
  with Cons.IH[of t "xs @ [y]"] Cons.prems show ?case by auto
qed simp

lemma rounds_in_order:
  "content s [] \<Longrightarrow> \<forall>xs\<in>set xss. length xs \<le> bound \<and> (\<forall>x\<in>set xs. admissible x) \<Longrightarrow>
   \<exists>t. rounds enq deq xss s = Some (filter valid (concat xss), t) \<and> content t []"
proof (induction xss arbitrary: s)
  case (Cons xs xss)
  then obtain t where t: "iter_opt enq xs s = Some t" "content t xs"
    using enq_all[of s "[]" xs] by auto
  then obtain u where u: "deq t = Some (filter valid xs, u)" "content u []"
    using deq_drains by blast
  with t Cons.IH[of u] Cons.prems show ?case by auto
qed simp

end

text \<open>
  The volatile buffer at address \<open>a\<close> as such a queue, for reservations that refer to the
  buffer they were taken from. \<open>publish\<close> claims a slot, fills it and commits it through such a
  reservation, which \<open>reserve\<close> never gives out; it serves to make stores with ready slots.
\<close>

definition publish :: "u32 \<Rightarrow> addr \<Rightarrow> log_record \<Rightarrow> mem \<Rightarrow> mem option" where
  "publish pad a r m =
     (case reserve_spin False 0 (buf_at a m) of
        (Ok (Claimed i s), b) \<Rightarrow>
          (case fill_and_commit pad r
             \<lparr>res_slot_idx = i, res_seq = s, res_size = word_of_nat (length (r_data r)) + 24,
              res_buffer = a, res_committed = False\<rparr> (set_buf a b m) of
             (Ok _, m') \<Rightarrow> Some m' | _ \<Rightarrow> None)
      | _ \<Rightarrow> None)"

definition consume :: "hasher \<Rightarrow> u32 \<Rightarrow> addr \<Rightarrow> mem \<Rightarrow> (log_record list \<times> mem) option" where
  "consume crc pad a m =
     (case vrb_read crc pad a m of (Ok rs, m') \<Rightarrow> Some (rs, m') | _ \<Rightarrow> None)"

definition fifo_at :: "addr \<Rightarrow> usize \<Rightarrow> mem \<Rightarrow> log_record list \<Rightarrow> bool" where
  "fifo_at a cap m rs \<longleftrightarrow> a < length (mem_bufs m) \<and> holds (buf_at a m) rs \<and>
     vb_capacity (buf_at a m) = cap \<and> vb_overflow_queue (buf_at a m) = []"

lemma buf_at_notify [simp]: "buf_at c (notify_consumer a m) = buf_at c m"
  by (simp add: buf_at_def notify_consumer_def)

lemma publish_eq:
  assumes "fifo_at a cap m rs" and "length rs < unat cap" and "fits_slot r"
  shows "publish pad a r m =
     Some (notify_consumer a (set_buf a (published pad r (buf_at a m)) m))"
proof -
  let ?b = "buf_at a m"
  let ?res = "\<lparr>res_slot_idx = physical_index (vb_prod_seq ?b) (ai_value (vb_prod_seq ?b)),
     res_seq = ai_value (vb_prod_seq ?b), res_size = word_of_nat (length (r_data r)) + 24,
     res_buffer = a, res_committed = False\<rparr>"
  let ?m1 = "set_buf a (claimed ?b) m" and ?f = "filled pad r (prod_idx ?b) (claimed ?b)"
  have inv: "vinv ?b" and a: "a < length (mem_bufs m)" and small: "length (r_data r) \<le> 232"
    using assms by (simp_all add: fifo_at_def holds_def fits_slot_def)
  have "\<not> full ?b" using holds_not_full[of ?b rs] assms by (simp add: fifo_at_def)
  then have spin: "reserve_spin False 0 ?b = (Ok (Claimed (res_slot_idx ?res) (res_seq ?res)), claimed ?b)"
    using reserve_spin_claims[OF inv] by simp
  have idx: "unat (res_slot_idx ?res) = prod_idx ?b" "prod_idx ?b < unat (vb_capacity ?b)"
    using prod_idx_physical[OF inv] prod_idx_less[OF inv] by simp_all
  have w: "reservation_write pad (r_header r) (r_data r) ?res ?m1 = (Ok (), set_buf a ?f m)"
    using a inv idx small claimed_inv[OF inv] by (subst reservation_write_eq) simp_all
  have "state_of (vb_slots (claimed ?b) ! prod_idx ?b) = Reserved"
    using idx(2) vinv_facts(3)[OF inv] by (simp add: claimed_def)
  then have "reservation_commit ?res (set_buf a ?f m)
      = (Ok (), notify_consumer a (set_buf a (published pad r ?b) m))"
    using a inv idx small filled_inv[OF claimed_inv[OF inv], of "prod_idx ?b" r pad]
    by (subst commit_publishes) (simp_all add: published_def)
  with spin w show ?thesis by (simp add: publish_def fill_and_commit_def)
qed

lemma consume_eq:
  assumes "fifo_at a cap m rs"
  shows "consume crc pad a m = Some (filter (intact crc) rs, set_buf a
     ((freed_run (length rs) (ai_value (vb_cons_seq (buf_at a m))) (buf_at a m))
       \<lparr>vb_cons_seq := ai_store (ai_value (vb_cons_seq (buf_at a m)) + word_of_nat (length rs))
          (vb_cons_seq (buf_at a m))\<rparr>) m)"
  using assms read_slots_holds[of "buf_at a m" rs crc]
  by (cases "rs = []")
     (simp_all add: consume_def vrb_read_def fifo_at_def ai_load_def Let_def ai_store_def)

interpretation slots: bounded_fifo "fifo_at a cap" "unat cap" fits_slot "intact crc"
  "publish pad a" "consume crc pad a" for a cap crc pad
proof
  fix m rs r
  assume h: "fifo_at a cap m rs" "length rs < unat cap" "fits_slot r"
  show "\<exists>t. publish pad a r m = Some t \<and> fifo_at a cap t (rs @ [r])"
    using h publish_eq[OF h, of pad] holds_published[of "buf_at a m" rs r pad]
    by (auto simp: fifo_at_def) (simp add: notify_consumer_def)
next
  fix m rs
  assume h: "fifo_at a cap m rs"
  show "\<exists>t. consume crc pad a m = Some (filter (intact crc) rs, t) \<and> fifo_at a cap t []"
    using h consume_eq[OF h, of crc pad] holds_consumed[of "buf_at a m" rs]
    by (auto simp: fifo_at_def)
qed

end
