(* ===== verification/Volatile_Safety.thy ===== *)
theory Volatile_Safety
  imports Volatile_Fifo
begin

text \<open>
  What clients can reach through the interface of the volatile buffer. A session is the
  store, the buffers its clients can name (the ones they created or cloned) and the
  reservations they hold. The copies that reservations refer to are not nameable, so
  their slots stay empty and no slot of any buffer ever becomes ready.
\<close>

section \<open>Sessions\<close>

record session =
  ses_mem :: mem
  ses_handles :: "addr set"
  ses_reservations :: "reservation list"

text \<open>
  A session goes on after a call that returned or panicked, not after undefined behaviour.
  A vector holds less than \<open>2 ^ 63\<close> bytes; a buffer of more than \<open>2 ^ 54\<close> slots exceeds the
  limit on the size of its data.
\<close>

inductive vstep :: "hasher \<Rightarrow> u32 \<Rightarrow> session \<Rightarrow> session \<Rightarrow> bool" for crc pad where
  new_step: "unat n \<le> 2 ^ 54 \<Longrightarrow> VolatileRingBuffer_new n (ses_mem s) = (Ok b, m1) \<Longrightarrow>
     arc_new b m1 = (a, m2) \<Longrightarrow>
     vstep crc pad s (s\<lparr>ses_mem := m2, ses_handles := insert a (ses_handles s)\<rparr>)"
| clone_step: "c \<in> ses_handles s \<Longrightarrow> vrb_clone (buf_at c (ses_mem s)) = Ok b \<Longrightarrow>
     arc_new b (ses_mem s) = (a, m2) \<Longrightarrow>
     vstep crc pad s (s\<lparr>ses_mem := m2, ses_handles := insert a (ses_handles s)\<rparr>)"
| reserve_step: "a \<in> ses_handles s \<Longrightarrow>
     reserve frames sz block a (ses_mem s) = (Ok (Some res), m') \<Longrightarrow>
     vstep crc pad s (s\<lparr>ses_mem := m', ses_reservations := res # ses_reservations s\<rparr>)"
| reserve_fails: "a \<in> ses_handles s \<Longrightarrow> reserve frames sz block a (ses_mem s) = (out, m') \<Longrightarrow>
     out \<noteq> Undefined \<Longrightarrow> \<forall>res. out \<noteq> Ok (Some res) \<Longrightarrow> vstep crc pad s (s\<lparr>ses_mem := m'\<rparr>)"
| fill_step: "res \<in> set (ses_reservations s) \<Longrightarrow>
     reservation_write pad header d res (ses_mem s) = (out, m') \<Longrightarrow> out \<noteq> Undefined \<Longrightarrow>
     vstep crc pad s (s\<lparr>ses_mem := m'\<rparr>)"
| commit_step: "res \<in> set (ses_reservations s) \<Longrightarrow>
     reservation_commit res (ses_mem s) = (out, m') \<Longrightarrow> out \<noteq> Undefined \<Longrightarrow>
     vstep crc pad s (s\<lparr>ses_mem := m', ses_reservations := remove1 res (ses_reservations s)\<rparr>)"
| drop_step: "res \<in> set (ses_reservations s) \<Longrightarrow>
     reservation_drop res (ses_mem s) = (out, m') \<Longrightarrow> out \<noteq> Undefined \<Longrightarrow>
     vstep crc pad s (s\<lparr>ses_mem := m', ses_reservations := remove1 res (ses_reservations s)\<rparr>)"
| write_step: "a \<in> ses_handles s \<Longrightarrow> length (r_data r) < 2 ^ 63 \<Longrightarrow>
     vrb_write pad r a (ses_mem s) = (out, m') \<Longrightarrow> out \<noteq> Undefined \<Longrightarrow>
     vstep crc pad s (s\<lparr>ses_mem := m'\<rparr>)"
| read_step: "a \<in> ses_handles s \<Longrightarrow> vrb_read crc pad a (ses_mem s) = (out, m') \<Longrightarrow>
     out \<noteq> Undefined \<Longrightarrow> vstep crc pad s (s\<lparr>ses_mem := m'\<rparr>)"
| wait_step: "a \<in> ses_handles s \<Longrightarrow> wait_for_data t notified a (ses_mem s) = Some (w, m') \<Longrightarrow>
     vstep crc pad s (s\<lparr>ses_mem := m'\<rparr>)"

inductive vreachable :: "hasher \<Rightarrow> u32 \<Rightarrow> session \<Rightarrow> bool" for crc pad where
  start: "vreachable crc pad
     \<lparr>ses_mem = \<lparr>mem_bufs = [], mem_signals = []\<rparr>, ses_handles = {}, ses_reservations = []\<rparr>"
| step: "vreachable crc pad s \<Longrightarrow> vstep crc pad s t \<Longrightarrow> vreachable crc pad t"

section \<open>The invariant of a session\<close>

definition quiet_buf :: "vrb \<Rightarrow> bool" where
  "quiet_buf b \<longleftrightarrow> vinv b \<and> (\<forall>sl\<in>set (vb_slots b). state_of sl = Empty \<or> state_of sl = Reserved)"

definition idle_buf :: "vrb \<Rightarrow> bool" where
  "idle_buf b \<longleftrightarrow> vinv b \<and> (\<forall>sl\<in>set (vb_slots b). state_of sl = Empty)"

definition quiet_mem :: "addr set \<Rightarrow> mem \<Rightarrow> bool" where
  "quiet_mem hs m \<longleftrightarrow> (\<forall>a\<in>hs. a < length (mem_bufs m)) \<and> True \<notin> set (mem_signals m) \<and>
     (\<forall>a<length (mem_bufs m). quiet_buf (buf_at a m) \<and> (a \<notin> hs \<longrightarrow> idle_buf (buf_at a m)) \<and>
        vb_consumer_signal (buf_at a m) < length (mem_signals m))"

definition hidden :: "addr set \<Rightarrow> mem \<Rightarrow> reservation \<Rightarrow> bool" where
  "hidden hs m res \<longleftrightarrow> res_buffer res < length (mem_bufs m) \<and> res_buffer res \<notin> hs \<and>
     unat (res_slot_idx res) < unat (vb_capacity (buf_at (res_buffer res) m))"

definition session_inv :: "session \<Rightarrow> bool" where
  "session_inv s \<longleftrightarrow> quiet_mem (ses_handles s) (ses_mem s) \<and>
     (\<forall>res\<in>set (ses_reservations s). hidden (ses_handles s) (ses_mem s) res)"

lemma idle_quiet: "idle_buf b \<Longrightarrow> quiet_buf b"
  by (simp add: idle_buf_def quiet_buf_def)

lemma quiet_memD:
  assumes "quiet_mem hs m" and "a < length (mem_bufs m)"
  shows "vinv (buf_at a m)" "quiet_buf (buf_at a m)" "a \<notin> hs \<Longrightarrow> idle_buf (buf_at a m)"
    "vb_consumer_signal (buf_at a m) < length (mem_signals m)"
  using assms by (simp_all add: quiet_mem_def quiet_buf_def)

lemma empty_like_idle: "vinv b \<Longrightarrow> idle_buf (empty_like b)"
  by (simp add: idle_buf_def empty_like_inv)

text \<open>Two ways the store changes: one buffer is replaced, or a fresh buffer is added.\<close>

lemma quiet_mem_set:
  assumes "quiet_mem hs m" and "quiet_buf b" and "a \<notin> hs \<Longrightarrow> idle_buf b"
    and "vb_consumer_signal b < length (mem_signals m)"
  shows "quiet_mem hs (set_buf a b m)"
proof -
  have "quiet_buf (buf_at c (set_buf a b m)) \<and> (c \<notin> hs \<longrightarrow> idle_buf (buf_at c (set_buf a b m))) \<and>
      vb_consumer_signal (buf_at c (set_buf a b m)) < length (mem_signals m)"
    if c: "c < length (mem_bufs m)" for c
    using assms(2-4) quiet_memD[OF assms(1) c] c by (cases "c = a") simp_all
  then show ?thesis using assms(1) by (simp add: quiet_mem_def)
qed

lemma quiet_mem_add:
  assumes "quiet_mem hs m" and "idle_buf b" and "vb_consumer_signal b < length (mem_signals m)"
    and "hs \<subseteq> hs'" and "hs' \<subseteq> insert (length (mem_bufs m)) hs"
  shows "quiet_mem hs' (m\<lparr>mem_bufs := mem_bufs m @ [b]\<rparr>)"
proof -
  let ?m = "m\<lparr>mem_bufs := mem_bufs m @ [b]\<rparr>"
  have "quiet_buf (buf_at c ?m) \<and> (c \<notin> hs' \<longrightarrow> idle_buf (buf_at c ?m)) \<and>
      vb_consumer_signal (buf_at c ?m) < length (mem_signals m)"
    if c: "c < Suc (length (mem_bufs m))" for c
  proof (cases "c = length (mem_bufs m)")
    case True
    then show ?thesis using assms(2,3) idle_quiet[OF assms(2)] by (simp add: buf_at_def)
  next
    case False
    then have "c < length (mem_bufs m)" "buf_at c ?m = buf_at c m"
      using c by (simp_all add: buf_at_def nth_append)
    then show ?thesis using quiet_memD[OF assms(1), of c] assms(4) by auto
  qed
  moreover have "a < Suc (length (mem_bufs m))" if "a \<in> hs'" for a
    using that assms(1,5) by (force simp: quiet_mem_def)
  ultimately show ?thesis using assms(1) by (simp add: quiet_mem_def)
qed

lemma claimed_quiet:
  assumes "quiet_buf b" shows "quiet_buf (claimed b)"
proof -
  have "set (vb_slots (claimed b)) \<subseteq> insert (set_seq (ai_value (vb_prod_seq b))
      (set_state Reserved (vb_slots b ! prod_idx b))) (set (vb_slots b))"
    by (simp add: claimed_def set_update_subset_insert)
  then show ?thesis using assms claimed_inv[of b] by (auto simp: quiet_buf_def)
qed

lemma reserved_mem_alt:
  "reserved_mem a m = (set_buf a (claimed (buf_at a m)) m)
     \<lparr>mem_bufs := mem_bufs (set_buf a (claimed (buf_at a m)) m) @ [empty_like (buf_at a m)]\<rparr>"
  by (simp add: reserved_mem_def set_buf_def)

lemma reserved_quiet:
  assumes "quiet_mem hs m" and "a \<in> hs" and "a < length (mem_bufs m)"
  shows "quiet_mem hs (reserved_mem a m)"
proof -
  note b = quiet_memD[OF assms(1,3)]
  have "quiet_mem hs (set_buf a (claimed (buf_at a m)) m)"
    using assms(2) b by (intro quiet_mem_set[OF assms(1)] claimed_quiet) simp_all
  then show ?thesis
    unfolding reserved_mem_alt
    using empty_like_idle[OF b(1)] b(4) by (intro quiet_mem_add[where hs = hs]) auto
qed

section \<open>Every step keeps the invariant\<close>

lemma reserve_cases:
  assumes "quiet_mem hs m" and "a \<in> hs" and "reserve frames sz block a m = (out, m')"
  shows "(m' = m \<and> (\<forall>res. out \<noteq> Ok (Some res))) \<or>
     (out = Ok (Some (new_reservation sz a m)) \<and> m' = reserved_mem a m \<and> sz + 24 \<le> 256)"
  using assms(3)
proof (induction frames)
  case (Suc frames)
  have "vinv (buf_at a m)" using assms(1,2) quiet_memD(1) by (auto simp: quiet_mem_def)
  then show ?case
    using Suc reserve_eq[of a m sz frames block] reserve_too_large[of a m sz frames block]
    by (cases "sz + 24 \<le> 256") (auto split: if_splits simp: not_le simp del: reserve.simps)
qed auto

lemma new_reservation_hidden:
  assumes "quiet_mem hs m" and "a \<in> hs"
  shows "hidden hs (reserved_mem a m) (new_reservation sz a m)"
proof -
  have a: "a < length (mem_bufs m)" using assms by (simp add: quiet_mem_def)
  have "length (mem_bufs m) \<notin> hs" using assms by (auto simp: quiet_mem_def)
  then show ?thesis
    using prod_idx_less quiet_memD(1)[OF assms(1) a] by (simp add: hidden_def)
qed

lemma hidden_mono:
  assumes "hidden hs m res" and "length (mem_bufs m) \<le> length (mem_bufs m')"
    and "\<forall>a<length (mem_bufs m). vb_capacity (buf_at a m') = vb_capacity (buf_at a m)"
  shows "hidden hs m' res"
  using assms by (auto simp: hidden_def)

lemma hidden_reservation:
  assumes "quiet_mem hs m" and "hidden hs m res"
  shows "reservation_drop res m = (Ok (), m)" "reservation_commit res m = (Ok (), m)"
proof -
  let ?b = "buf_at (res_buffer res) m" and ?i = "unat (res_slot_idx res)"
  have b: "res_buffer res < length (mem_bufs m)" "res_buffer res \<notin> hs" "?i < unat (vb_capacity ?b)"
    using assms(2) by (simp_all add: hidden_def)
  have idle: "idle_buf ?b" and inv: "vinv ?b"
    using quiet_memD[OF assms(1) b(1)] b(2) by simp_all
  have "vb_slots ?b ! ?i \<in> set (vb_slots ?b)" using b(3) vinv_facts(3)[OF inv] by simp
  then have "state_of (vb_slots ?b ! ?i) \<noteq> Reserved" using idle by (auto simp: idle_buf_def)
  then show "reservation_drop res m = (Ok (), m)" "reservation_commit res m = (Ok (), m)"
    using drop_no_effect[OF inv b(3)] commit_no_effect[OF inv b(3)] by simp_all
qed

lemma reservation_write_data:
  assumes "reservation_write pad header d res m = (out, m')" and "out \<noteq> Undefined"
    and "res_buffer res < length (mem_bufs m)"
  obtains "m' = m" | data where "length data = length (vb_data (buf_at (res_buffer res) m))"
    "m' = set_buf (res_buffer res) ((buf_at (res_buffer res) m)\<lparr>vb_data := data\<rparr>) m"
proof -
  let ?b = "buf_at (res_buffer res) m"
  let ?p = "unat (get_slot_data_ptr (res_slot_idx res) ?b)"
  let ?d1 = "put (vb_data ?b) ?p (encode_record_header pad header)"
  show thesis
  proof (cases "m' = m")
    case False
    then have fit: "in_data ?b ?p 24" "in_data (?b\<lparr>vb_data := ?d1\<rparr>) (?p + 24) (length d)"
      and m': "m' = set_buf (res_buffer res) (?b\<lparr>vb_data := put ?d1 (?p + 24) d\<rparr>) m"
      using assms(1,2) by (auto simp: reservation_write_def Let_def split: if_splits)
    have "length (put ?d1 (?p + 24) d) = length (vb_data ?b)" using fit by (simp add: in_data_def)
    then show thesis using m' that(2) by blast
  qed (rule that(1))
qed

lemma data_update_quiet:
  "length d = length (vb_data b) \<Longrightarrow> quiet_buf (b\<lparr>vb_data := d\<rparr>) = quiet_buf b"
  "length d = length (vb_data b) \<Longrightarrow> idle_buf (b\<lparr>vb_data := d\<rparr>) = idle_buf b"
  by (simp_all add: quiet_buf_def idle_buf_def vinv_def)

lemma fill_quiet:
  assumes "quiet_mem hs m" and "res_buffer res < length (mem_bufs m)"
    and "reservation_write pad header d res m = (out, m')" and "out \<noteq> Undefined"
  shows "quiet_mem hs m' \<and> length (mem_bufs m') = length (mem_bufs m) \<and>
     (\<forall>a<length (mem_bufs m). vb_capacity (buf_at a m') = vb_capacity (buf_at a m))"
proof -
  let ?b = "buf_at (res_buffer res) m"
  from assms(3,4,2) consider "m' = m" | data where "length data = length (vb_data ?b)"
    "m' = set_buf (res_buffer res) (?b\<lparr>vb_data := data\<rparr>) m"
    by (rule reservation_write_data)
  then show ?thesis
  proof cases
    case 2
    have "quiet_mem hs m'"
      unfolding 2(2)
      using quiet_memD[OF assms(1,2)] data_update_quiet[OF 2(1)]
      by (intro quiet_mem_set[OF assms(1)]) simp_all
    moreover have "vb_capacity (buf_at a m') = vb_capacity (buf_at a m)" for a
      using assms(2) by (cases "a = res_buffer res") (simp_all add: 2(2))
    ultimately show ?thesis using 2(2) by simp
  qed (use assms(1) in simp)
qed

lemma lost_quiet:
  assumes "quiet_mem hs m" and "a \<in> hs" and "a < length (mem_bufs m)" and "length (r_data r) \<le> 232"
  shows "quiet_mem hs (lost_mem pad r a m)"
proof -
  let ?c = "filled pad r (prod_idx (buf_at a m)) (empty_like (buf_at a m))"
  note b = quiet_memD[OF assms(1,3)]
  have "idle_buf ?c"
    using filled_inv[OF empty_like_inv[OF b(1)], of "prod_idx (buf_at a m)" r pad] assms(4)
      prod_idx_less[OF b(1)] by (simp add: idle_buf_def)
  then show ?thesis
    unfolding lost_mem_def
    using b(4) by (intro quiet_mem_set[OF reserved_quiet[OF assms(1-3)]]) (simp_all add: idle_quiet)
qed

lemma enqueue_keeps_last:
  assumes "length q \<le> 1000"
  shows "enqueue_overflow 1000 r q = drop (Suc (length q) - 1000) (q @ [r])"
proof -
  have "(word_of_nat (length q) :: usize) < 1000 \<longleftrightarrow> length q < 1000"
    using assms by (simp add: word_less_nat_alt unat_of_nat_usize)
  then show ?thesis using assms by (cases q) (auto simp: enqueue_overflow_def)
qed

lemma length_enqueue: "length q \<le> 1000 \<Longrightarrow> length (enqueue_overflow 1000 r q) \<le> 1000"
  by (simp add: enqueue_keeps_last)

lemma queued_quiet:
  assumes "quiet_buf b" shows "quiet_buf (queued r b)"
proof -
  have inv: "vinv b" using assms by (simp add: quiet_buf_def)
  show ?thesis
    using assms length_enqueue[OF vinv_facts(10)[OF inv], of r] vinv_facts(8)[OF inv]
    by (simp add: quiet_buf_def vinv_def queued_def)
qed

lemma write_quiet:
  assumes "quiet_mem hs m" and "a \<in> hs" and "length (r_data r) < 2 ^ 63"
    and "vrb_write pad r a m = (out, m')"
  shows "quiet_mem hs m' \<and> length (mem_bufs m) \<le> length (mem_bufs m') \<and>
     (\<forall>c<length (mem_bufs m). vb_capacity (buf_at c m') = vb_capacity (buf_at c m))"
proof -
  let ?b = "buf_at a m"
  have a: "a < length (mem_bufs m)" using assms(1,2) by (simp add: quiet_mem_def)
  note b = quiet_memD[OF assms(1) a]
  show ?thesis
  proof (cases "length (r_data r) \<le> 232")
    case True
    have "quiet_mem hs (set_buf a (queued r ?b) m)"
      using assms(2) b queued_quiet[OF b(2)]
      by (intro quiet_mem_set[OF assms(1)]) (simp_all add: queued_def)
    moreover have "vb_capacity (buf_at c (set_buf a (queued r ?b) m)) = vb_capacity (buf_at c m)" for c
      using a by (cases "c = a") (simp_all add: queued_def)
    moreover have "vb_capacity (buf_at c (lost_mem pad r a m)) = vb_capacity (buf_at c m)"
      if "c < length (mem_bufs m)" for c
      using that a by (cases "c = a") (simp_all add: lost_mem_def)
    ultimately show ?thesis
      using assms(4) lost_quiet[OF assms(1,2) a True, of pad] vrb_write_eq[OF b(1) True, of pad]
      by (auto simp: lost_mem_def split: if_splits)
  next
    case False
    then have "256 < (word_of_nat (length (r_data r)) :: usize) + 24"
      using assms(3) by (simp add: word_less_nat_alt unat_plus_no_wrap unat_of_nat_usize)
    then show ?thesis
      using assms(1,4) reserve_too_large[OF b(1), of "word_of_nat (length (r_data r))" 0 False]
      by (simp add: vrb_write_def del: reserve.simps)
  qed
qed

lemma quiet_read:
  assumes "quiet_mem hs m" and "a < length (mem_bufs m)"
  shows "vrb_read crc pad a m = (Ok [], m)"
proof -
  let ?b = "buf_at a m"
  have inv: "vinv ?b" and q: "quiet_buf ?b" using quiet_memD[OF assms] by simp_all
  have "slot_at ?b s \<in> set (vb_slots ?b)" for s
    using ring_idx_less[OF inv, of s] vinv_facts(3)[OF inv] by (simp add: slot_at_def)
  then have "state_of (slot_at ?b s) \<noteq> Ready" for s
    using q unfolding quiet_buf_def by (metis slot_state.distinct)
  then have "\<not> ready_at ?b s" for s by (simp add: ready_at_def)
  then have "read_slots crc (unat (vb_capacity ?b)) (ai_load (vb_cons_seq ?b)) 0 [] ?b
      = (Ok ([], ai_load (vb_cons_seq ?b), 0), ?b)"
    by (intro read_slots_stop[OF inv])
  then show ?thesis by (simp add: vrb_read_def Let_def)
qed

lemma signals_update_False: "True \<notin> set ss \<Longrightarrow> ss[i := False] = ss"
  by (metis (full_types) list_update_beyond list_update_id not_le nth_mem)

lemma wait_quiet:
  assumes "quiet_mem hs m" and "a < length (mem_bufs m)"
    and "wait_for_data t notified a m = Some (w, m')"
  shows "m' = m \<and> w = notified"
proof -
  let ?s = "vb_consumer_signal (buf_at a m)"
  have "?s < length (mem_signals m)" "True \<notin> set (mem_signals m)"
    using quiet_memD(4)[OF assms(1,2)] assms(1) by (simp_all add: quiet_mem_def)
  then have "\<not> mem_signals m ! ?s" "(mem_signals m)[?s := False] = mem_signals m"
    using signals_update_False by (metis (full_types) nth_mem)+
  then show ?thesis using assms(3) by (auto simp: wait_for_data_def Let_def split: option.splits if_splits)
qed

lemma session_inv_handle: "session_inv s \<Longrightarrow> a \<in> ses_handles s \<Longrightarrow> a < length (mem_bufs (ses_mem s))"
  by (auto simp: session_inv_def quiet_mem_def)

lemma add_buffer_inv:
  assumes "session_inv s" and "idle_buf b"
    and "vb_consumer_signal b < length (mem_signals (ses_mem s)) + k"
    and "m = (ses_mem s)\<lparr>mem_signals := mem_signals (ses_mem s) @ replicate k False\<rparr>"
    and "arc_new b m = (a, m2)"
  shows "session_inv (s\<lparr>ses_mem := m2, ses_handles := insert a (ses_handles s)\<rparr>)"
proof -
  have m2: "a = length (mem_bufs m)" "m2 = m\<lparr>mem_bufs := mem_bufs m @ [b]\<rparr>"
    using assms(5) by (simp_all add: arc_new_def)
  have q: "quiet_mem (ses_handles s) m"
    using assms(1,4) by (auto simp: session_inv_def quiet_mem_def)
  have "quiet_mem (insert a (ses_handles s)) m2"
    unfolding m2 using assms(3,4) by (intro quiet_mem_add[OF q assms(2)]) auto
  moreover have "hidden (insert a (ses_handles s)) m2 r" if "r \<in> set (ses_reservations s)" for r
    using assms(1,4) that by (auto simp: session_inv_def hidden_def m2 buf_at_def nth_append)
  ultimately show ?thesis by (simp add: session_inv_def)
qed

lemma replace_mem_inv:
  assumes "session_inv s" and "quiet_mem (ses_handles s) m"
    and "length (mem_bufs (ses_mem s)) \<le> length (mem_bufs m)"
    and "\<forall>c<length (mem_bufs (ses_mem s)). vb_capacity (buf_at c m) = vb_capacity (buf_at c (ses_mem s))"
  shows "session_inv (s\<lparr>ses_mem := m\<rparr>)"
proof -
  have "hidden (ses_handles s) m r" if "r \<in> set (ses_reservations s)" for r
    using assms(1) that by (intro hidden_mono[OF _ assms(3,4)]) (simp add: session_inv_def)
  then show ?thesis using assms(2) by (simp add: session_inv_def)
qed

lemma session_invD: "session_inv s \<Longrightarrow> quiet_mem (ses_handles s) (ses_mem s)"
  and session_inv_hidden:
    "session_inv s \<Longrightarrow> res \<in> set (ses_reservations s) \<Longrightarrow> hidden (ses_handles s) (ses_mem s) res"
  by (simp_all add: session_inv_def)

text \<open>Each step of a session keeps the invariant.\<close>

lemma new_keeps_inv:
  assumes "session_inv s" and "unat n \<le> 2 ^ 54"
    and "VolatileRingBuffer_new n (ses_mem s) = (Ok b, m1)" and "arc_new b m1 = (a, m2)"
  shows "session_inv (s\<lparr>ses_mem := m2, ses_handles := insert a (ses_handles s)\<rparr>)"
proof -
  let ?l = "length (mem_signals (ses_mem s))"
  have "b = new_vrb (next_power_of_two n) ?l"
    and m1: "m1 = (ses_mem s)\<lparr>mem_signals := mem_signals (ses_mem s) @ [False]\<rparr>"
    using assms(3) VolatileRingBuffer_new_eq[OF assms(2), of "ses_mem s"] by simp_all
  then have "idle_buf b" "vb_consumer_signal b = ?l"
    using new_vrb_inv[OF next_power_of_two_small(1,2)[OF assms(2)], of ?l]
    by (simp_all add: idle_buf_def) (simp_all add: new_vrb_def)
  then show ?thesis using m1 by (intro add_buffer_inv[OF assms(1) _ _ _ assms(4), of 1]) simp_all
qed

lemma clone_keeps_inv:
  assumes "session_inv s" and "c \<in> ses_handles s"
    and "vrb_clone (buf_at c (ses_mem s)) = Ok b" and "arc_new b (ses_mem s) = (a, m2)"
  shows "session_inv (s\<lparr>ses_mem := m2, ses_handles := insert a (ses_handles s)\<rparr>)"
proof -
  note c = quiet_memD[OF session_invD[OF assms(1)] session_inv_handle[OF assms(1,2)]]
  have "b = empty_like (buf_at c (ses_mem s))" using assms(3) vrb_clone_eq[OF c(1)] by simp
  then show ?thesis
    using c(4) empty_like_idle[OF c(1)]
    by (intro add_buffer_inv[OF assms(1) _ _ _ assms(4), of 0]) simp_all
qed

lemma reserve_keeps_inv:
  assumes inv: "session_inv s" and a: "a \<in> ses_handles s"
    and r: "reserve frames sz block a (ses_mem s) = (Ok (Some res), m')"
  shows "session_inv (s\<lparr>ses_mem := m', ses_reservations := res # ses_reservations s\<rparr>)"
proof -
  note q = session_invD[OF inv] and len = session_inv_handle[OF inv a]
  have res: "res = new_reservation sz a (ses_mem s)" "m' = reserved_mem a (ses_mem s)"
    using reserve_cases[OF q a r] by auto
  have "vb_capacity (buf_at c m') = vb_capacity (buf_at c (ses_mem s))"
    if "c < length (mem_bufs (ses_mem s))" for c
    using that len by (cases "c = a") (simp_all add: res(2))
  then have "session_inv (s\<lparr>ses_mem := m'\<rparr>)"
    using reserved_quiet[OF q a len] by (intro replace_mem_inv[OF inv]) (simp_all add: res(2))
  then show ?thesis
    using new_reservation_hidden[OF q a, of sz] by (simp add: session_inv_def res)
qed

lemma fill_keeps_inv:
  assumes "session_inv s" and "res \<in> set (ses_reservations s)"
    and "reservation_write pad header d res (ses_mem s) = (out, m')" and "out \<noteq> Undefined"
  shows "session_inv (s\<lparr>ses_mem := m'\<rparr>)"
proof -
  have "quiet_mem (ses_handles s) m' \<and> length (mem_bufs m') = length (mem_bufs (ses_mem s)) \<and>
      (\<forall>a<length (mem_bufs (ses_mem s)). vb_capacity (buf_at a m') = vb_capacity (buf_at a (ses_mem s)))"
    using session_inv_hidden[OF assms(1,2)] assms(3,4)
    by (intro fill_quiet[OF session_invD[OF assms(1)]]) (simp_all add: hidden_def)
  then show ?thesis by (intro replace_mem_inv[OF assms(1)]) simp_all
qed

lemma release_keeps_inv:
  assumes "session_inv s" and "res \<in> set (ses_reservations s)"
    and "reservation_commit res (ses_mem s) = (out, m') \<or> reservation_drop res (ses_mem s) = (out, m')"
  shows "session_inv (s\<lparr>ses_mem := m', ses_reservations := remove1 res (ses_reservations s)\<rparr>)"
proof -
  have "m' = ses_mem s"
    using hidden_reservation[OF session_invD[OF assms(1)] session_inv_hidden[OF assms(1,2)]] assms(3)
    by auto
  then show ?thesis using assms(1) notin_set_remove1 by (auto simp: session_inv_def)
qed

lemma vstep_inv:
  assumes "vstep crc pad s t" and "session_inv s"
  shows "session_inv t"
  using assms
proof (cases rule: vstep.cases)
  case new_step
  then show ?thesis using new_keeps_inv[OF assms(2)] by simp
next
  case clone_step
  then show ?thesis using clone_keeps_inv[OF assms(2)] by simp
next
  case reserve_step
  then show ?thesis using reserve_keeps_inv[OF assms(2)] by simp
next
  case (reserve_fails a frames sz block out m')
  have "m' = ses_mem s"
    using reserve_cases[OF session_invD[OF assms(2)] reserve_fails(2,3)] reserve_fails(5) by auto
  then show ?thesis unfolding reserve_fails(1) using assms(2) by simp
next
  case fill_step
  then show ?thesis using fill_keeps_inv[OF assms(2)] by simp
next
  case commit_step
  then show ?thesis using release_keeps_inv[OF assms(2)] by blast
next
  case drop_step
  then show ?thesis using release_keeps_inv[OF assms(2)] by blast
next
  case (write_step a r out m')
  show ?thesis
    unfolding write_step(1) using write_quiet[OF session_invD[OF assms(2)] write_step(2-4)]
    by (intro replace_mem_inv[OF assms(2)]) simp_all
next
  case (read_step a out m')
  have "m' = ses_mem s"
    using quiet_read[OF session_invD[OF assms(2)] session_inv_handle[OF assms(2) read_step(2)], of crc pad]
      read_step(3) by simp
  then show ?thesis unfolding read_step(1) using assms(2) by simp
next
  case (wait_step a t' notified w m')
  have "m' = ses_mem s"
    using wait_quiet[OF session_invD[OF assms(2)] session_inv_handle[OF assms(2) wait_step(2)]
        wait_step(3)] by simp
  then show ?thesis unfolding wait_step(1) using assms(2) by simp
qed

lemma vreachable_inv: "vreachable crc pad s \<Longrightarrow> session_inv s"
proof (induction rule: vreachable.induct)
  case start
  show ?case by (simp add: session_inv_def quiet_mem_def)
next
  case (step s t)
  then show ?case using vstep_inv by blast
qed

end
