(* ===== verification/Volatile_Properties.thy ===== *)
theory Volatile_Properties
  imports Volatile_Safety
begin

text \<open>
  The properties of the volatile buffer, with instances on concrete buffers: what reading,
  reserving and writing do, and what clients observe of the buffer as the code composes it.
\<close>

section \<open>Sequences of writes\<close>

fun write_all :: "u32 \<Rightarrow> addr \<Rightarrow> log_record list \<Rightarrow> mem \<Rightarrow> bool list run \<times> mem" where
  "write_all pad a [] m = (Ok [], m)"
| "write_all pad a (r # rs) m =
     run_then (vrb_write pad r a m) (\<lambda>w m1.
       run_then (write_all pad a rs m1) (\<lambda>ws m2. (Ok (w # ws), m2)))"

lemma write_all_append:
  assumes "write_all pad a rs m = (Ok ws, m1)" and "write_all pad a rs' m1 = (Ok ws', m2)"
  shows "write_all pad a (rs @ rs') m = (Ok (ws @ ws'), m2)"
  using assms by (induction rs arbitrary: m ws) (auto simp: run_then_Ok)

text \<open>A buffer after \<open>k\<close> reservations and no more: the first \<open>k\<close> slots are reserved.\<close>

definition after_claims :: "nat \<Rightarrow> vrb \<Rightarrow> bool" where
  "after_claims k b \<longleftrightarrow> vinv b \<and> k \<le> unat (vb_capacity b) \<and> unat (ai_value (vb_prod_seq b)) = k \<and>
     (\<forall>i<unat (vb_capacity b). state_of (vb_slots b ! i) = (if i < k then Reserved else Empty))"

lemma after_claims_step:
  assumes "after_claims k b" and "k < unat (vb_capacity b)"
  shows "\<not> full b" "after_claims (Suc k) (claimed b)"
proof -
  have inv: "vinv b" and k: "unat (ai_value (vb_prod_seq b)) = k" and idx: "prod_idx b = k"
    using assms by (simp_all add: after_claims_def prod_idx_def)
  have st: "state_of (vb_slots b ! i) = (if i < k then Reserved else Empty)"
    if "i < unat (vb_capacity b)" for i
    using assms(1) that by (simp add: after_claims_def)
  show "\<not> full b" using st[OF assms(2)] idx by (simp add: full_def)
  have "unat (ai_value (vb_prod_seq b) + 1) = Suc k"
    using k assms(2) vinv_facts(6)[OF inv] by (simp add: unat_plus_no_wrap)
  moreover have "state_of (vb_slots (claimed b) ! i) = (if i < Suc k then Reserved else Empty)"
    if "i < unat (vb_capacity b)" for i
    using st[OF that] that idx vinv_facts(3)[OF inv] by (cases "i = k") (auto simp: claimed_def)
  ultimately show "after_claims (Suc k) (claimed b)"
    using assms claimed_inv[OF inv] by (simp add: after_claims_def) (simp add: claimed_def)
qed

lemma after_claims_full:
  assumes "after_claims (unat (vb_capacity b)) b" shows "full b"
  using assms vinv_facts(11)[of b] by (simp add: after_claims_def full_def prod_idx_def)

lemma write_all_claims:
  assumes "a < length (mem_bufs m)" and "after_claims k (buf_at a m)"
    and "k + length rs \<le> unat (vb_capacity (buf_at a m))" and "\<forall>r\<in>set rs. length (r_data r) \<le> 232"
  shows "\<exists>m'. write_all pad a rs m = (Ok (replicate (length rs) True), m') \<and>
     a < length (mem_bufs m') \<and> after_claims (k + length rs) (buf_at a m') \<and>
     vb_capacity (buf_at a m') = vb_capacity (buf_at a m) \<and>
     vb_overflow_queue (buf_at a m') = vb_overflow_queue (buf_at a m) \<and>
     mem_signals m' = mem_signals m"
  using assms
proof (induction rs arbitrary: m k)
  case (Cons r rs)
  let ?m = "lost_mem pad r a m"
  have inv: "vinv (buf_at a m)" using Cons.prems(2) by (simp add: after_claims_def)
  note st = after_claims_step[OF Cons.prems(2)]
  have w: "vrb_write pad r a m = (Ok True, ?m)"
    using vrb_write_eq[OF inv, of r pad] st(1) Cons.prems(3,4) by simp
  have b: "buf_at a ?m = claimed (buf_at a m)" "a < length (mem_bufs ?m)" "mem_signals ?m = mem_signals m"
    using Cons.prems(1) by (simp_all add: lost_mem_def)
  have "after_claims (Suc k) (buf_at a ?m)" using st(2) Cons.prems(3) b by simp
  from Cons.IH[OF b(2) this] Cons.prems(3,4) b w show ?case by (auto simp: run_then_Ok)
qed simp

lemma queued_simps [simp]:
  "vb_slots (queued r b) = vb_slots b" "vb_capacity (queued r b) = vb_capacity b"
  "vb_prod_seq (queued r b) = vb_prod_seq b" "full (queued r b) = full b"
  by (simp_all add: queued_def full_def prod_idx_def)

lemma queued_inv: "vinv b \<Longrightarrow> vinv (queued r b)"
  using length_enqueue[of "vb_overflow_queue b" r] by (simp add: vinv_def queued_def)

lemma write_all_full:
  assumes "a < length (mem_bufs m)" and "vinv (buf_at a m)" and "full (buf_at a m)"
    and "\<forall>r\<in>set rs. length (r_data r) \<le> 232"
  shows "write_all pad a rs m = (Ok (replicate (length rs) False),
     set_queue a (drop (length (vb_overflow_queue (buf_at a m)) + length rs - 1000)
       (vb_overflow_queue (buf_at a m) @ rs)) m)"
  using assms
proof (induction rs arbitrary: m)
  case Nil
  then show ?case using vinv_facts(10)[OF Nil(2)] by (simp add: set_queue_def)
next
  case (Cons r rs)
  let ?b = "buf_at a m" and ?q = "vb_overflow_queue (buf_at a m)"
  let ?m = "set_buf a (queued r ?b) m"
  have w: "vrb_write pad r a m = (Ok False, ?m)"
    using vrb_write_eq[OF Cons.prems(2), of r pad] Cons.prems(3,4) by simp
  have q: "vb_overflow_queue (queued r ?b) = drop (Suc (length ?q) - 1000) (?q @ [r])"
    using enqueue_keeps_last[OF vinv_facts(10)[OF Cons.prems(2)], of r] vinv_facts(8)[OF Cons.prems(2)]
    by (simp add: queued_def)
  have "length ?q \<le> 1000" by (rule vinv_facts(10)[OF Cons.prems(2)])
  then have "drop (length (vb_overflow_queue (queued r ?b)) + length rs - 1000)
      (vb_overflow_queue (queued r ?b) @ rs) = drop (length ?q + length (r # rs) - 1000) (?q @ r # rs)"
    by (cases "length ?q = 1000") (simp_all add: q)
  moreover have "set_queue a xs ?m = set_queue a xs m" for xs
    using Cons.prems(1) by (simp add: set_queue_def queued_def)
  ultimately show ?case
    using Cons.IH[of ?m] Cons.prems w queued_inv[OF Cons.prems(2), of r] by (simp add: run_then_Ok)
qed

section \<open>Concrete buffers\<close>

text \<open>A new buffer of four slots at address 0, and a record that fits into a slot.\<close>

definition small_record :: log_record where
  "small_record = Record_new crc32_ieee (Some 7) [1, 2, 3] 9"

definition demo_store :: mem where
  "demo_store = \<lparr>mem_bufs = [new_vrb 4 0], mem_signals = [False]\<rparr>"

definition demo_session :: session where
  "demo_session = \<lparr>ses_mem = demo_store, ses_handles = {0}, ses_reservations = []\<rparr>"

lemma small_record_ok: "length (r_data small_record) = 3" "fits_slot small_record"
  "intact crc32_ieee small_record"
  by (simp_all add: small_record_def fits_slot_def intact_def rh_verify_crc_def)

lemma power_four: "is_power_of_two 4" "next_power_of_two 4 = 4" "next_power_of_two 3 = 4"
  by (auto simp: is_power_of_two_iff intro: exI[of _ 2]) (code_simp+)

lemma demo_store_ok: "vinv (buf_at 0 demo_store)" "holds (buf_at 0 demo_store) []"
  "vb_capacity (buf_at 0 demo_store) = 4" "length (mem_bufs demo_store) = 1"
  "vb_overflow_queue (buf_at 0 demo_store) = []" "after_claims 0 (buf_at 0 demo_store)"
  using new_vrb_inv[OF power_four(1)] new_vrb_holds[OF power_four(1)]
  by (simp_all add: demo_store_def buf_at_def after_claims_def)
     (simp_all add: new_vrb_def empty_like_def nth_Cons')

lemma demo_session_reachable: "vreachable crc pad demo_session"
proof -
  let ?s = "\<lparr>ses_mem = \<lparr>mem_bufs = [], mem_signals = []\<rparr>, ses_handles = {}, ses_reservations = []\<rparr>"
  have "VolatileRingBuffer_new 4 (ses_mem ?s) = (Ok (new_vrb 4 0), \<lparr>mem_bufs = [], mem_signals = [False]\<rparr>)"
    using VolatileRingBuffer_new_eq[of 4 "ses_mem ?s"] power_four(2) by simp
  then have "vstep crc pad ?s (?s\<lparr>ses_mem := demo_store, ses_handles := insert 0 (ses_handles ?s)\<rparr>)"
    by (rule vstep.new_step[rotated]) (simp_all add: arc_new_def demo_store_def)
  then show ?thesis
    using vreachable.step[OF vreachable.start] by (simp add: demo_session_def)
qed

section \<open>Reading the slots\<close>



section \<open>Creation and reservation\<close>

text \<open>
  Creation rounds the requested number of slots up to the least power of two and gives
  a well-formed buffer without records; a request beyond the largest power of two panics.
\<close>

theorem new_rounds_up:
  "(unat n \<le> 2 ^ 54 \<longrightarrow> (\<exists>b. VolatileRingBuffer_new n m
         = (Ok b, m\<lparr>mem_signals := mem_signals m @ [False]\<rparr>) \<and> holds b [] \<and>
       is_power_of_two (capacity b) \<and> n \<le> capacity b \<and>
       (\<forall>p. is_power_of_two p \<and> n \<le> p \<longrightarrow> capacity b \<le> p))) \<and>
   (2 ^ 63 < n \<longrightarrow> VolatileRingBuffer_new n m = (Panic AssertFailed, m))"
proof (intro conjI impI)
  assume n: "unat n \<le> 2 ^ 54"
  let ?b = "new_vrb (next_power_of_two n) (length (mem_signals m))"
  have cap: "capacity ?b = next_power_of_two n" by (simp add: capacity_def new_vrb_def)
  have "n \<le> 2 ^ 63" using n by (simp add: word_le_nat_alt)
  then have "next_power_of_two n \<le> p" if "is_power_of_two p" "n \<le> p" for p
    using that next_power_of_two_least by blast
  then show "\<exists>b. VolatileRingBuffer_new n m
         = (Ok b, m\<lparr>mem_signals := mem_signals m @ [False]\<rparr>) \<and> holds b [] \<and>
       is_power_of_two (capacity b) \<and> n \<le> capacity b \<and>
       (\<forall>p. is_power_of_two p \<and> n \<le> p \<longrightarrow> capacity b \<le> p)"
    using VolatileRingBuffer_new_eq[OF n, of m] next_power_of_two_small[OF n]
      new_vrb_holds[OF next_power_of_two_small(1,2)[OF n]]
    by (intro exI[of _ ?b]) (simp only: cap, blast)
next
  assume "2 ^ 63 < n"
  then have "next_power_of_two n = 0" by (rule next_power_of_two_overflow)
  moreover have "\<not> is_power_of_two 0" by (simp add: is_power_of_two_def)
  ultimately show "VolatileRingBuffer_new n m = (Panic AssertFailed, m)"
    by (simp add: VolatileRingBuffer_new_def fresh_storage_def AtomicIndex_new_def)
qed

theorem new_rounds_up_witness:
  "(\<exists>b. VolatileRingBuffer_new 3 demo_store
         = (Ok b, demo_store\<lparr>mem_signals := mem_signals demo_store @ [False]\<rparr>) \<and> holds b []) \<and>
   VolatileRingBuffer_new (2 ^ 63 + 1) demo_store = (Panic AssertFailed, demo_store)"
  using new_rounds_up[of 3 demo_store] new_rounds_up[of "2 ^ 63 + 1" demo_store] by auto



text \<open>
  C39: the size check of \<open>reserve\<close> wraps. A request of nearly \<open>2 ^ 64\<close> bytes is granted on a
  buffer with a free slot, and writing data that is longer than the storage of the buffer
  through that reservation runs outside the allocation.
\<close>

theorem wrapped_reservation_overruns:
  assumes "vinv (buf_at a m)" and "a < length (mem_bufs m)" and "\<not> full (buf_at a m)"
    and "unat (vb_capacity (buf_at a m)) * 256 < length d"
  shows "\<exists>res m1 m2. reserve 1 (- 1) block a m = (Ok (Some res), m1) \<and>
     reservation_write pad h d res m1 = (Undefined, m2)"
proof -
  let ?b = "buf_at a m"
  have "(- 1 :: usize) + 24 = 23" by simp
  then have r: "reserve 1 (- 1) block a m = (Ok (Some (new_reservation (- 1) a m)), reserved_mem a m)"
    using reserve_eq[OF assms(1), of "- 1" 0 block] assms(3) by (simp del: reserve.simps)
  have "res_size (new_reservation (- 1) a m) - RecordHeader_SIZE = - 1"
    by (simp add: RecordHeader_SIZE_def)
  then have le: "word_of_nat (length d) \<le> res_size (new_reservation (- 1) a m) - RecordHeader_SIZE"
    by simp
  have inv: "vinv (empty_like ?b)" by (rule empty_like_inv[OF assms(1)])
  have "reservation_write pad h d (new_reservation (- 1) a m) (reserved_mem a m) =
      (Undefined, snd (reservation_write pad h d (new_reservation (- 1) a m) (reserved_mem a m)))"
    using le assms(4) slot_ptr[OF inv, of "res_slot_idx (new_reservation (- 1) a m)"]
      slot_room[OF inv, of "prod_idx ?b" 24] prod_idx_less[OF assms(1)] assms(1)
    by (simp add: reservation_write_def Let_def in_data_def)
  with r show ?thesis by blast
qed

theorem wrapped_reservation_overruns_witness:
  "\<exists>res m1 m2. reserve 1 (- 1) False 0 demo_store = (Ok (Some res), m1) \<and>
     reservation_write 0 (r_header small_record) (replicate 2000 0) res m1 = (Undefined, m2)"
  using wrapped_reservation_overruns[OF demo_store_ok(1), of "replicate 2000 0"] demo_store_ok(3,4)
    after_claims_step(1)[OF demo_store_ok(6)]
  by simp

section \<open>What clients observe\<close>

text \<open>
  C35: in every state that clients reach through the interface, every operation that is
  called correctly returns: a record of at most 232 bytes is written or queued, committing
  and dropping a reservation succeed, reading succeeds; and the overflow queue never
  exceeds its limit.
\<close>

theorem reachable_operations_return:
  assumes "vreachable crc pad s" and "a \<in> ses_handles s" and "res \<in> set (ses_reservations s)"
    and "length (r_data r) \<le> 232"
  shows "\<not> panics (fst (vrb_write pad r a (ses_mem s))) \<and>
     \<not> panics (fst (vrb_read crc pad a (ses_mem s))) \<and>
     \<not> panics (fst (reservation_commit res (ses_mem s))) \<and>
     \<not> panics (fst (reservation_drop res (ses_mem s))) \<and>
     length (vb_overflow_queue (buf_at a (ses_mem s))) \<le> 1000"
proof -
  have inv: "session_inv s" by (rule vreachable_inv[OF assms(1)])
  then have q: "quiet_mem (ses_handles s) (ses_mem s)" and h: "hidden (ses_handles s) (ses_mem s) res"
    using assms(3) by (simp_all add: session_inv_def)
  have a: "a < length (mem_bufs (ses_mem s))" by (rule session_inv_handle[OF inv assms(2)])
  note b = quiet_memD(1)[OF q a]
  show ?thesis
    using vrb_write_eq[OF b assms(4), of pad] quiet_read[OF q a, of crc pad] hidden_reservation[OF q h]
      vinv_facts(10)[OF b] by simp
qed

theorem reachable_operations_return_witness:
  "\<not> panics (fst (reservation_commit (new_reservation 10 0 demo_store) (reserved_mem 0 demo_store)))"
proof -
  let ?res = "new_reservation 10 0 demo_store"
  let ?s = "demo_session\<lparr>ses_mem := reserved_mem 0 demo_store, ses_reservations := ?res # ses_reservations demo_session\<rparr>"
  have r: "reserve 1 10 False 0 (ses_mem demo_session) = (Ok (Some ?res), reserved_mem 0 demo_store)"
    using reserve_eq[OF demo_store_ok(1), of 10 0 False] after_claims_step(1)[OF demo_store_ok(6)]
      demo_store_ok(3) by (simp add: demo_session_def del: reserve.simps)
  have "vreachable crc32_ieee 0 ?s"
    by (rule vreachable.step[OF demo_session_reachable vstep.reserve_step[OF _ r]])
       (simp add: demo_session_def)
  from reachable_operations_return[OF this, of 0 ?res small_record] show ?thesis
    using small_record_ok(1) by (simp add: demo_session_def)
qed

text \<open>
  C8: a record that was written is never read. Whatever clients did before, a read after
  a write returns no record and leaves the store as it is, even when the write reported
  that the record went into the buffer, and no consumer is ever signalled.
\<close>

theorem written_records_are_lost:
  assumes "vreachable crc pad s" and "a \<in> ses_handles s" and "length (r_data r) < 2 ^ 63"
    and "vrb_write pad r a (ses_mem s) = (Ok direct, m)"
  shows "vrb_read crc pad a m = (Ok [], m) \<and>
     \<not> mem_signals m ! vb_consumer_signal (buf_at a m)"
proof -
  have "vreachable crc pad (s\<lparr>ses_mem := m\<rparr>)"
    by (rule vreachable.step[OF assms(1) vstep.write_step[OF assms(2-4)]]) simp
  then have inv: "session_inv (s\<lparr>ses_mem := m\<rparr>)" by (rule vreachable_inv)
  then have q: "quiet_mem (ses_handles s) m" by (simp add: session_inv_def)
  have a: "a < length (mem_bufs m)" using session_inv_handle[OF inv] assms(2) by simp
  have "vb_consumer_signal (buf_at a m) < length (mem_signals m)" "True \<notin> set (mem_signals m)"
    using quiet_memD(4)[OF q a] q by (simp_all add: quiet_mem_def)
  then show ?thesis using quiet_read[OF q a] by (metis (full_types) nth_mem)
qed

theorem written_records_are_lost_witness:
  "\<exists>m. vrb_write 0 small_record 0 demo_store = (Ok True, m) \<and> vrb_read crc32_ieee 0 0 m = (Ok [], m)"
proof -
  have w: "vrb_write 0 small_record 0 demo_store = (Ok True, lost_mem 0 small_record 0 demo_store)"
    using vrb_write_eq[OF demo_store_ok(1), of small_record 0] after_claims_step(1)[OF demo_store_ok(6)]
      small_record_ok(1) demo_store_ok(3) by simp
  then show ?thesis
    using written_records_are_lost[OF demo_session_reachable, of 0 small_record 0 True
        "lost_mem 0 small_record 0 demo_store" crc32_ieee] small_record_ok(1)
    by (simp add: demo_session_def)
qed

text \<open>
  The results of a sequence of writes to a new buffer. As many writes as the buffer has
  slots report success, every later one reports that the record was queued, and the
  overflow queue keeps the last thousand of these.
\<close>

theorem write_all_results:
  assumes "unat n \<le> 2 ^ 54" and "\<forall>r\<in>set rs. length (r_data r) \<le> 232"
    and "VolatileRingBuffer_new n m = (Ok b, m1)" and "arc_new b m1 = (a, m2)"
  shows "\<exists>m'. write_all pad a rs m2 =
       (Ok (replicate (min (length rs) (unat (capacity b))) True
            @ replicate (length rs - unat (capacity b)) False), m') \<and>
     vb_overflow_queue (buf_at a m') =
       drop (length rs - unat (capacity b) - 1000) (drop (unat (capacity b)) rs)"
proof -
  let ?c = "unat (capacity b)" and ?xs = "take (unat (capacity b)) rs" and ?ys = "drop (unat (capacity b)) rs"
  have b: "b = new_vrb (next_power_of_two n) (length (mem_signals m))"
    using assms(3) VolatileRingBuffer_new_eq[OF assms(1), of m] by simp
  have a: "a < length (mem_bufs m2)" "buf_at a m2 = b"
    using assms(4) by (auto simp: arc_new_def buf_at_def)
  have b0: "vinv b" "after_claims 0 b" "vb_overflow_queue b = []" "vb_capacity b = capacity b"
    using new_vrb_inv[OF next_power_of_two_small(1,2)[OF assms(1)]]
    by (simp_all add: b after_claims_def capacity_def) (simp_all add: new_vrb_def empty_like_def)
  obtain m1' where m1': "write_all pad a ?xs m2 = (Ok (replicate (length ?xs) True), m1')"
    "a < length (mem_bufs m1')" "after_claims (length ?xs) (buf_at a m1')"
    "vb_capacity (buf_at a m1') = capacity b" "vb_overflow_queue (buf_at a m1') = []"
    using write_all_claims[of a m2 0 ?xs pad] a b0 assms(2) by (auto dest: in_set_takeD)
  show ?thesis
  proof (cases "?c \<le> length rs")
    case False
    then show ?thesis using m1' by simp
  next
    case True
    then have full: "full (buf_at a m1')" and inv: "vinv (buf_at a m1')"
      using m1'(3,4) after_claims_full[of "buf_at a m1'"] by (simp_all add: after_claims_def)
    have "write_all pad a ?ys m1' = (Ok (replicate (length ?ys) False),
        set_queue a (drop (length ?ys - 1000) ?ys) m1')"
      using write_all_full[OF m1'(2) inv full, of ?ys pad] m1'(5) assms(2) by (auto dest: in_set_dropD)
    from write_all_append[OF m1'(1) this] True m1'(2) show ?thesis
      by (simp add: min_def set_queue_def)
  qed
qed

theorem write_all_results_witness:
  "\<exists>m'. write_all 0 0 (replicate 6 small_record) demo_store =
     (Ok [True, True, True, True, False, False], m') \<and>
   vb_overflow_queue (buf_at 0 m') = [small_record, small_record]"
proof -
  have n: "VolatileRingBuffer_new 4 \<lparr>mem_bufs = [], mem_signals = []\<rparr>
      = (Ok (new_vrb 4 0), \<lparr>mem_bufs = [], mem_signals = [False]\<rparr>)"
    using VolatileRingBuffer_new_eq[of 4 "\<lparr>mem_bufs = [], mem_signals = []\<rparr>"] power_four(2) by simp
  have c: "capacity (new_vrb 4 0) = 4" by (simp add: capacity_def new_vrb_def)
  have l: "replicate 4 True @ replicate 2 False = [True, True, True, True, False, False]"
    "drop 4 (replicate 6 small_record) = [small_record, small_record]" by (simp_all add: eval_nat_numeral)
  show ?thesis
    using write_all_results[OF _ _ n, of "replicate 6 small_record" 0 demo_store 0] small_record_ok(1) l
    by (simp add: arc_new_def demo_store_def c)
qed

text \<open>
  A record of more than 232 bytes is not rejected or queued: writing it panics.
\<close>

theorem oversized_write_panics:
  assumes "vinv (buf_at a m)" and "232 < length (r_data r)" and "length (r_data r) < 2 ^ 63"
  shows "vrb_write pad r a m = (Panic AssertFailed, m)"
proof -
  have "256 < (word_of_nat (length (r_data r)) :: usize) + 24"
    using assms(2,3) by (simp add: word_less_nat_alt unat_plus_no_wrap unat_of_nat_usize)
  then show ?thesis
    using reserve_too_large[OF assms(1), of "word_of_nat (length (r_data r))" 0 False]
    by (simp add: vrb_write_def del: reserve.simps)
qed

theorem oversized_write_panics_witness:
  "vrb_write 0 (Record_new crc32_ieee None (replicate 233 7) 1) 0 demo_store = (Panic AssertFailed, demo_store)"
  by (rule oversized_write_panics[OF demo_store_ok(1)]) simp_all

end
