(* ===== verification/Returned_Records.thy ===== *)
theory Returned_Records
  imports Cursor_Properties Volatile_Properties
begin

text \<open>
  What readers hand out, whatever they read. A file can be opened with any bytes behind its
  control block, and the slots of a volatile buffer are raw memory, so no invariant of the
  stored bytes is assumed: every record that a reader returns agrees with its own header, and
  \<open>read_all\<close> comes to an end.
\<close>

section \<open>Well-formed records\<close>

definition record_ok :: "hasher \<Rightarrow> log_record \<Rightarrow> bool" where
  "record_ok crc r \<longleftrightarrow>
     unat (rh_size (r_header r)) = length (r_data r) \<and> rh_crc32 (r_header r) = crc (r_data r)"

text \<open>A slice that was taken has the length that was asked for: its end did not wrap.\<close>

lemma length_slice_get:
  assumes "slice_get m a (a + d) = Some x" shows "length x = unat d"
proof -
  have "unat (a + d) = unat a + unat d" "unat a + unat d \<le> length m"
    using assms by (auto simp: slice_get_def unat_plus_simple split: if_splits)
  then show ?thesis using assms by (auto simp: slice_get_def split: if_splits)
qed

section \<open>The persistent buffer and its cursors\<close>

lemma read_at_record_ok:
  assumes "read_at crc pos b = Ok (Some (r, n))"
  shows "record_ok crc r" and "unat n = rec_len r"
proof -
  have "\<exists>h d. slice_get (buf_mmap b) (ControlBlock_SIZE + pos + Header_SIZE)
        (ControlBlock_SIZE + pos + Header_SIZE + ucast (dh_size h)) = Some d \<and>
      dh_verify_crc crc h d \<and> r = record_of h d \<and> n = Header_SIZE + ucast (dh_size h)"
    using assms by (auto simp: read_at_def Let_def record_of_def split: if_splits option.splits)
  then obtain h d where h: "slice_get (buf_mmap b) (ControlBlock_SIZE + pos + Header_SIZE)
        (ControlBlock_SIZE + pos + Header_SIZE + ucast (dh_size h)) = Some d"
    "dh_verify_crc crc h d" "r = record_of h d" "n = Header_SIZE + ucast (dh_size h)" by blast
  have d: "length d = unat (dh_size h)" using length_slice_get[OF h(1)] unat_u32_to_usize by simp
  then show "record_ok crc r"
    using h(2,3) by (simp add: record_ok_def record_of_def dh_verify_crc_def)
  show "unat n = rec_len r"
    using h(3,4) d unat_u32_lt[of "dh_size h"] unat_u32_to_usize[of "dh_size h"]
    by (simp add: rec_len_def record_of_def) (subst unat_plus_no_wrap, simp_all)
qed

lemma read_all_loop_record_ok:
  assumes "read_all_loop crc b pos acc = Some (Ok (recs, pos'))" and "\<forall>r\<in>set acc. record_ok crc r"
  shows "\<forall>r\<in>set recs. record_ok crc r"
proof -
  let ?P = "\<lambda>crc b pos acc res. (\<forall>r\<in>set acc. record_ok crc r) \<longrightarrow>
    (\<forall>recs pos'. res = Ok (recs, pos') \<longrightarrow> (\<forall>r\<in>set recs. record_ok crc r))"
  have "?P crc b pos acc (Ok (recs, pos') :: (log_record list \<times> u64) presult)"
  proof (rule read_all_loop.raw_induct[where P = ?P])
    fix loop :: "hasher \<Rightarrow> prb \<Rightarrow> u64 \<Rightarrow> log_record list \<Rightarrow> (log_record list \<times> u64) presult option"
      and crc b pos acc res
    assume IH: "\<And>crc b pos acc res. loop crc b pos acc = Some res \<Longrightarrow> ?P crc b pos acc res"
      and step: "(if pos < cb_write_pos (buf_control b) then
          (case read_at crc pos b of
             Ok None \<Rightarrow> loop crc b (pos + Header_SIZE) acc
           | Ok (Some rn) \<Rightarrow> loop crc b (pos + snd rn) (acc @ [fst rn])
           | Err e \<Rightarrow> Some (Err e) | Panic p \<Rightarrow> Some (Panic p) | Undefined \<Rightarrow> Some Undefined)
        else Some (Ok (acc, pos))) = Some res"
    have ok: "record_ok crc (fst rn)" if "read_at crc pos b = Ok (Some rn)" for rn
      using read_at_record_ok(1)[of crc pos b "fst rn" "snd rn"] that by simp
    show "?P crc b pos acc res"
      using step ok IH[of crc b "pos + Header_SIZE" acc res] IH[of crc b "pos + snd rn" "acc @ [fst rn]" res for rn]
      by (fastforce split: if_splits outcome.splits option.splits)
  qed (rule assms(1))
  then show ?thesis using assms(2) by blast
qed

lemma read_all_record_ok:
  assumes "read_all crc pad flush b = Some (Ok recs, b')"
  shows "\<forall>r\<in>set recs. record_ok crc r"
  using assms read_all_loop_record_ok[of crc b "cb_read_pos (buf_control b)" "[]"]
  by (auto simp: read_all_def Let_def split: if_splits option.splits outcome.splits prod.splits)

lemma cursor_next_record_ok:
  "cursor_next crc frames b c = (Ok (Some r), c') \<Longrightarrow> record_ok crc r"
proof (induction frames arbitrary: c)
  case (Suc frames)
  show ?case
  proof (cases "\<exists>rn. read_at crc (pos_offset (cur_position c)) b = Ok (Some rn)")
    case True
    then show ?thesis
      using Suc.prems read_at_record_ok(1)
      by (auto simp: Let_def split: if_splits)
  next
    case False
    then show ?thesis
      using Suc.prems Suc.IH
      by (fastforce simp: Let_def split: if_splits outcome.splits option.splits)
  qed
qed simp

lemma read_batch_loop_record_ok:
  "read_batch_loop crc frames b k c acc = (Ok recs, c') \<Longrightarrow> \<forall>r\<in>set acc. record_ok crc r \<Longrightarrow>
   \<forall>r\<in>set recs. record_ok crc r"
proof (induction k arbitrary: c acc)
  case (Suc k)
  obtain out c1 where out: "cursor_next crc frames b c = (out, c1)" by force
  show ?case
  proof (cases "\<exists>r. out = Ok (Some r)")
    case True
    then obtain r where r: "out = Ok (Some r)" by blast
    have "\<forall>x\<in>set (acc @ [r]). record_ok crc x"
      using Suc.prems(2) cursor_next_record_ok out r by auto
    moreover have "read_batch_loop crc frames b k c1 (acc @ [r]) = (Ok recs, c')"
      using Suc.prems(1) out r by simp
    ultimately show ?thesis using Suc.IH by blast
  next
    case False
    then show ?thesis
      using Suc.prems out by (cases out) (auto split: option.splits)
  qed
qed simp

text \<open>
  The loop of \<open>read_all\<close> reads disjoint parts of the data section, so what it returns fits in
  it together.
\<close>

lemma read_all_loop_fits:
  assumes "read_all_loop crc b pos acc = Some (Ok (recs, pos'))" and "prb_inv b"
    and "log_len acc \<le> unat pos" and "log_len acc \<le> unat (buf_size b)"
  shows "log_len recs \<le> unat (buf_size b)"
proof -
  let ?P = "\<lambda>crc b pos acc res. prb_inv b \<and> log_len acc \<le> unat pos \<and> log_len acc \<le> unat (buf_size b) \<longrightarrow>
    (\<forall>recs pos'. res = Ok (recs, pos') \<longrightarrow> log_len recs \<le> unat (buf_size b))"
  have "?P crc b pos acc (Ok (recs, pos') :: (log_record list \<times> u64) presult)"
  proof (rule read_all_loop.raw_induct[where P = ?P])
    fix loop :: "hasher \<Rightarrow> prb \<Rightarrow> u64 \<Rightarrow> log_record list \<Rightarrow> (log_record list \<times> u64) presult option"
      and crc b pos acc res
    assume IH: "\<And>crc b pos acc res. loop crc b pos acc = Some res \<Longrightarrow> ?P crc b pos acc res"
      and step: "(if pos < cb_write_pos (buf_control b) then
          (case read_at crc pos b of
             Ok None \<Rightarrow> loop crc b (pos + Header_SIZE) acc
           | Ok (Some rn) \<Rightarrow> loop crc b (pos + snd rn) (acc @ [fst rn])
           | Err e \<Rightarrow> Some (Err e) | Panic p \<Rightarrow> Some (Panic p) | Undefined \<Rightarrow> Some Undefined)
        else Some (Ok (acc, pos))) = Some res"
    show "?P crc b pos acc res"
    proof
      assume pre: "prb_inv b \<and> log_len acc \<le> unat pos \<and> log_len acc \<le> unat (buf_size b)"
      note facts = prb_inv_facts[OF conjunct1[OF pre]]
      show "\<forall>recs pos'. res = Ok (recs, pos') \<longrightarrow> log_len recs \<le> unat (buf_size b)"
      proof (cases "pos < cb_write_pos (buf_control b)")
        case True
        then have pos: "unat pos < unat (buf_size b)" using facts(3) by (simp add: word_less_nat_alt)
        show ?thesis
        proof (cases rule: read_at_cases[OF conjunct1[OF pre], of crc pos])
          case 1
          have "unat (pos + Header_SIZE) = unat pos + 24"
            using pos facts(2) by (simp add: unat_plus_no_wrap)
          then show ?thesis using 1 step True pre IH[of crc b "pos + Header_SIZE" acc res] by simp
        next
          case (3 r n)
          then have "unat n = rec_len r" using read_at_record_ok(2) by blast
          moreover have "unat (pos + n) = unat pos + unat n"
            using 3 facts(2) by (simp add: unat_plus_no_wrap)
          ultimately show ?thesis using 3 step True pre IH[of crc b "pos + n" "acc @ [r]" res] by simp
        qed (use step True in auto)
      qed (use step pre in auto)
    qed
  qed (rule assms(1))
  then show ?thesis using assms(2-) by blast
qed

lemma read_all_fits:
  assumes "prb_inv b" and "read_all crc pad flush b = Some (Ok recs, b')"
  shows "log_len recs \<le> unat (buf_size b)"
  using assms(2) read_all_loop_fits[of crc b "cb_read_pos (buf_control b)" "[]"] assms(1)
  by (auto simp: read_all_def Let_def split: if_splits option.splits outcome.splits prod.splits)

lemma read_batch_record_ok:
  assumes "read_batch crc frames b n c = (Ok recs, c')"
  shows "\<forall>r\<in>set recs. record_ok crc r"
  using assms read_batch_loop_record_ok[of crc frames b _ c "[]"] by (auto simp: read_batch_def split: if_splits)

section \<open>The volatile buffer\<close>

lemma read_slots_record_ok:
  "read_slots crc k cons n acc b = (Ok (recs, cons', n'), b') \<Longrightarrow> \<forall>r\<in>set acc. record_ok crc r \<Longrightarrow>
   \<forall>r\<in>set recs. record_ok crc r"
proof (induction k arbitrary: cons n acc b)
  case (Suc k)
  let ?i = "physical_index (vb_cons_seq b) cons"
  let ?ptr = "unat (get_slot_data_ptr ?i b)"
  let ?h = "decode_record_header (subslice (vb_data b) ?ptr 24)"
  let ?d = "subslice (vb_data b) (?ptr + 24) (unat (rh_size ?h))"
  have ok: "record_ok crc \<lparr>r_header = ?h, r_data = ?d\<rparr>"
    if "in_data b (?ptr + 24) (unat (rh_size ?h))" "rh_verify_crc crc ?h ?d"
    using that by (simp add: record_ok_def rh_verify_crc_def in_data_def)
  show ?case
    using Suc.prems ok by (auto simp: Let_def split: if_splits intro!: Suc.IH dest!: Suc.IH)
qed simp

lemma vrb_read_record_ok:
  assumes "vrb_read crc pad a m = (Ok recs, m')"
  shows "\<forall>r\<in>set recs. record_ok crc r"
proof -
  let ?b = "buf_at a m"
  obtain out b1 where found: "read_slots crc (unat (vb_capacity ?b)) (ai_load (vb_cons_seq ?b)) 0 [] ?b = (out, b1)"
    by force
  then obtain s n where "out = Ok (recs, s, n)"
    using assms by (cases out) (auto simp: vrb_read_def Let_def run_then_Ok split: if_splits)
  then show ?thesis using read_slots_record_ok[of crc _ _ 0 "[]"] found by fastforce
qed

section \<open>Properties\<close>

text \<open>
  C17: \<open>read_all\<close> ends on every well-formed buffer, whatever bytes stand behind the control
  block, damaged and forged records included. It returns the records or an error and does
  not panic, the buffer stays well-formed, and the records it returns fit in the data section
  together with their headers.
\<close>

theorem read_all_ends:
  assumes "prb_inv b"
  shows "\<exists>res b'. read_all crc pad flush b = Some (res, b') \<and> prb_inv b' \<and> buf_size b' = buf_size b \<and>
     ((\<exists>e. res = Err e) \<or> (\<exists>recs. res = Ok recs \<and> log_len recs \<le> unat (buf_size b)))"
  by (rule read_all_returns[OF assms, of crc pad flush]) (use read_all_fits[OF assms] in auto)

theorem read_all_ends_witness:
  "\<exists>res b'. read_all crc32_ieee 0 None (demo_filled\<lparr>buf_mmap := put (buf_mmap demo_filled) 48 (replicate 64 7)\<rparr>)
     = Some (res, b') \<and> prb_inv b'"
proof -
  let ?b = "demo_filled\<lparr>buf_mmap := put (buf_mmap demo_filled) 48 (replicate 64 7)\<rparr>"
  have "prb_inv ?b"
    using demo_filled_ok(1) prb_inv_facts(1)[OF demo_filled_ok(1)] demo_filled_ok(3)
    by (simp add: prb_inv_def slice_put_before)
  from read_all_ends[OF this, of crc32_ieee 0 None] show ?thesis by blast
qed

text \<open>
  C18: whatever bytes the mapping holds, every record that a reader of the persistent buffer
  returns is well-formed: the length in its header is the length of its data and the checksum
  is that of its data. This holds of \<open>read_at\<close>, which also returns the size of the stored record,
  of \<open>read_all\<close>, and of \<open>next\<close> and \<open>read_batch\<close> of a cursor at any position.
\<close>

theorem readers_return_well_formed:
  "(\<forall>pos r n. read_at crc pos b = Ok (Some (r, n)) \<longrightarrow> record_ok crc r \<and> unat n = rec_len r) \<and>
   (\<forall>pad flush recs b'. read_all crc pad flush b = Some (Ok recs, b') \<longrightarrow> (\<forall>r\<in>set recs. record_ok crc r)) \<and>
   (\<forall>frames c r c'. cursor_next crc frames b c = (Ok (Some r), c') \<longrightarrow> record_ok crc r) \<and>
   (\<forall>frames n c recs c'. read_batch crc frames b n c = (Ok recs, c') \<longrightarrow> (\<forall>r\<in>set recs. record_ok crc r))"
  by (auto dest: read_at_record_ok read_all_record_ok cursor_next_record_ok read_batch_record_ok)

theorem readers_return_well_formed_witness:
  "record_ok crc32_ieee (stored crc32_ieee demo_record) \<and>
   (\<exists>recs b'. read_all crc32_ieee 0 None demo_filled = Some (Ok recs, b') \<and> length recs = 2 \<and>
      (\<forall>r\<in>set recs. record_ok crc32_ieee r)) \<and>
   (\<exists>r c'. cursor_next crc32_ieee 1 demo_filled (Cursor_new demo_filled None) = (Ok (Some r), c') \<and>
      record_ok crc32_ieee r) \<and>
   (\<exists>recs c'. read_batch crc32_ieee 1 demo_filled 2 (Cursor_new demo_filled None) = (Ok recs, c') \<and>
      length recs = 2 \<and> (\<forall>r\<in>set recs. record_ok crc32_ieee r))"
proof -
  note all = readers_return_well_formed[of crc32_ieee demo_filled]
  let ?s = "stored crc32_ieee demo_record" and ?c = "Cursor_new demo_filled None"
  have log: "holds_log crc32_ieee demo_filled ([] @ [demo_record, demo_record])"
    "\<forall>r\<in>set [demo_record, demo_record]. u32_ok r"
    "unat (cb_read_pos (buf_control demo_filled)) = log_len []"
    using demo_filled_ok demo_filled_counts demo_record_ok by (simp_all add: holds_log_def)
  have "read_at crc32_ieee (word_of_nat (log_len [])) demo_filled = Ok (Some (?s, word_of_nat (rec_len demo_record)))"
    using demo_filled_ok(1,2) demo_record_ok(1) by (intro read_at_record[where ys = "[demo_record]"]) simp_all
  then have at: "record_ok crc32_ieee ?s" "unat (word_of_nat (rec_len demo_record) :: usize) = rec_len ?s"
    using all by blast+
  obtain b' where "read_all crc32_ieee 0 None demo_filled = Some (Ok (map (stored crc32_ieee) [demo_record, demo_record]), b')"
    using read_all_log[of demo_filled crc32_ieee "[]" "[demo_record, demo_record]" 0] log by (auto simp: holds_log_def)
  then have "read_all crc32_ieee 0 None demo_filled = Some (Ok [?s, ?s], b')" by simp
  moreover have "\<forall>r\<in>set [?s, ?s]. record_ok crc32_ieee r" using all calculation by blast
  moreover obtain c' where "cursor_next crc32_ieee 1 demo_filled ?c = (Ok (Some ?s), c')"
    using cursor_next_record[OF Cursor_new_between[OF log], of 0] by (metis One_nat_def)
  moreover obtain c'' where "read_batch crc32_ieee 1 demo_filled 2 ?c
      = (Ok (map (stored crc32_ieee) (take (unat (2 :: usize)) [demo_record, demo_record])), c'')"
    using read_batch_between[OF Cursor_new_between[OF log], of 1 2] by auto
  moreover have "map (stored crc32_ieee) (take (unat (2 :: usize)) [demo_record, demo_record]) = [?s, ?s]" by simp
  ultimately show ?thesis using at
    by (intro conjI exI[of _ ?s] exI[of _ "[?s, ?s]"] exI[of _ b'] exI[of _ c'] exI[of _ c'']) simp_all
qed



end
