(* ===== verification/Concurrent.thy ===== *)
theory Concurrent
  imports Volatile_Safety
begin

text \<open>
  Concurrent producers in \<open>reserve\<close> (\<open>src/memory/volatile.rs\<close>). The loop is cut at its
  accesses to shared memory: the load of the production sequence, the load of the slot's
  state, the compare-and-swap, the store of the next sequence number and the store of the
  slot's sequence number are one step each, and the steps of any number of threads
  interleave freely with reads of the consumer.
\<close>

section \<open>The steps of one producer\<close>

text \<open>
  Where a producer stands: at the head of the loop, with a loaded sequence number, after
  seeing an empty slot, after claiming it, after advancing the production sequence, or at
  the end of the call (a reservation, nothing, all spins used, an index out of range).
\<close>

datatype producer =
    AtHead usize
  | Loaded usize usize
  | Checked usize usize
  | Holding usize
  | Stored usize
  | Finished usize usize
  | GivenUp
  | OutOfSpins
  | Crashed

definition retry :: "bool \<Rightarrow> usize \<Rightarrow> producer" where
  "retry block spins = (let spins' = spins + 1 in if \<not> block \<and> 10 < spins' then GivenUp else AtHead spins')"

fun producer_step :: "bool \<Rightarrow> producer \<Rightarrow> vrb \<Rightarrow> producer \<times> vrb" where
  "producer_step block (AtHead spins) b =
     (if spins < vb_max_spins b then (Loaded spins (ai_load (vb_prod_seq b)), b) else (OutOfSpins, b))"
| "producer_step block (Loaded spins s) b =
     (let i = unat (physical_index (vb_prod_seq b) s) in
      if length (vb_slots b) \<le> i then (Crashed, b)
      else if state_of (vb_slots b ! i) = Empty then (Checked spins s, b)
      else (retry block spins, b))"
| "producer_step block (Checked spins s) b =
     (let i = unat (physical_index (vb_prod_seq b) s) in
      case try_transition Empty Reserved (vb_slots b ! i) of
        (True, slot') \<Rightarrow> (Holding s, b\<lparr>vb_slots := (vb_slots b)[i := slot']\<rparr>)
      | (False, _) \<Rightarrow> (retry block spins, b))"
| "producer_step block (Holding s) b = (Stored s, b\<lparr>vb_prod_seq := ai_store (s + 1) (vb_prod_seq b)\<rparr>)"
| "producer_step block (Stored s) b =
     (let i = unat (physical_index (vb_prod_seq b) s) in
      (Finished (physical_index (vb_prod_seq b) s) s,
       b\<lparr>vb_slots := (vb_slots b)[i := set_seq s (vb_slots b ! i)]\<rparr>))"
| "producer_step block OutOfSpins b = (if block then AtHead 0 else OutOfSpins, b)"
| "producer_step block p b = (p, b)"

section \<open>Interleavings\<close>

text \<open>A state is the shared buffer and the producers, each with its blocking flag.\<close>

inductive conc_step :: "hasher \<Rightarrow> vrb \<times> (bool \<times> producer) list \<Rightarrow> vrb \<times> (bool \<times> producer) list \<Rightarrow> bool"
  for crc where
  produce: "i < length ts \<Longrightarrow> ts ! i = (block, p) \<Longrightarrow> producer_step block p b = (p', b') \<Longrightarrow>
     conc_step crc (b, ts) (b', ts[i := (block, p')])"
| consume_step: "read_slots crc (unat (vb_capacity b)) (ai_load (vb_cons_seq b)) 0 [] b = (out, b') \<Longrightarrow>
     conc_step crc (b, ts) (b', ts)"

inductive conc_reachable ::
  "hasher \<Rightarrow> usize \<Rightarrow> addr \<Rightarrow> bool list \<Rightarrow> vrb \<times> (bool \<times> producer) list \<Rightarrow> bool"
  for crc n sig blocks where
  conc_start: "conc_reachable crc n sig blocks (new_vrb n sig, map (\<lambda>block. (block, AtHead 0)) blocks)"
| conc_next: "conc_reachable crc n sig blocks st \<Longrightarrow> conc_step crc st st' \<Longrightarrow>
     conc_reachable crc n sig blocks st'"

section \<open>The invariant\<close>

fun owner :: "producer \<Rightarrow> nat option" where
  "owner (Stored s) = Some (unat s)"
| "owner (Finished i s) = Some (unat s)"
| "owner _ = None"

fun holding :: "producer \<Rightarrow> bool" where
  "holding (Holding s) = True"
| "holding _ = False"

fun seq_bound :: "nat \<Rightarrow> producer \<Rightarrow> bool" where
  "seq_bound n (Loaded k s) = (unat s \<le> n)"
| "seq_bound n (Checked k s) = (unat s \<le> n)"
| "seq_bound n (Holding s) = (unat s = n)"
| "seq_bound n (Stored s) = (unat s < n)"
| "seq_bound n (Finished i s) = (unat s < n \<and> unat i = unat s)"
| "seq_bound n Crashed = False"
| "seq_bound n _ = True"

abbreviation thread :: "(bool \<times> producer) list \<Rightarrow> nat \<Rightarrow> producer" where
  "thread ts i \<equiv> snd (ts ! i)"

definition someone_holds :: "(bool \<times> producer) list \<Rightarrow> bool" where
  "someone_holds ts \<longleftrightarrow> (\<exists>i<length ts. holding (thread ts i))"

definition shared_ok :: "vrb \<Rightarrow> bool \<Rightarrow> bool" where
  "shared_ok b held \<longleftrightarrow> vinv b \<and>
     (let n = unat (ai_value (vb_prod_seq b)) in
      n \<le> unat (vb_capacity b) \<and> (held \<longrightarrow> n < unat (vb_capacity b)) \<and>
      (\<forall>i<unat (vb_capacity b). state_of (vb_slots b ! i) =
         (if i < n \<or> (i = n \<and> held) then Reserved else Empty)))"

definition conc_inv :: "vrb \<Rightarrow> (bool \<times> producer) list \<Rightarrow> bool" where
  "conc_inv b ts \<longleftrightarrow> shared_ok b (someone_holds ts) \<and>
     (let n = unat (ai_value (vb_prod_seq b)) in
      (\<forall>i<length ts. seq_bound n (thread ts i)) \<and>
      (\<forall>i<length ts. \<forall>j<length ts. holding (thread ts i) \<and> holding (thread ts j) \<longrightarrow> i = j) \<and>
      (\<forall>i<length ts. \<forall>j<length ts. \<forall>s. owner (thread ts i) = Some s \<and>
         owner (thread ts j) = Some s \<longrightarrow> i = j) \<and>
      (\<forall>s<n. \<exists>i<length ts. owner (thread ts i) = Some s))"

lemma shared_okD:
  assumes "shared_ok b held"
  shows "vinv b" "unat (ai_value (vb_prod_seq b)) \<le> unat (vb_capacity b)"
    "held \<Longrightarrow> unat (ai_value (vb_prod_seq b)) < unat (vb_capacity b)"
    "i < unat (vb_capacity b) \<Longrightarrow> state_of (vb_slots b ! i) =
       (if i < unat (ai_value (vb_prod_seq b)) \<or> (i = unat (ai_value (vb_prod_seq b)) \<and> held)
        then Reserved else Empty)"
  using assms by (simp_all add: shared_ok_def Let_def)

lemma shared_ok_quiet: "shared_ok b held \<Longrightarrow> quiet_buf b"
  using vinv_facts(3)[of b]
  by (auto simp: shared_ok_def quiet_buf_def Let_def in_set_conv_nth split: if_splits)

text \<open>
  A compare-and-swap succeeds only on the slot behind the production sequence, and only
  when nobody holds it.
\<close>

lemma empty_slot_is_next:
  assumes "shared_ok b held" and "unat s \<le> unat (ai_value (vb_prod_seq b))"
    and "state_of (vb_slots b ! unat (physical_index (vb_prod_seq b) s)) = Empty"
  shows "unat s = unat (ai_value (vb_prod_seq b))" "\<not> held"
    "unat (ai_value (vb_prod_seq b)) < unat (vb_capacity b)"
    "unat (physical_index (vb_prod_seq b) s) = unat s"
proof -
  let ?n = "unat (ai_value (vb_prod_seq b))" and ?c = "unat (vb_capacity b)"
  note b = shared_okD[OF assms(1)]
  have idx: "unat (physical_index (vb_prod_seq b) s) = unat s mod ?c"
    by (rule unat_physical_index[OF vinv_facts(1)[OF b(1)]])
  have "unat s mod ?c < ?c" using vinv_facts(11)[OF b(1)] by simp
  from b(4)[OF this] assms(3) idx have free: "\<not> unat s mod ?c < ?n" "\<not> (unat s mod ?c = ?n \<and> held)"
    by (auto split: if_splits)
  moreover have "unat s mod ?c \<le> unat s" by simp
  ultimately have eq: "unat s mod ?c = unat s" "unat s = ?n" using assms(2) by linarith+
  then show "unat s = ?n" "\<not> held" "unat (physical_index (vb_prod_seq b) s) = unat s"
    using free idx by simp_all
  show "?n < ?c" using eq vinv_facts(11)[OF b(1)] by (metis mod_less_divisor)
qed

section \<open>Every step keeps the invariant\<close>

lemma thread_update:
  "i < length ts \<Longrightarrow> thread (ts[i := (block, p)]) j = (if j = i then p else thread ts j)"
  by (cases "j = i") simp_all

lemma someone_holds_update:
  assumes "i < length ts" and "holding p = holding (thread ts i)"
  shows "someone_holds (ts[i := (block, p)]) = someone_holds ts"
  using assms by (auto simp: someone_holds_def thread_update split: if_splits)

lemma conc_invD:
  assumes "conc_inv b ts"
  shows "shared_ok b (someone_holds ts)"
    "i < length ts \<Longrightarrow> seq_bound (unat (ai_value (vb_prod_seq b))) (thread ts i)"
    "i < length ts \<Longrightarrow> j < length ts \<Longrightarrow> holding (thread ts i) \<Longrightarrow> holding (thread ts j) \<Longrightarrow> i = j"
    "i < length ts \<Longrightarrow> j < length ts \<Longrightarrow> owner (thread ts i) = Some s \<Longrightarrow>
       owner (thread ts j) = Some s \<Longrightarrow> i = j"
    "s < unat (ai_value (vb_prod_seq b)) \<Longrightarrow> \<exists>i<length ts. owner (thread ts i) = Some s"
  using assms unfolding conc_inv_def Let_def by blast+

lemma conc_invI:
  assumes "shared_ok b (someone_holds ts)" and "n = unat (ai_value (vb_prod_seq b))"
    and "\<And>i. i < length ts \<Longrightarrow> seq_bound n (thread ts i)"
    and "\<And>i j. i < length ts \<Longrightarrow> j < length ts \<Longrightarrow> holding (thread ts i) \<Longrightarrow> holding (thread ts j) \<Longrightarrow> i = j"
    and "\<And>i j s. i < length ts \<Longrightarrow> j < length ts \<Longrightarrow> owner (thread ts i) = Some s \<Longrightarrow>
       owner (thread ts j) = Some s \<Longrightarrow> i = j"
    and "\<And>s. s < n \<Longrightarrow> \<exists>i<length ts. owner (thread ts i) = Some s"
  shows "conc_inv b ts"
  using assms unfolding conc_inv_def Let_def by blast

text \<open>A step that neither claims a slot nor advances the production sequence.\<close>

lemma local_step_inv:
  assumes inv: "conc_inv b ts" and i: "i < length ts"
    and same: "owner p = owner (thread ts i)" "holding p = holding (thread ts i)"
    and bound: "seq_bound (unat (ai_value (vb_prod_seq b))) p"
    and shared: "shared_ok b' (someone_holds ts)" "ai_value (vb_prod_seq b') = ai_value (vb_prod_seq b)"
  shows "conc_inv b' (ts[i := (block, p)])"
proof -
  let ?ts = "ts[i := (block, p)]" and ?n = "unat (ai_value (vb_prod_seq b))"
  have t: "owner (thread ?ts j) = owner (thread ts j)" "holding (thread ?ts j) = holding (thread ts j)" for j
    using same by (simp_all add: thread_update[OF i])
  have held: "someone_holds ?ts = someone_holds ts" by (rule someone_holds_update[OF i same(2)])
  show ?thesis
  proof (rule conc_invI[where n = ?n])
    show "seq_bound ?n (thread ?ts j)" if "j < length ?ts" for j
      using bound conc_invD(2)[OF inv, of j] that by (simp add: thread_update[OF i])
    show "j = l" if "j < length ?ts" "l < length ?ts" "owner (thread ?ts j) = Some m" "owner (thread ?ts l) = Some m"
      for j l m using conc_invD(4)[OF inv, of j l m] that by (simp add: t)
    show "j = l" if "j < length ?ts" "l < length ?ts" "holding (thread ?ts j)" "holding (thread ?ts l)"
      for j l using conc_invD(3)[OF inv, of j l] that by (simp add: t)
  qed (use shared held conc_invD(5)[OF inv] in \<open>simp_all add: t\<close>)
qed

lemma claim_step_inv:
  assumes inv: "conc_inv b ts" and i: "i < length ts" and p: "thread ts i = Checked k s"
    and free: "state_of (vb_slots b ! unat (physical_index (vb_prod_seq b) s)) = Empty"
  shows "conc_inv (b\<lparr>vb_slots := (vb_slots b)[unat (physical_index (vb_prod_seq b) s) :=
      set_state Reserved (vb_slots b ! unat (physical_index (vb_prod_seq b) s))]\<rparr>)
    (ts[i := (block, Holding s)])"
proof -
  let ?n = "unat (ai_value (vb_prod_seq b))" and ?ts = "ts[i := (block, Holding s)]"
  let ?b = "b\<lparr>vb_slots := (vb_slots b)[?n := set_state Reserved (vb_slots b ! ?n)]\<rparr>"
  note sh = shared_okD[OF conc_invD(1)[OF inv]]
  have "unat s \<le> ?n" using conc_invD(2)[OF inv i] p by simp
  note next_slot = empty_slot_is_next[OF conc_invD(1)[OF inv] this free]
  have held: "someone_holds ?ts" using i by (auto simp: someone_holds_def intro!: exI[of _ i])
  have nobody: "\<not> holding (thread ts j)" if "j < length ts" for j
    using next_slot(2) that by (auto simp: someone_holds_def)
  have "vinv ?b"
    using sh(1) set_update_subset_insert[of "vb_slots b" ?n "set_state Reserved (vb_slots b ! ?n)"]
    by (auto simp: vinv_def)
  then have ok: "shared_ok ?b True"
    using sh(2,4) next_slot(2,3) vinv_facts(3)[OF sh(1)]
    by (auto simp: shared_ok_def Let_def nth_list_update)
  have t: "owner (thread ?ts j) = owner (thread ts j)" for j using p by (simp add: thread_update[OF i])
  have "conc_inv ?b ?ts"
  proof (rule conc_invI[where n = ?n])
    show "shared_ok ?b (someone_holds ?ts)" using ok held by simp
    show "seq_bound ?n (thread ?ts j)" if "j < length ?ts" for j
      using conc_invD(2)[OF inv, of j] next_slot(1) that by (simp add: thread_update[OF i])
    show "j = l" if "j < length ?ts" "l < length ?ts" "owner (thread ?ts j) = Some m" "owner (thread ?ts l) = Some m"
      for j l m using conc_invD(4)[OF inv, of j l m] that by (simp add: t)
    show "j = l" if "j < length ?ts" "l < length ?ts" "holding (thread ?ts j)" "holding (thread ?ts l)"
      for j l using nobody that by (auto simp: thread_update[OF i] split: if_splits)
  qed (use conc_invD(5)[OF inv] in \<open>simp_all add: t\<close>)
  then show ?thesis using next_slot(1,4) by simp
qed

lemma advance_step_inv:
  assumes inv: "conc_inv b ts" and i: "i < length ts" and p: "thread ts i = Holding s"
  shows "conc_inv (b\<lparr>vb_prod_seq := ai_store (s + 1) (vb_prod_seq b)\<rparr>) (ts[i := (block, Stored s)])"
proof -
  let ?n = "unat (ai_value (vb_prod_seq b))" and ?ts = "ts[i := (block, Stored s)]"
  let ?b = "b\<lparr>vb_prod_seq := ai_store (s + 1) (vb_prod_seq b)\<rparr>"
  note sh = shared_okD[OF conc_invD(1)[OF inv]]
  have s: "unat s = ?n" using conc_invD(2)[OF inv i] p by simp
  have held: "someone_holds ts" using i p by (auto simp: someone_holds_def intro!: exI[of _ i])
  have n: "?n < unat (vb_capacity b)" by (rule sh(3)[OF held])
  then have s1: "unat (s + 1) = Suc ?n"
    using s vinv_facts(6)[OF sh(1)] by (simp add: unat_plus_no_wrap)
  have only: "j = i" if "j < length ts" "holding (thread ts j)" for j
    using conc_invD(3)[OF inv that(1) i that(2)] p by simp
  have free: "\<not> someone_holds ?ts" using only by (auto simp: someone_holds_def thread_update[OF i])
  have ok: "shared_ok ?b False"
    using sh(1,4) held n s1 by (auto simp: shared_ok_def Let_def vinv_def less_Suc_eq)
  have other: "owner (thread ts j) \<noteq> Some (unat s)" if "j < length ts" for j
    using conc_invD(2)[OF inv that] s by (cases "thread ts j") auto
  show ?thesis
  proof (rule conc_invI[where n = "Suc ?n"])
    show "shared_ok ?b (someone_holds ?ts)" "Suc ?n = unat (ai_value (vb_prod_seq ?b))"
      using ok free s1 by simp_all
    show "seq_bound (Suc ?n) (thread ?ts j)" if "j < length ?ts" for j
      using conc_invD(2)[OF inv, of j] only[of j] s that
      by (cases "thread ts j") (auto simp: thread_update[OF i])
    show "j = l" if "j < length ?ts" "l < length ?ts" "owner (thread ?ts j) = Some m" "owner (thread ?ts l) = Some m"
      for j l m using conc_invD(4)[OF inv, of j l m] other[of j] other[of l] that
      by (auto simp: thread_update[OF i] split: if_splits)
    show "j = l" if "j < length ?ts" "l < length ?ts" "holding (thread ?ts j)" "holding (thread ?ts l)"
      for j l using only[of j] that by (auto simp: thread_update[OF i] split: if_splits)
    show "\<exists>j<length ?ts. owner (thread ?ts j) = Some m" if "m < Suc ?n" for m
    proof (cases "m = ?n")
      case True
      then show ?thesis using i s by (intro exI[of _ i]) simp
    next
      case False
      then have "m < ?n" using that by simp
      then obtain j where "j < length ts" "owner (thread ts j) = Some m"
        using conc_invD(5)[OF inv] by blast
      then show ?thesis using p by (intro exI[of _ j]) (auto simp: thread_update[OF i])
    qed
  qed
qed

lemma finish_step_inv:
  assumes inv: "conc_inv b ts" and i: "i < length ts" and p: "thread ts i = Stored s"
  shows "conc_inv (b\<lparr>vb_slots := (vb_slots b)[unat (physical_index (vb_prod_seq b) s) :=
      set_seq s (vb_slots b ! unat (physical_index (vb_prod_seq b) s))]\<rparr>)
    (ts[i := (block, Finished (physical_index (vb_prod_seq b) s) s)])"
proof (rule local_step_inv[OF inv i])
  let ?k = "unat (physical_index (vb_prod_seq b) s)" and ?n = "unat (ai_value (vb_prod_seq b))"
  let ?b = "b\<lparr>vb_slots := (vb_slots b)[?k := set_seq s (vb_slots b ! ?k)]\<rparr>"
  note sh = shared_okD[OF conc_invD(1)[OF inv]]
  have s: "unat s < ?n" using conc_invD(2)[OF inv i] p by simp
  then have k: "?k = unat s"
    using unat_physical_index[OF vinv_facts(1)[OF sh(1)], of s] sh(2) by simp
  then show "seq_bound ?n (Finished (physical_index (vb_prod_seq b) s) s)" using s by simp
  have less: "?k < unat (vb_capacity b)" using k s sh(2) by simp
  have "vinv ?b"
    using sh(1) set_update_subset_insert[of "vb_slots b" ?k "set_seq s (vb_slots b ! ?k)"]
      vinv_slot_ok[OF sh(1) less] by (auto simp: vinv_def)
  moreover have "state_of (vb_slots ?b ! l) = state_of (vb_slots b ! l)" if "l < unat (vb_capacity b)" for l
    using that vinv_facts(3)[OF sh(1)] by (cases "l = ?k") simp_all
  ultimately show "shared_ok ?b (someone_holds ts)"
    using sh(2-4) by (simp add: shared_ok_def Let_def)
qed (simp_all add: p)

lemma seq_bound_retry [simp]: "seq_bound n (retry block k)" "owner (retry block k) = None"
  "holding (retry block k) = False"
  by (simp_all add: retry_def Let_def)

lemma producer_step_inv:
  assumes inv: "conc_inv b ts" and i: "i < length ts" and p: "ts ! i = (block, p)"
    and step: "producer_step block p b = (p', b')"
  shows "conc_inv b' (ts[i := (block, p')])"
proof -
  note sh = conc_invD(1)[OF inv] and bound = conc_invD(2)[OF inv i]
  have vinv: "vinv b" by (rule shared_okD(1)[OF sh])
  have idx: "unat (physical_index (vb_prod_seq b) s) < length (vb_slots b)" for s
    using physical_index_less[OF vinv_facts(1)[OF vinv]] vinv_facts(3)[OF vinv] by simp
  have stay: "conc_inv b (ts[i := (block, q)])"
    if "owner q = owner p" "holding q = holding p" "seq_bound (unat (ai_value (vb_prod_seq b))) q" for q
    by (rule local_step_inv[OF inv i]) (use that sh p in simp_all)
  show ?thesis
  proof (cases p)
    case (AtHead k)
    then show ?thesis using step stay by (auto simp: ai_load_def split: if_splits)
  next
    case (Loaded k s)
    then show ?thesis using step stay idx[of s] bound p by (auto simp: Let_def split: if_splits)
  next
    case (Checked k s)
    let ?sl = "vb_slots b ! unat (physical_index (vb_prod_seq b) s)"
    have cas: "try_transition Empty Reserved ?sl
        = (if state_of ?sl = Empty then (True, set_state Reserved ?sl) else (False, ?sl))"
      using vinv_slot_ok[OF vinv] idx[of s] vinv_facts(3)[OF vinv] by (intro try_transition_ok) simp
    show ?thesis
    proof (cases "state_of ?sl = Empty")
      case True
      then show ?thesis
        using claim_step_inv[OF inv i _ True, of k block] step cas Checked p by (auto simp: Let_def)
    next
      case False
      then show ?thesis using step cas Checked stay by (auto simp: Let_def)
    qed
  next
    case (Holding s)
    then show ?thesis using advance_step_inv[OF inv i, of s block] step p by auto
  next
    case (Stored s)
    then show ?thesis using finish_step_inv[OF inv i, of s block] step p by (auto simp: Let_def)
  qed (use step stay bound p in auto)
qed

lemma conc_reachable_inv:
  assumes "is_power_of_two n" and "unat n * 256 < 2 ^ 63"
  shows "conc_reachable crc n sig blocks (b, ts) \<Longrightarrow>
     conc_inv b ts \<and> vb_capacity b = n \<and> length ts = length blocks"
proof (induction "(b, ts)" arbitrary: b ts rule: conc_reachable.induct)
  case conc_start
  have "vinv (new_vrb n sig)" by (rule new_vrb_inv[OF assms])
  moreover have "vb_capacity (new_vrb n sig) = n" "ai_value (vb_prod_seq (new_vrb n sig)) = 0"
    "vb_slots (new_vrb n sig) = replicate (unat n) Slot_new"
    by (simp_all add: new_vrb_def) (simp_all add: empty_like_def)
  ultimately show ?case
    by (auto simp: conc_inv_def shared_ok_def someone_holds_def Let_def)
next
  case (conc_next st)
  obtain c us where st: "st = (c, us)" by (cases st)
  have inv: "conc_inv c us" and n: "vb_capacity c = n" "length us = length blocks"
    using conc_next(2)[OF st] by simp_all
  from conc_next(3)[unfolded st] show ?case
  proof (cases rule: conc_step.cases)
    case (produce i block p p')
    have "vb_capacity b = vb_capacity c"
      using produce(4) by (cases p) (auto simp: Let_def split: if_splits prod.splits bool.splits)
    then show ?thesis using producer_step_inv[OF inv produce(2-4)] produce(1) n by simp
  next
    case (consume_step out)
    have vinv: "vinv c" by (rule shared_okD(1)[OF conc_invD(1)[OF inv]])
    have "\<not> ready_at c s" for s
      using shared_ok_quiet[OF conc_invD(1)[OF inv]] ring_idx_less[OF vinv, of s] vinv_facts(3)[OF vinv]
      by (auto simp: quiet_buf_def ready_at_def slot_at_def dest!: bspec[OF _ nth_mem])
    then have "b = c" using consume_step(2) read_slots_stop[OF vinv] by auto
    then show ?thesis using inv n consume_step(1) by simp
  qed
qed

end
