(* ===== verification/Concurrent_Properties.thy ===== *)
theory Concurrent_Properties
  imports Concurrent Volatile_Properties
begin

text \<open>The properties of concurrent reservation, with instances on a buffer of four slots.\<close>

section \<open>The steps implement the loop\<close>

definition alone :: "bool \<Rightarrow> producer \<times> vrb \<Rightarrow> producer \<times> vrb" where
  "alone block st = producer_step block (fst st) (snd st)"

fun producer_end :: "spin_result run \<times> vrb \<Rightarrow> producer \<times> vrb" where
  "producer_end (Ok (Claimed i s), b) = (Finished i s, b)"
| "producer_end (Ok GaveUp, b) = (GivenUp, b)"
| "producer_end (Ok Exhausted, b) = (OutOfSpins, b)"
| "producer_end (_, b) = (Crashed, b)"

lemma alone_claims:
  assumes "vinv b" and "\<not> full b"
  shows "((alone block) ^^ 5) (AtHead 0, b) = producer_end (reserve_spin block 0 b)"
proof -
  let ?s = "ai_value (vb_prod_seq b)"
  let ?i = "physical_index (vb_prod_seq b) ?s"
  have idx: "unat ?i = prod_idx b" by (rule prod_idx_physical[OF assms(1)])
  have less: "prod_idx b < length (vb_slots b)"
    using prod_idx_less[OF assms(1)] vinv_facts(3)[OF assms(1)] by simp
  have phys: "physical_index (ai_store v (vb_prod_seq b)) ?s = ?i" for v
    by (simp add: physical_index_def ai_store_def)
  have st: "state_of (vb_slots b ! prod_idx b) = Empty" using assms(2) by (simp add: full_def)
  have cas: "try_transition Empty Reserved (vb_slots b ! prod_idx b)
      = (True, set_state Reserved (vb_slots b ! prod_idx b))"
    using st try_transition_ok[OF vinv_slot_ok[OF assms(1) prod_idx_less[OF assms(1)]], of Empty Reserved]
    by simp
  have five: "(5 :: nat) = Suc (Suc (Suc (Suc (Suc 0))))" by simp
  show ?thesis
    unfolding reserve_spin_claims[OF assms] five
    using less st cas vinv_facts(7)[OF assms(1)]
    by (simp add: alone_def ai_load_def Let_def idx phys claimed_def)
qed

lemma alone_full:
  assumes "vinv b" and "full b"
  shows "\<exists>k. ((alone block) ^^ k) (AtHead spins, b) = producer_end (reserve_spin block spins b)"
proof (induction "unat (100 :: usize) - unat spins" arbitrary: spins rule: less_induct)
  case less
  have idx: "unat (physical_index (vb_prod_seq b) (ai_value (vb_prod_seq b))) = prod_idx b"
    by (rule prod_idx_physical[OF assms(1)])
  have in_range: "prod_idx b < length (vb_slots b)"
    using prod_idx_less[OF assms(1)] vinv_facts(3)[OF assms(1)] by simp
  show ?case
  proof (cases "spins < 100")
    case False
    then have "((alone block) ^^ 1) (AtHead spins, b) = producer_end (reserve_spin block spins b)"
      using vinv_facts(7)[OF assms(1)] by (subst reserve_spin_step[OF assms]) (simp add: alone_def)
    then show ?thesis by blast
  next
    case True
    have two: "((alone block) ^^ 2) (AtHead spins, b) = (retry block spins, b)"
      using True assms(2) in_range vinv_facts(7)[OF assms(1)]
      by (simp add: numeral_2_eq_2 alone_def ai_load_def Let_def idx full_def)
    show ?thesis
    proof (cases "\<not> block \<and> 10 < spins + 1")
      case True
      then have "((alone block) ^^ 2) (AtHead spins, b) = producer_end (reserve_spin block spins b)"
        using two \<open>spins < 100\<close> by (subst reserve_spin_step[OF assms]) (simp add: retry_def)
      then show ?thesis by blast
    next
      case False
      obtain k where "((alone block) ^^ k) (AtHead (spins + 1), b) = producer_end (reserve_spin block (spins + 1) b)"
        using less[OF spins_decrease[OF \<open>spins < 100\<close>]] by blast
      moreover have "retry block spins = AtHead (spins + 1)" using False by (auto simp: retry_def)
      moreover have "producer_end (reserve_spin block spins b) = producer_end (reserve_spin block (spins + 1) b)"
        using False \<open>spins < 100\<close> by (subst reserve_spin_step[OF assms]) auto
      ultimately have "((alone block) ^^ (k + 2)) (AtHead spins, b) = producer_end (reserve_spin block spins b)"
        using two by (simp only: funpow_add comp_def)
      then show ?thesis by blast
    qed
  qed
qed

text \<open>
  The atomic steps implement the loop. A producer that runs without interference on a
  well-formed buffer reaches, in finitely many steps, exactly the end and the buffer that
  the sequential loop of \<open>reserve\<close> computes.
\<close>

theorem steps_implement_loop:
  assumes "vinv b"
  shows "\<exists>k. ((alone block) ^^ k) (AtHead 0, b) = producer_end (reserve_spin block 0 b)"
proof (cases "full b")
  case True
  then show ?thesis by (rule alone_full[OF assms])
next
  case False
  then show ?thesis using alone_claims[OF assms False, of block] by blast
qed

theorem steps_implement_loop_witness:
  "\<exists>k. fst (((alone False) ^^ k) (AtHead 0, buf_at 0 demo_store)) = Finished 0 0"
proof -
  have "producer_end (reserve_spin False 0 (buf_at 0 demo_store)) = (Finished 0 0, claimed (buf_at 0 demo_store))"
    using reserve_spin_claims[OF demo_store_ok(1), of False] after_claims_step(1)[OF demo_store_ok(6)]
      demo_store_ok(3,6) by (simp add: after_claims_def physical_index_def unat_eq_zero)
  then show ?thesis using steps_implement_loop[OF demo_store_ok(1), of False] by (metis fst_conv)
qed

section \<open>Exclusive slots\<close>

text \<open>
  C12: producers never share a slot. In every interleaving of any number of producers and
  reads, two producers whose reservations were granted have different slots and different
  sequence numbers.
\<close>

theorem producers_exclusive:
  assumes "conc_reachable crc n sig blocks (b, ts)" and "is_power_of_two n" and "unat n * 256 < 2 ^ 63"
    and "i < length ts" and "j < length ts" and "i \<noteq> j"
    and "thread ts i = Finished x s" and "thread ts j = Finished y t"
  shows "x \<noteq> y \<and> s \<noteq> t"
proof -
  have inv: "conc_inv b ts" using conc_reachable_inv[OF assms(2,3,1)] by simp
  have "unat s \<noteq> unat t" using conc_invD(4)[OF inv assms(4,5)] assms(6-8) by auto
  moreover have "unat x = unat s" "unat y = unat t"
    using conc_invD(2)[OF inv assms(4)] conc_invD(2)[OF inv assms(5)] assms(7,8) by simp_all
  ultimately show ?thesis by auto
qed

text \<open>
  C33: sequence numbers are handed out without gaps, and no more than there are slots. In
  every interleaving the numbers of the producers that passed the store of the production
  sequence are exactly the numbers below it, it never exceeds the capacity, and no access
  to the slots is out of range.
\<close>

theorem sequence_numbers_without_gaps:
  assumes "conc_reachable crc n sig blocks (b, ts)" and "is_power_of_two n" and "unat n * 256 < 2 ^ 63"
  shows "{s. \<exists>i<length ts. owner (thread ts i) = Some s} = {..<unat (ai_value (vb_prod_seq b))} \<and>
     unat (ai_value (vb_prod_seq b)) \<le> unat n \<and> (\<forall>i<length ts. thread ts i \<noteq> Crashed)"
proof -
  have inv: "conc_inv b ts" and n: "vb_capacity b = n" using conc_reachable_inv[OF assms(2,3,1)] by simp_all
  have "s < unat (ai_value (vb_prod_seq b))" if "i < length ts" "owner (thread ts i) = Some s" for i s
    using conc_invD(2)[OF inv that(1)] that(2) by (cases "thread ts i") auto
  moreover have "thread ts i \<noteq> Crashed" if "i < length ts" for i
    using conc_invD(2)[OF inv that] by auto
  ultimately show ?thesis
    using conc_invD(5)[OF inv] shared_okD(2)[OF conc_invD(1)[OF inv]] n by auto
qed

text \<open>Two producers on a buffer of four slots, after both have run one after the other.\<close>

lemma conc_run:
  assumes "conc_reachable crc n sig blocks (b, ts)" and "i < length ts" and "ts ! i = (block, p)"
    and "((alone block) ^^ k) (p, b) = (p', b')"
  shows "conc_reachable crc n sig blocks (b', ts[i := (block, p')])"
  using assms
proof (induction k arbitrary: p' b')
  case 0
  then show ?case by (metis Pair_inject funpow_0 list_update_id)
next
  case (Suc k)
  obtain q c where q: "((alone block) ^^ k) (p, b) = (q, c)" by fastforce
  then have "conc_reachable crc n sig blocks (c, ts[i := (block, q)])" using Suc by blast
  moreover have "alone block (q, c) = (p', b')" using Suc.prems(4) q by simp
  then have "producer_step block q c = (p', b')" by (simp add: alone_def)
  then have "conc_step crc (c, ts[i := (block, q)]) (b', (ts[i := (block, q)])[i := (block, p')])"
    using Suc.prems(2) by (intro conc_step.produce) simp_all
  ultimately show ?case using conc_reachable.conc_next by fastforce
qed

lemma two_producers:
  "conc_reachable crc32_ieee 4 0 [False, False]
     (claimed (claimed (new_vrb 4 0)), [(False, Finished 0 0), (False, Finished 1 1)])"
proof -
  let ?b = "new_vrb 4 0"
  have demo: "buf_at 0 demo_store = ?b" by (simp add: demo_store_def buf_at_def)
  have ac: "after_claims 0 ?b" and cap: "vb_capacity ?b = 4" and inv: "vinv ?b"
    using demo_store_ok(6,3,1) demo by simp_all
  have ac1: "after_claims (Suc 0) (claimed ?b)" using after_claims_step(2)[OF ac] cap by simp
  have inv1: "vinv (claimed ?b)" by (rule claimed_inv[OF inv])
  have mask: "ai_mask (vb_prod_seq ?b) = 3" "ai_mask (vb_prod_seq (claimed ?b)) = 3"
    by (simp_all add: claimed_def ai_store_def) (simp_all add: new_vrb_def empty_like_def)
  have seqs: "ai_value (vb_prod_seq ?b) = 0" "ai_value (vb_prod_seq (claimed ?b)) = 1"
    by (simp_all add: claimed_def) (simp_all add: new_vrb_def empty_like_def)
  have one: "((alone False) ^^ 5) (AtHead 0, ?b) = (Finished 0 0, claimed ?b)"
    using alone_claims[OF inv, of False] reserve_spin_claims[OF inv, of False] after_claims_step(1)[OF ac] cap
      seqs(1) mask(1) by (simp add: physical_index_def)
  have two: "((alone False) ^^ 5) (AtHead 0, claimed ?b) = (Finished 1 1, claimed (claimed ?b))"
    using alone_claims[OF inv1, of False] reserve_spin_claims[OF inv1, of False] after_claims_step(1)[OF ac1] cap
      seqs(2) mask(2) by (simp add: physical_index_def)
  have "conc_reachable crc32_ieee 4 0 [False, False] (?b, [(False, AtHead 0), (False, AtHead 0)])"
    using conc_reachable.conc_start[of crc32_ieee 4 0 "[False, False]"] by simp
  from conc_run[OF this, of 0, OF _ _ one]
  have "conc_reachable crc32_ieee 4 0 [False, False] (claimed ?b, [(False, Finished 0 0), (False, AtHead 0)])"
    by simp
  from conc_run[OF this, of 1, OF _ _ two] show ?thesis by simp
qed

theorem producers_exclusive_witness:
  "\<exists>b ts x s y t. conc_reachable crc32_ieee 4 0 [False, False] (b, ts) \<and>
     thread ts 0 = Finished x s \<and> thread ts 1 = Finished y t \<and> x \<noteq> y \<and> s \<noteq> t"
proof -
  have "(0 :: usize) \<noteq> 1 \<and> (0 :: usize) \<noteq> 1"
    by (rule producers_exclusive[OF two_producers power_four(1), of 0 1]) simp_all
  then show ?thesis using two_producers by fastforce
qed

theorem sequence_numbers_without_gaps_witness:
  "{s. \<exists>i<length [(False, Finished 0 0), (False, Finished 1 1)].
      owner (thread [(False, Finished 0 0), (False, Finished 1 1)] i) = Some s}
     = {..<unat (ai_value (vb_prod_seq (claimed (claimed (new_vrb 4 0)))))}"
proof -
  have "unat (4 :: usize) * 256 < 2 ^ 63" by simp
  then show ?thesis
    using sequence_numbers_without_gaps[OF two_producers power_four(1)] by blast
qed

end
