(* ===== verification/Sherlog.thy ===== *)
theory Sherlog
  imports Volatile Cursor
begin

text \<open>
  The library of \<open>src/lib.rs\<close>: the two global buffers behind once-cells, the flag of the
  flush daemon, one iteration of the daemon's loop and the loop itself, and the functions
  that write to and reserve from the global buffer. Persistent buffers are shared objects
  and mappings of files: the bytes of the files are kept once, per path, and every
  operation on a persistent buffer works on the bytes of its file.
\<close>

section \<open>State\<close>

record lib =
  lib_mem :: mem
  lib_volatile :: "addr option"
  lib_disks :: "prb list"
  lib_files :: "string \<Rightarrow> bytes"
  lib_persistent :: "addr option"
  lib_daemon_running :: bool

definition lib_start :: "(string \<Rightarrow> bytes) \<Rightarrow> lib" where
  "lib_start files = \<lparr>lib_mem = \<lparr>mem_bufs = [], mem_signals = []\<rparr>, lib_volatile = None,
     lib_disks = [], lib_files = files, lib_persistent = None, lib_daemon_running = False\<rparr>"

definition disk_at :: "addr \<Rightarrow> lib \<Rightarrow> prb" where
  "disk_at p L = (lib_disks L ! p)\<lparr>buf_mmap := lib_files L (buf_path (lib_disks L ! p))\<rparr>"

definition set_disk :: "addr \<Rightarrow> prb \<Rightarrow> lib \<Rightarrow> lib" where
  "set_disk p b L = L\<lparr>lib_disks := (lib_disks L)[p := b],
     lib_files := (lib_files L)(buf_path b := buf_mmap b)\<rparr>"

section \<open>The global buffers\<close>

text \<open>\<open>OnceCell::get_or_init\<close> with a value at hand: only the first value is kept.\<close>

definition once :: "'a \<Rightarrow> 'a option \<Rightarrow> 'a option" where
  "once x cell = (case cell of None \<Rightarrow> Some x | Some y \<Rightarrow> Some y)"

definition new_memory_buffer :: "usize \<Rightarrow> lib \<Rightarrow> addr run \<times> lib" where
  "new_memory_buffer cap L =
     (let (created, m1) = VolatileRingBuffer_new cap (lib_mem L) in
      run_then (created, L\<lparr>lib_mem := m1\<rparr>) (\<lambda>b L1.
        let (a, m2) = arc_new b (lib_mem L1) in (Ok a, L1\<lparr>lib_mem := m2\<rparr>)))"

definition init_memory_buffer :: "usize \<Rightarrow> lib \<Rightarrow> addr run \<times> lib" where
  "init_memory_buffer cap L =
     run_then (new_memory_buffer cap L) (\<lambda>a L1.
       (Ok a, L1\<lparr>lib_volatile := once a (lib_volatile L1)\<rparr>))"

definition get_memory_buffer :: "lib \<Rightarrow> addr run \<times> lib" where
  "get_memory_buffer L =
     (case lib_volatile L of
        Some a \<Rightarrow> (Ok a, L)
      | None \<Rightarrow> run_then (new_memory_buffer 4096 L) (\<lambda>a L1.
          (Ok a, L1\<lparr>lib_volatile := Some a\<rparr>)))"

text \<open>
  Opening a persistent buffer and wrapping it in an \<open>Arc\<close>; an error is turned into a panic
  by the caller (\<open>panic!\<close> in one, \<open>expect\<close> in the other).
\<close>

definition open_disk ::
  "hasher \<Rightarrow> u32 \<Rightarrow> open_env \<Rightarrow> panic_reason \<Rightarrow> string \<Rightarrow> usize \<Rightarrow> lib \<Rightarrow> addr run \<times> lib" where
  "open_disk crc pad env reason path sz L =
     (let (opened, bytes) = PersistentRingBuffer_new crc pad env path sz (lib_files L path);
          L1 = L\<lparr>lib_files := (lib_files L)(path := bytes)\<rparr>
      in
      case opened of
        Ok b \<Rightarrow> (Ok (length (lib_disks L1)), L1\<lparr>lib_disks := lib_disks L1 @ [b]\<rparr>)
      | Err e \<Rightarrow> (Panic reason, L1)
      | Panic p \<Rightarrow> (Panic p, L1)
      | Undefined \<Rightarrow> (Undefined, L1))"

definition init_persistent_buffer ::
  "hasher \<Rightarrow> u32 \<Rightarrow> open_env \<Rightarrow> string \<Rightarrow> usize \<Rightarrow> lib \<Rightarrow> addr run \<times> lib" where
  "init_persistent_buffer crc pad env path sz L =
     run_then (open_disk crc pad env ExplicitPanic path sz L) (\<lambda>p L1.
       (Ok p, L1\<lparr>lib_persistent := once p (lib_persistent L1)\<rparr>))"

text \<open>\<open>temp_path\<close> is \<open>sherlog_temp.dat\<close> in the directory for temporary files.\<close>

definition get_persistent_buffer ::
  "hasher \<Rightarrow> u32 \<Rightarrow> open_env \<Rightarrow> string \<Rightarrow> lib \<Rightarrow> addr run \<times> lib" where
  "get_persistent_buffer crc pad env temp_path L =
     (case lib_persistent L of
        Some p \<Rightarrow> (Ok p, L)
      | None \<Rightarrow> run_then (open_disk crc pad env ExpectFailed temp_path (10 * 1024 * 1024) L) (\<lambda>p L1.
          (Ok p, L1\<lparr>lib_persistent := Some p\<rparr>)))"

section \<open>The flush daemon\<close>

record daemon_config =
  interval_ms :: u64
  high_watermark_percent :: f32
  max_records_per_flush :: usize

definition FlushDaemonConfig_default :: daemon_config where
  "FlushDaemonConfig_default =
     \<lparr>interval_ms = 1000, high_watermark_percent = Fin 75, max_records_per_flush = 100\<rparr>"

text \<open>The batch size of one iteration, adapted to the usage.\<close>

definition batch_size :: "daemon_config \<Rightarrow> f32 \<Rightarrow> usize" where
  "batch_size config usage =
     (let high = high_watermark_percent config; most = max_records_per_flush config;
          size = (if high < usage then f32_to_usize (f32_mul (f32_of_usize most) (Fin (3 / 2)))
                  else if usage < f32_div high (Fin 2) then most div 2
                  else most)
      in max size 1)"

text \<open>
  The writes of one iteration; \<open>flushes i\<close> is the result of syncing the mapping in the
  \<open>i\<close>-th write. The loop ends at the first error; the result counts the writes before it.
\<close>

fun flush_records ::
  "hasher \<Rightarrow> u32 \<Rightarrow> (nat \<Rightarrow> io_error option) \<Rightarrow> addr \<Rightarrow> log_record list \<Rightarrow> nat \<Rightarrow> lib \<Rightarrow>
   nat run \<times> lib" where
  "flush_records crc pad flushes p [] success_count L = (Ok success_count, L)"
| "flush_records crc pad flushes p (r # rs) success_count L =
     (let (res, b) = prb_write crc pad (flushes success_count) r (disk_at p L);
          L1 = set_disk p b L
      in
      case res of
        Ok _ \<Rightarrow> flush_records crc pad flushes p rs (Suc success_count) L1
      | Err e \<Rightarrow> (Ok success_count, L1)
      | Panic q \<Rightarrow> (Panic q, L1)
      | Undefined \<Rightarrow> (Undefined, L1))"

text \<open>
  What the environment decides in one iteration: whether a wait for data ends with a
  notification, and the results of syncing the mapping.
\<close>

record daemon_env =
  de_notified :: bool
  de_flushes :: "nat \<Rightarrow> io_error option"
  de_final_flush :: "io_error option"

text \<open>Whether to flush; the wait is only entered below the watermark.\<close>

definition should_flush :: "daemon_config \<Rightarrow> bool \<Rightarrow> f32 \<Rightarrow> addr \<Rightarrow> mem \<Rightarrow> bool \<times> mem" where
  "should_flush config notified usage a m =
     (if high_watermark_percent config \<le> usage then (True, m)
      else
      case wait_for_data (Some (interval_ms config)) notified a m of
        Some (w, m') \<Rightarrow> (w, m')
      | None \<Rightarrow> (False, m))"

definition daemon_iteration ::
  "hasher \<Rightarrow> u32 \<Rightarrow> daemon_config \<Rightarrow> addr \<Rightarrow> addr \<Rightarrow> daemon_env \<Rightarrow> lib \<Rightarrow> unit run \<times> lib" where
  "daemon_iteration crc pad config a p env L =
     (let usage = usage_percent (buf_at a (lib_mem L));
          batch = batch_size config usage;
          (flush, m1) = should_flush config (de_notified env) usage a (lib_mem L);
          L1 = L\<lparr>lib_mem := m1\<rparr>
      in
      if flush then
        (let (got, m2) = vrb_read crc pad a (lib_mem L1) in
         run_then (got, L1\<lparr>lib_mem := m2\<rparr>) (\<lambda>records L2.
           if records \<noteq> [] then
             run_then (flush_records crc pad (de_flushes env) p (take (unat batch) records) 0 L2)
               (\<lambda>success_count L3.
                 if 0 < success_count then
                   (case prb_flush (de_final_flush env) (disk_at p L3) of
                      Panic q \<Rightarrow> (Panic q, L3)
                    | Undefined \<Rightarrow> (Undefined, L3)
                    | _ \<Rightarrow> (Ok (), L3))
                 else (Ok (), L3))
           else (Ok (), L2)))
      else (Ok (), L1))"

text \<open>
  The loop of the daemon thread. Before every test of the flag other threads may have
  changed the state: each element of the list is what they did, with the inputs of the
  iteration that follows. The first component of the result tells whether the loop has
  ended (\<open>True\<close>) or is still running when the list is used up.
\<close>

fun daemon_loop ::
  "hasher \<Rightarrow> u32 \<Rightarrow> daemon_config \<Rightarrow> addr \<Rightarrow> addr \<Rightarrow> ((lib \<Rightarrow> lib) \<times> daemon_env) list \<Rightarrow> lib \<Rightarrow>
   bool run \<times> lib" where
  "daemon_loop crc pad config a p [] L = (Ok False, L)"
| "daemon_loop crc pad config a p ((others, env) # rest) L =
     (let L0 = others L in
      if lib_daemon_running L0 then
        run_then (daemon_iteration crc pad config a p env L0) (\<lambda>_ L1.
          daemon_loop crc pad config a p rest L1)
      else (Ok True, L0))"

text \<open>
  Starting the daemon sets the flag, fetches the buffers and spawns the thread; the result
  is what the thread captures. \<open>spawned\<close> is whether the operating system grants a thread.
\<close>

definition start_flush_daemon ::
  "hasher \<Rightarrow> u32 \<Rightarrow> open_env \<Rightarrow> string \<Rightarrow> bool \<Rightarrow> daemon_config \<Rightarrow> lib \<Rightarrow>
   (daemon_config \<times> addr \<times> addr) run \<times> lib" where
  "start_flush_daemon crc pad env temp_path spawned config L =
     run_then (get_memory_buffer (L\<lparr>lib_daemon_running := True\<rparr>)) (\<lambda>a L1.
     run_then (get_persistent_buffer crc pad env temp_path L1) (\<lambda>p L2.
       if spawned then (Ok (config, a, p), L2) else (Panic ExpectFailed, L2)))"

definition stop_flush_daemon :: "lib \<Rightarrow> lib" where
  "stop_flush_daemon L = L\<lparr>lib_daemon_running := False\<rparr>"

section \<open>Writing through the library\<close>

text \<open>An operation on the volatile store, lifted to the state of the library.\<close>

definition on_mem :: "(mem \<Rightarrow> 'a run \<times> mem) \<Rightarrow> lib \<Rightarrow> 'a run \<times> lib" where
  "on_mem f L = (let (res, m) = f (lib_mem L) in (res, L\<lparr>lib_mem := m\<rparr>))"

definition lib_write ::
  "hasher \<Rightarrow> u32 \<Rightarrow> nat option \<Rightarrow> bytes \<Rightarrow> u32 \<Rightarrow> lib \<Rightarrow> bool run \<times> lib" where
  "lib_write crc pad clock data tag L =
     run_then (get_memory_buffer L) (\<lambda>a L1.
       on_mem (vrb_write pad (Record_new crc clock data tag) a) L1)"

definition lib_reserve :: "nat \<Rightarrow> usize \<Rightarrow> bool \<Rightarrow> lib \<Rightarrow> reservation option run \<times> lib" where
  "lib_reserve frames sz block L =
     run_then (get_memory_buffer L) (\<lambda>a L1.
       if sz \<le> slot_size (buf_at a (lib_mem L1)) - RecordHeader_SIZE
       then on_mem (reserve frames sz block a) L1
       else (Panic AssertFailed, L1))"

end
