(* ===== verification/Sherlog_Properties.thy ===== *)
theory Sherlog_Properties
  imports Sherlog Volatile_Properties Cursor_Properties
begin

text \<open>
  The properties of the library: the figures the flush daemon works with, what one of its
  iterations moves from memory to disk, how its loop ends, and how the global buffers are
  initialised and used.
\<close>

section \<open>Shared objects\<close>

lemma disk_at_set_disk [simp]: "p < length (lib_disks L) \<Longrightarrow> disk_at p (set_disk p b L) = b"
  by (simp add: disk_at_def set_disk_def)

lemma set_disk_simps [simp]:
  "length (lib_disks (set_disk p b L)) = length (lib_disks L)" "lib_mem (set_disk p b L) = lib_mem L"
  by (simp_all add: set_disk_def)

lemma disk_at_mem [simp]: "disk_at p (L\<lparr>lib_mem := m\<rparr>) = disk_at p L"
  by (simp add: disk_at_def)

section \<open>The writes of an iteration\<close>

text \<open>
  How many of \<open>k\<close> writes are made when the one numbered \<open>n\<close> comes first: up to and including
  the first whose sync fails, because a record is stored before the mapping is synced.
\<close>

fun attempted :: "(nat \<Rightarrow> io_error option) \<Rightarrow> nat \<Rightarrow> nat \<Rightarrow> nat" where
  "attempted flushes n 0 = 0"
| "attempted flushes n (Suc k) =
     (if flushes n = None then Suc (attempted flushes (Suc n) k) else 1)"

lemma attempted_all: "\<forall>i. flushes i = None \<Longrightarrow> attempted flushes n k = k"
  by (induction k arbitrary: n) simp_all

lemma attempted_until:
  "\<forall>i<k. flushes (n + i) = None \<Longrightarrow> flushes (n + k) \<noteq> None \<Longrightarrow> k < m \<Longrightarrow> attempted flushes n m = Suc k"
proof (induction m arbitrary: n k)
  case (Suc m)
  show ?case
  proof (cases k)
    case 0
    then show ?thesis using Suc.prems by auto
  next
    case (Suc j)
    have "\<forall>i<j. flushes (Suc n + i) = None" "flushes (Suc n + j) \<noteq> None" "j < m"
      and "flushes n = None" using Suc.prems Suc by (simp_all add: All_less_Suc2)
    then show ?thesis using Suc.IH[of j "Suc n"] Suc by simp
  qed
qed simp

lemma attempted_le: "attempted flushes n k \<le> k"
  by (induction k arbitrary: n) simp_all

lemma flush_records_log:
  assumes "p < length (lib_disks L)" and "holds_log crc (disk_at p L) xs" and "\<forall>r\<in>set rs. u32_ok r"
    and "log_len xs + log_len rs \<le> unat (buf_size (disk_at p L))"
  shows "\<exists>c L'. flush_records crc pad flushes p rs n L = (Ok c, L') \<and> p < length (lib_disks L') \<and>
     holds_log crc (disk_at p L') (xs @ take (attempted flushes n (length rs)) rs) \<and> lib_mem L' = lib_mem L"
  using assms
proof (induction rs arbitrary: xs n L)
  case (Cons r rs)
  let ?b = "disk_at p L"
  let ?L = "set_disk p (written crc pad r ?b) L"
  have inv: "prb_inv ?b" and ok: "u32_ok r" and len: "rec_len r \<le> unat (buf_size ?b)"
    using Cons.prems by (simp_all add: holds_log_def)
  have w: "prb_write crc pad (flushes n) r ?b
      = (case flushes n of None \<Rightarrow> Ok () | Some e \<Rightarrow> Err (Io e), written crc pad r ?b)"
    using prb_write_eq[OF inv u32_imp_vec[OF ok] len, of crc pad "flushes n"] .
  have "holds_log crc (disk_at p ?L) (xs @ [r])" "buf_size (disk_at p ?L) = buf_size ?b"
    using try_write_eq(2,3)[OF Cons.prems(2) ok len, of pad] Cons.prems(1,4) by (simp_all add: log_write_def)
  then show ?case
    using Cons.IH[of ?L "xs @ [r]" "Suc n"] Cons.prems w by (cases "flushes n") (auto simp: Let_def)
qed simp

lemma prb_flush_returns: "prb_inv b \<Longrightarrow> \<not> panics (prb_flush flush b)"
  by (simp add: prb_flush_def prb_inv_facts(6) split: option.split)

lemma consume_read: "consume crc pad a m = Some (rs, m') \<longleftrightarrow> vrb_read crc pad a m = (Ok rs, m')"
  by (auto simp: consume_def split: prod.splits outcome.splits)

lemma fits_u32: "fits_slot r \<Longrightarrow> u32_ok r"
  by (simp add: fits_slot_def u32_ok_def)

text \<open>An iteration that flushes, on a volatile buffer that holds records.\<close>

lemma iteration_flushes:
  assumes "should_flush config (de_notified env) (usage_percent (buf_at a (lib_mem L))) a (lib_mem L) = (True, m1)"
    and "fifo_at a cap m1 rs" and "\<forall>r\<in>set rs. fits_slot r"
    and "p < length (lib_disks L)" and "holds_log crc (disk_at p L) xs"
    and "ys = take (unat (batch_size config (usage_percent (buf_at a (lib_mem L))))) (filter (intact crc) rs)"
    and "log_len xs + log_len ys \<le> unat (buf_size (disk_at p L))"
  shows "\<exists>L'. daemon_iteration crc pad config a p env L = (Ok (), L') \<and>
     holds_log crc (disk_at p L') (xs @ take (attempted (de_flushes env) 0 (length ys)) ys) \<and>
     fifo_at a cap (lib_mem L') []"
proof -
  obtain m2 where m2: "vrb_read crc pad a m1 = (Ok (filter (intact crc) rs), m2)" "fifo_at a cap m2 []"
    using slots.deq_drains[OF assms(2), of crc pad] consume_read by blast
  show ?thesis
  proof (cases "filter (intact crc) rs = []")
    case True
    then show ?thesis
      using assms(1,5,6) m2 by (simp add: daemon_iteration_def Let_def)
  next
    case False
    let ?L2 = "L\<lparr>lib_mem := m2\<rparr>" and ?zs = "take (attempted (de_flushes env) 0 (length ys)) ys"
    have "\<forall>r\<in>set ys. u32_ok r"
      using assms(3,6) fits_u32 by (auto dest!: in_set_takeD)
    then obtain c L3 where L3: "flush_records crc pad (de_flushes env) p ys 0 ?L2 = (Ok c, L3)"
      "holds_log crc (disk_at p L3) (xs @ ?zs)" "lib_mem L3 = m2"
      using flush_records_log[of p ?L2 crc xs ys pad "de_flushes env" 0] assms(4,5,7) by auto
    have "\<not> panics (prb_flush (de_final_flush env) (disk_at p L3))"
      using L3(2) by (intro prb_flush_returns) (simp add: holds_log_def)
    then show ?thesis
      using assms(1,6) m2 L3 False
      by (cases "prb_flush (de_final_flush env) (disk_at p L3)")
         (auto simp: daemon_iteration_def Let_def)
  qed
qed

lemma should_flush_signalled:
  assumes "mem_signals m ! vb_consumer_signal (buf_at a m) \<or> high_watermark_percent config \<le> usage"
  shows "\<exists>m1. should_flush config notified usage a m = (True, m1) \<and> mem_bufs m1 = mem_bufs m"
  using assms
  by (cases "high_watermark_percent config \<le> usage")
     (simp_all add: should_flush_def wait_for_data_def Let_def)

text \<open>The same for a buffer whose records are signalled or which is filled up to the watermark.\<close>

lemma iteration_signalled:
  assumes "fifo_at a cap (lib_mem L) rs" and "\<forall>r\<in>set rs. fits_slot r"
    and "mem_signals (lib_mem L) ! vb_consumer_signal (buf_at a (lib_mem L)) \<or>
      high_watermark_percent config \<le> usage_percent (buf_at a (lib_mem L))"
    and "p < length (lib_disks L)" and "holds_log crc (disk_at p L) xs"
    and "ys = take (unat (batch_size config (usage_percent (buf_at a (lib_mem L))))) (filter (intact crc) rs)"
    and "log_len xs + log_len ys \<le> unat (buf_size (disk_at p L))"
  shows "\<exists>L'. daemon_iteration crc pad config a p env L = (Ok (), L') \<and>
     holds_log crc (disk_at p L') (xs @ take (attempted (de_flushes env) 0 (length ys)) ys) \<and>
     fifo_at a cap (lib_mem L') []"
proof -
  obtain m1 where m1: "should_flush config (de_notified env) (usage_percent (buf_at a (lib_mem L))) a (lib_mem L)
      = (True, m1)" "mem_bufs m1 = mem_bufs (lib_mem L)"
    using should_flush_signalled[OF assms(3)] by blast
  then have "fifo_at a cap m1 rs" using assms(1) by (simp add: fifo_at_def buf_at_def)
  from iteration_flushes[OF m1(1) this assms(2,4-7)] show ?thesis .
qed

section \<open>Usage and batch size\<close>

text \<open>
  C40: the usage figure of a buffer with no more reserved and unread slots than its
  capacity lies between 0 and 100 and is 0 for an empty and 100 for a full buffer; it is
  the exact percentage as long as single precision can express it.
\<close>

theorem usage_in_range:
  assumes "vinv b" and "used_slots b \<le> unat (vb_capacity b)"
  shows "\<exists>x. usage_percent b = Fin x \<and> 0 \<le> x \<and> x \<le> 100 \<and>
     (used_slots b = 0 \<longrightarrow> x = 0) \<and> (used_slots b = unat (vb_capacity b) \<longrightarrow> x = 100) \<and>
     (used_slots b * 100 < 2 ^ 24 \<longrightarrow>
        x = 100 * of_nat (used_slots b) / of_nat (unat (vb_capacity b)))"
  using usage_percent_range[OF assms] usage_percent_exact[OF assms(1)] by auto

theorem usage_in_range_witness:
  "usage_percent (claimed (claimed (claimed (buf_at 0 demo_store)))) = Fin 75"
proof -
  let ?b = "claimed (claimed (claimed (buf_at 0 demo_store)))"
  have "after_claims (Suc 0) (claimed (buf_at 0 demo_store))"
    by (rule after_claims_step(2)[OF demo_store_ok(6)]) (simp add: demo_store_ok(3))
  then have "after_claims (Suc (Suc 0)) (claimed (claimed (buf_at 0 demo_store)))"
    by (rule after_claims_step(2)) (simp add: demo_store_ok(3))
  then have "after_claims (Suc (Suc (Suc 0))) ?b"
    by (rule after_claims_step(2)) (simp add: demo_store_ok(3))
  then have ac: "after_claims 3 ?b" by (simp only: numeral_3_eq_3)
  have "ai_value (vb_cons_seq ?b) = 0"
    by (simp add: demo_store_def buf_at_def) (simp add: new_vrb_def empty_like_def)
  then have u: "used_slots ?b = 3" using ac by (simp add: used_slots_def after_claims_def)
  show ?thesis
    using usage_in_range[of ?b] ac u demo_store_ok(3) by (auto simp: after_claims_def)
qed

text \<open>
  The batch size of an iteration is never zero, whatever the configuration and the
  usage; with the default configuration it is 150 above the watermark, 50 below half of
  it and 100 in between.
\<close>

theorem batch_sizes:
  "0 < batch_size config usage \<and>
   batch_size FlushDaemonConfig_default (Fin x) =
     (if 75 < x then 150 else if x < 75 / 2 then 50 else 100)"
proof -
  have "max n 1 \<noteq> (0 :: usize)" for n
    using max.cobounded2[of 1 n] by (auto simp: word_le_nat_alt)
  then have "0 < batch_size config usage" by (simp add: batch_size_def Let_def word_gt_0)
  moreover have "f32_of_usize 100 = Fin 100" using f32_of_usize_exact[of 100] by simp
  moreover have "round_f32 150 = Fin 150" by (rule round_f32_exact[of _ 150 0]) simp_all
  moreover have "round_f32 (75 / 2) = Fin (75 / 2)"
    by (rule round_f32_exact[of _ 75 "- 1"]) (simp_all add: power_int_minus)
  moreover have "\<not> (150 :: usize) \<le> 1" "\<not> (100 :: usize) \<le> 1" "\<not> (50 :: usize) \<le> 1"
    by (simp_all add: word_le_nat_alt)
  ultimately show ?thesis
    by (simp add: batch_size_def FlushDaemonConfig_default_def Let_def max_def)
qed

section \<open>Moving records to disk\<close>

text \<open>
  C9: what one iteration of the flush daemon moves, on a volatile buffer that holds
  records and has signalled them. The first records of the batch size are appended to the
  persistent log in order; all records are taken out of the volatile buffer, so the ones
  beyond the batch size are lost.
\<close>

theorem daemon_moves_one_batch:
  assumes "fifo_at a cap (lib_mem L) rs" and "\<forall>r\<in>set rs. fits_slot r"
    and "mem_signals (lib_mem L) ! vb_consumer_signal (buf_at a (lib_mem L)) \<or>
      high_watermark_percent config \<le> usage_percent (buf_at a (lib_mem L))"
    and "p < length (lib_disks L)" and "holds_log crc (disk_at p L) xs" and "de_flushes env = (\<lambda>_. None)"
    and "ys = take (unat (batch_size config (usage_percent (buf_at a (lib_mem L))))) (filter (intact crc) rs)"
    and "log_len xs + log_len ys \<le> unat (buf_size (disk_at p L))"
  shows "\<exists>L'. daemon_iteration crc pad config a p env L = (Ok (), L') \<and>
     holds_log crc (disk_at p L') (xs @ ys) \<and> fifo_at a cap (lib_mem L') []"
  using iteration_signalled[OF assms(1-5,7,8), of pad env] assms(6) by (simp add: attempted_all)

text \<open>A library whose volatile buffer holds a signalled record, with an empty log on disk.\<close>

definition demo_lib :: lib where
  "demo_lib = \<lparr>lib_mem = notify_consumer 0 (set_buf 0 (published 0 small_record (buf_at 0 demo_store)) demo_store),
     lib_volatile = Some 0, lib_disks = [demo_buffer], lib_files = (\<lambda>_. buf_mmap demo_buffer),
     lib_persistent = Some 0, lib_daemon_running = True\<rparr>"

lemma demo_lib_ok: "fifo_at 0 4 (lib_mem demo_lib) [small_record]" "disk_at 0 demo_lib = demo_buffer"
  "mem_signals (lib_mem demo_lib) ! vb_consumer_signal (buf_at 0 (lib_mem demo_lib))"
proof -
  have "holds (published 0 small_record (buf_at 0 demo_store)) [small_record]"
    using holds_published[OF demo_store_ok(2), of small_record 0] demo_store_ok(3) small_record_ok(2) by simp
  then show "fifo_at 0 4 (lib_mem demo_lib) [small_record]"
    using demo_store_ok(3-5)
    by (simp add: fifo_at_def demo_lib_def) (simp add: notify_consumer_def flip: length_greater_0_conv)
  show "disk_at 0 demo_lib = demo_buffer" by (simp add: disk_at_def demo_lib_def)
  show "mem_signals (lib_mem demo_lib) ! vb_consumer_signal (buf_at 0 (lib_mem demo_lib))"
    by (simp add: demo_lib_def)
       (simp add: notify_consumer_def demo_store_def buf_at_def set_buf_def new_vrb_def empty_like_def)
qed

lemma demo_batch:
  "take (unat (batch_size FlushDaemonConfig_default u)) [small_record] = [small_record]"
  "holds_log crc32_ieee demo_buffer []" "log_len [small_record] = 27" "buf_size demo_buffer = 64"
  "0 < length (lib_disks demo_lib)"
proof -
  have "unat (batch_size FlushDaemonConfig_default u) \<noteq> 0"
    using max.cobounded2[of 1 "_ :: usize"] by (auto simp: batch_size_def Let_def unat_eq_zero max_def)
  then show "take (unat (batch_size FlushDaemonConfig_default u)) [small_record] = [small_record]"
    by (simp add: take_Cons')
  show "holds_log crc32_ieee demo_buffer []" "log_len [small_record] = 27"
    using demo_buffer_ok(1,2) small_record_ok(1) by (simp_all add: holds_log_def rec_len_def)
qed (simp_all add: demo_buffer_def demo_lib_def)

theorem daemon_moves_one_batch_witness:
  "\<exists>L'. daemon_iteration crc32_ieee 0 FlushDaemonConfig_default 0 0
      \<lparr>de_notified = False, de_flushes = (\<lambda>_. None), de_final_flush = None\<rparr> demo_lib = (Ok (), L') \<and>
     holds_log crc32_ieee (disk_at 0 L') [small_record]"
  using daemon_moves_one_batch[OF demo_lib_ok(1) _ disjI1[OF demo_lib_ok(3)], of 0 crc32_ieee "[]"
      "\<lparr>de_notified = False, de_flushes = (\<lambda>_. None), de_final_flush = None\<rparr>" "[small_record]"
      FlushDaemonConfig_default 0] small_record_ok(2,3) demo_lib_ok(2) demo_batch by auto

text \<open>
  An iteration whose write fails. When syncing the mapping fails at the write numbered
  \<open>k\<close> of the batch, the daemon stops writing: the log has gained the records before it and
  the one whose write reported the error, and all records are taken out of the volatile
  buffer, so the rest of the batch is lost; the iteration itself returns normally.
\<close>

theorem daemon_stops_writing_at_error:
  assumes "fifo_at a cap (lib_mem L) rs" and "\<forall>r\<in>set rs. fits_slot r"
    and "mem_signals (lib_mem L) ! vb_consumer_signal (buf_at a (lib_mem L)) \<or>
      high_watermark_percent config \<le> usage_percent (buf_at a (lib_mem L))"
    and "p < length (lib_disks L)" and "holds_log crc (disk_at p L) xs"
    and "ys = take (unat (batch_size config (usage_percent (buf_at a (lib_mem L))))) (filter (intact crc) rs)"
    and "log_len xs + log_len ys \<le> unat (buf_size (disk_at p L))"
    and "k < length ys" and "\<forall>i<k. de_flushes env i = None" and "de_flushes env k = Some e"
  shows "\<exists>L'. daemon_iteration crc pad config a p env L = (Ok (), L') \<and>
     holds_log crc (disk_at p L') (xs @ take (Suc k) ys) \<and> fifo_at a cap (lib_mem L') []"
  using iteration_signalled[OF assms(1-7), of pad env]
    attempted_until[of k "de_flushes env" 0 "length ys"] assms(8-10) by simp

theorem daemon_stops_writing_at_error_witness:
  "\<exists>L'. daemon_iteration crc32_ieee 0 FlushDaemonConfig_default 0 0
      \<lparr>de_notified = False, de_flushes = (\<lambda>_. Some 5), de_final_flush = None\<rparr> demo_lib = (Ok (), L') \<and>
     holds_log crc32_ieee (disk_at 0 L') [small_record]"
  using daemon_stops_writing_at_error[OF demo_lib_ok(1) _ disjI1[OF demo_lib_ok(3)], of 0 crc32_ieee "[]"
      "[small_record]" FlushDaemonConfig_default 0
      "\<lparr>de_notified = False, de_flushes = (\<lambda>_. Some 5), de_final_flush = None\<rparr>" 5 0]
    small_record_ok(2,3) demo_lib_ok(2) demo_batch by auto

lemma iteration_idle:
  assumes inv: "session_inv s" and "lib_mem L = ses_mem s" and "a \<in> ses_handles s"
  shows "daemon_iteration crc pad config a p env L = (Ok (), L)"
proof -
  have q: "quiet_mem (ses_handles s) (lib_mem L)" using inv assms(2) by (simp add: session_inv_def)
  have a: "a < length (mem_bufs (lib_mem L))" using session_inv_handle[OF inv assms(3)] assms(2) by simp
  have "snd (should_flush config (de_notified env) u a (lib_mem L)) = lib_mem L" for u
    using wait_quiet[OF q a] by (auto simp: should_flush_def split: option.split)
  then obtain flush where "should_flush config (de_notified env) (usage_percent (buf_at a (lib_mem L))) a (lib_mem L)
      = (flush, lib_mem L)" by (metis prod.collapse)
  then show ?thesis using quiet_read[OF q a, of crc pad] by (simp add: daemon_iteration_def Let_def)
qed

section \<open>Initialisation\<close>

text \<open>The first initialisation of both buffers, on a path without a file.\<close>

definition fresh_lib :: "usize \<Rightarrow> (string \<Rightarrow> bytes) \<Rightarrow> prb \<Rightarrow> lib" where
  "fresh_lib n files b = (lib_start files)\<lparr>
     lib_mem := \<lparr>mem_bufs = [new_vrb (next_power_of_two n) 0], mem_signals = [False]\<rparr>, lib_volatile := Some 0,
     lib_files := files(buf_path b := buf_mmap b), lib_disks := [b], lib_persistent := Some 0\<rparr>"

lemma fresh_initialisation:
  assumes "unat n \<le> 2 ^ 54" and "files path = []" and "unat sz + 48 < 2 ^ 63"
  shows "\<exists>L1 b. init_memory_buffer n (lib_start files) = (Ok 0, L1) \<and>
     init_persistent_buffer crc pad open_ok path sz L1 = (Ok 0, fresh_lib n files b) \<and>
     holds_log crc b [] \<and> buf_size b = sz \<and> cb_read_pos (buf_control b) = 0 \<and>
     buf_control b = ControlBlock_new crc sz \<and> buf_path b = path"
proof -
  let ?L1 = "(lib_start files)\<lparr>lib_mem := \<lparr>mem_bufs = [new_vrb (next_power_of_two n) 0], mem_signals = [False]\<rparr>,
    lib_volatile := Some 0\<rparr>"
  have mem: "init_memory_buffer n (lib_start files) = (Ok 0, ?L1)"
    using VolatileRingBuffer_new_eq[OF assms(1), of "lib_mem (lib_start files)"]
    by (simp add: init_memory_buffer_def new_memory_buffer_def arc_new_def once_def lib_start_def)
  obtain b where b: "PersistentRingBuffer_new crc pad open_ok path sz [] = (Ok b, buf_mmap b)"
    "prb_inv b" "represents crc b []" "buf_path b = path" "buf_size b = sz" "buf_control b = ControlBlock_new crc sz"
    using new_file[OF assms(3), of crc pad path] by auto
  have "init_persistent_buffer crc pad open_ok path sz ?L1 = (Ok 0, fresh_lib n files b)"
    using b(1,4) assms(2)
    by (simp add: init_persistent_buffer_def open_disk_def once_def lib_start_def fresh_lib_def)
  then show ?thesis using mem b by (auto simp: holds_log_def ControlBlock_new_def)
qed

lemma fresh_lib_simps [simp]:
  "lib_volatile (fresh_lib n files b) = Some 0" "lib_persistent (fresh_lib n files b) = Some 0"
  "buf_at 0 (lib_mem (fresh_lib n files b)) = new_vrb (next_power_of_two n) 0"
  "disk_at 0 (fresh_lib n files b) = b" "length (lib_disks (fresh_lib n files b)) = 1"
  by (simp_all add: fresh_lib_def disk_at_def buf_at_def)

lemma start_flush_daemon_fresh:
  "start_flush_daemon crc pad env temp True config (fresh_lib n files b)
     = (Ok (config, 0, 0), (fresh_lib n files b)\<lparr>lib_daemon_running := True\<rparr>)"
  by (simp add: start_flush_daemon_def get_memory_buffer_def get_persistent_buffer_def)

lemma disk_at_running [simp]: "disk_at p (L\<lparr>lib_daemon_running := r\<rparr>) = disk_at p L"
  by (simp add: disk_at_def)

text \<open>
  Only the first initialisation of the volatile buffer counts. When the global buffer
  exists already, a second initialisation returns a fresh buffer to its caller, but the
  buffer that the library writes to stays the first one.
\<close>

theorem first_initialisation_wins:
  assumes "init_memory_buffer n L = (Ok a, L1)" and "lib_volatile L = Some g"
    and "g < length (mem_bufs (lib_mem L))"
  shows "get_memory_buffer L1 = (Ok g, L1) \<and> a \<noteq> g \<and> buf_at g (lib_mem L1) = buf_at g (lib_mem L)"
proof -
  obtain b m1 where b: "VolatileRingBuffer_new n (lib_mem L) = (Ok b, m1)"
    and L1: "L1 = L\<lparr>lib_mem := snd (arc_new b m1), lib_volatile := Some g\<rparr>" "a = length (mem_bufs m1)"
    using assms(1,2)
    by (auto simp: init_memory_buffer_def new_memory_buffer_def run_then_Ok arc_new_def once_def
        Let_def split: prod.splits)
  have "mem_bufs m1 = mem_bufs (lib_mem L)"
    using b by (auto simp: VolatileRingBuffer_new_def run_then_Ok Let_def)
  then show ?thesis
    using L1 assms(3) by (auto simp: get_memory_buffer_def arc_new_def buf_at_def nth_append)
qed

theorem first_initialisation_wins_witness:
  "\<exists>L1. init_memory_buffer 3 demo_lib = (Ok 1, L1) \<and> get_memory_buffer L1 = (Ok 0, L1)"
proof -
  have l: "length (mem_bufs (lib_mem demo_lib)) = 1"
    using demo_store_ok(4) by (simp add: demo_lib_def) (simp add: notify_consumer_def)
  have v: "lib_volatile demo_lib = Some 0" by (simp add: demo_lib_def)
  have "\<exists>L1. init_memory_buffer 3 demo_lib = (Ok 1, L1)"
    using VolatileRingBuffer_new_eq[of 3 "lib_mem demo_lib"] l
    by (simp add: init_memory_buffer_def new_memory_buffer_def arc_new_def)
  then show ?thesis
    using first_initialisation_wins[OF _ v] l by (metis zero_less_one)
qed

text \<open>
  Initialising the persistent buffer after a restart panics. When the file holds a
  buffer in which a record was written, and that write changed the stored checksum, the
  library cannot be initialised with this file again.
\<close>

theorem restart_panics:
  assumes "burst_checksum crc" and "prb_inv b" and "vec_ok r" and "rec_len r \<le> unat (buf_size b)"
    and "b' = snd (prb_write crc pad flush r b)"
    and "cb_crc32 (buf_control b') \<noteq> cb_crc32 (buf_control b)" and "lib_files L path = buf_mmap b'"
  shows "init_persistent_buffer crc pad' open_ok path sz L = (Panic ExplicitPanic, L)"
proof -
  have b': "b' = written crc pad r b" using prb_write_eq[OF assms(2-4)] assms(5) by simp
  have "buf_control b' = control_after crc r b" by (simp add: b' written_def)
  then have "\<not> cb_verify_crc crc (buf_control b')"
    using burst_checksum.verify_after_write[OF assms(1), of r b] assms(6) by simp
  then have "PersistentRingBuffer_new crc pad' open_ok path sz (lib_files L path)
      = (Err InvalidBuffer, lib_files L path)"
    using reopen_eq[OF written_inv[OF assms(2,4)], of crc pad' path sz] assms(7) b' by simp
  then show ?thesis by (simp add: init_persistent_buffer_def open_disk_def)
qed

theorem restart_panics_witness:
  "init_persistent_buffer crc32_ieee 0 open_ok ''log'' 64
     (lib_start (\<lambda>_. buf_mmap (snd (prb_write crc32_ieee 0 None demo_record demo_buffer))))
   = (Panic ExplicitPanic,
      lib_start (\<lambda>_. buf_mmap (snd (prb_write crc32_ieee 0 None demo_record demo_buffer))))"
proof -
  have w: "snd (prb_write crc32_ieee 0 None demo_record demo_buffer) = written crc32_ieee 0 demo_record demo_buffer"
    using prb_write_eq[OF demo_buffer_ok(1) demo_record_ok(2), of crc32_ieee 0 None]
      demo_buffer_ok(3) demo_record_ok(3) by simp
  then have "buf_control (snd (prb_write crc32_ieee 0 None demo_record demo_buffer))
      = control_after crc32_ieee demo_record demo_buffer" by (simp add: written_def)
  moreover have "cb_crc32 (control_after crc32_ieee demo_record demo_buffer)
      \<noteq> cb_crc32 (buf_control demo_buffer)"
    by (simp add: demo_control_after) (simp add: demo_buffer_def demo_control)
  ultimately show ?thesis
    using demo_buffer_ok(3) demo_record_ok(3)
    by (intro restart_panics[OF ieee.burst_checksum_axioms demo_buffer_ok(1) demo_record_ok(2) _ refl])
       (simp_all add: lib_start_def)
qed

section \<open>The end of the daemon and the guarded reservation\<close>

lemma daemon_loop_append:
  assumes "daemon_loop crc pad config a p pre L = (Ok False, L1)"
  shows "daemon_loop crc pad config a p (pre @ post) L = daemon_loop crc pad config a p post L1"
  using assms
proof (induction pre arbitrary: L)
  case (Cons x pre)
  obtain others env where x: "x = (others, env)" by (cases x)
  from Cons.prems obtain L2 where "lib_daemon_running (others L)"
    "daemon_iteration crc pad config a p env (others L) = (Ok (), L2)"
    "daemon_loop crc pad config a p pre L2 = (Ok False, L1)"
    by (auto simp: x Let_def run_then_Ok split: if_splits)
  with Cons.IH show ?case by (simp add: x)
qed simp

text \<open>
  The daemon ends when it is told to. Whatever it did before, if another thread stops
  the daemon during an iteration, the loop ends at the next test of the flag without
  another iteration, whatever would come after.
\<close>

theorem daemon_stops:
  assumes "daemon_loop crc pad config a p before L = (Ok False, L1)"
  shows "daemon_loop crc pad config a p (before @ (\<lambda>L. stop_flush_daemon (others L), env) # after) L
     = (Ok True, stop_flush_daemon (others L1))"
  using daemon_loop_append[OF assms] by (simp add: stop_flush_daemon_def)

theorem daemon_stops_witness:
  "fst (daemon_loop crc32_ieee 0 FlushDaemonConfig_default 0 0
     ([] @ (\<lambda>L. stop_flush_daemon (id L),
            \<lparr>de_notified = True, de_flushes = (\<lambda>_. None), de_final_flush = None\<rparr>) # []) demo_lib) = Ok True"
  using daemon_stops[of crc32_ieee 0 FlushDaemonConfig_default 0 0 "[]" demo_lib demo_lib id
      "\<lparr>de_notified = True, de_flushes = (\<lambda>_. None), de_final_flush = None\<rparr>" "[]"]
  by simp

text \<open>
  A reservation through the library is guarded. On a well-formed global buffer a
  request of more than 232 bytes panics, and a reservation that is granted covers the
  header and the requested bytes within one slot, so the wrap-around of the size check is
  out of reach.
\<close>

theorem library_reserve_guarded:
  assumes "lib_volatile L = Some a" and "vinv (buf_at a (lib_mem L))"
  shows "(232 < sz \<longrightarrow> lib_reserve frames sz block L = (Panic AssertFailed, L)) \<and>
     (\<forall>res L'. lib_reserve frames sz block L = (Ok (Some res), L') \<longrightarrow>
        unat (res_size res) = unat sz + 24 \<and> unat (res_size res) \<le> 256)"
proof -
  have size: "slot_size (buf_at a (lib_mem L)) - RecordHeader_SIZE = 232"
    using vinv_facts(4)[OF assms(2)] by (simp add: slot_size_def RecordHeader_SIZE_def)
  have get: "get_memory_buffer L = (Ok a, L)" using assms(1) by (simp add: get_memory_buffer_def)
  have granted: "unat (res_size res) = unat sz + 24 \<and> unat (res_size res) \<le> 256"
    if h: "lib_reserve frames sz block L = (Ok (Some res), L')" for res L'
  proof -
    have sz: "sz \<le> 232" using h by (auto simp: lib_reserve_def get size split: if_splits)
    then have u: "unat (sz + 24) = unat sz + 24" "sz + 24 \<le> 256"
      by (simp_all add: word_le_nat_alt unat_plus_no_wrap)
    have "fst (reserve frames sz block a (lib_mem L)) = Ok (Some res)"
      using h sz by (auto simp: lib_reserve_def get size on_mem_def Let_def split: prod.splits)
    then have "res_size res = sz + 24"
      using reserve_eq[OF assms(2) u(2)] reserve_full_blocks[OF assms(2) u(2)]
      by (cases frames) (auto split: if_splits simp del: reserve.simps(2))
    then show ?thesis using u by (simp add: word_le_nat_alt)
  qed
  show ?thesis using granted by (auto simp: lib_reserve_def get size not_le)
qed

theorem library_reserve_guarded_witness:
  "lib_reserve 1 (- 1) True demo_lib = (Panic AssertFailed, demo_lib)"
proof -
  have "vinv (buf_at 0 (lib_mem demo_lib))" using demo_lib_ok(1) by (simp add: fifo_at_def holds_def)
  moreover have "lib_volatile demo_lib = Some 0" by (simp add: demo_lib_def)
  moreover have "(232 :: usize) < - 1" by (simp add: word_less_def unsigned_minus_1_eq_mask mask_eq_exp_minus_1)
  ultimately show ?thesis using library_reserve_guarded by blast
qed

end
