(* ===== verification/Sherlog_Runs.thy ===== *)
theory Sherlog_Runs
  imports Sherlog_Properties
begin

text \<open>
  Runs of the library: calls of \<open>write\<close> and \<open>reserve\<close> by clients, uses of the reservations
  they hold, and iterations of the daemon, in any order, on the global buffers.
\<close>

section \<open>Runs\<close>

text \<open>The last two arguments are the state that is reached and the reservations that clients hold.\<close>

inductive lib_run ::
  "hasher \<Rightarrow> u32 \<Rightarrow> daemon_config \<Rightarrow> addr \<Rightarrow> addr \<Rightarrow> lib \<Rightarrow> lib \<Rightarrow> reservation list \<Rightarrow> bool"
  for crc pad config a p L where
  run_start: "lib_run crc pad config a p L L []"
| run_write: "lib_run crc pad config a p L L1 rs \<Longrightarrow> length data < 2 ^ 63 \<Longrightarrow>
     lib_write crc pad clock data tag L1 = (out, L2) \<Longrightarrow> out \<noteq> Undefined \<Longrightarrow>
     lib_run crc pad config a p L L2 rs"
| run_reserve: "lib_run crc pad config a p L L1 rs \<Longrightarrow>
     lib_reserve frames sz block L1 = (Ok (Some res), L2) \<Longrightarrow>
     lib_run crc pad config a p L L2 (res # rs)"
| run_reserve_fails: "lib_run crc pad config a p L L1 rs \<Longrightarrow>
     lib_reserve frames sz block L1 = (out, L2) \<Longrightarrow> out \<noteq> Undefined \<Longrightarrow> \<forall>res. out \<noteq> Ok (Some res) \<Longrightarrow>
     lib_run crc pad config a p L L2 rs"
| run_fill: "lib_run crc pad config a p L L1 rs \<Longrightarrow> res \<in> set rs \<Longrightarrow>
     on_mem (reservation_write pad header d res) L1 = (out, L2) \<Longrightarrow> out \<noteq> Undefined \<Longrightarrow>
     lib_run crc pad config a p L L2 rs"
| run_commit: "lib_run crc pad config a p L L1 rs \<Longrightarrow> res \<in> set rs \<Longrightarrow>
     on_mem (reservation_commit res) L1 = (out, L2) \<Longrightarrow> out \<noteq> Undefined \<Longrightarrow>
     lib_run crc pad config a p L L2 (remove1 res rs)"
| run_drop: "lib_run crc pad config a p L L1 rs \<Longrightarrow> res \<in> set rs \<Longrightarrow>
     on_mem (reservation_drop res) L1 = (out, L2) \<Longrightarrow> out \<noteq> Undefined \<Longrightarrow>
     lib_run crc pad config a p L L2 (remove1 res rs)"
| run_daemon: "lib_run crc pad config a p L L1 rs \<Longrightarrow>
     daemon_iteration crc pad config a p env L1 = (out, L2) \<Longrightarrow> lib_run crc pad config a p L L2 rs"

section \<open>Runs are sessions\<close>

text \<open>
  The volatile store of a library whose global buffer is \<open>a\<close> is the store of a session in
  which clients can name \<open>a\<close> and hold the reservations \<open>rs\<close>.
\<close>

definition lib_session :: "hasher \<Rightarrow> u32 \<Rightarrow> addr \<Rightarrow> lib \<Rightarrow> reservation list \<Rightarrow> bool" where
  "lib_session crc pad a L rs \<longleftrightarrow> lib_volatile L = Some a \<and>
     (\<exists>s. vreachable crc pad s \<and> ses_mem s = lib_mem L \<and> a \<in> ses_handles s \<and> ses_reservations s = rs)"

lemma lib_session_step:
  assumes "lib_session crc pad a L rs"
    and "\<And>s. ses_mem s = lib_mem L \<Longrightarrow> a \<in> ses_handles s \<Longrightarrow> ses_reservations s = rs \<Longrightarrow>
      vstep crc pad s (s\<lparr>ses_mem := m, ses_reservations := rs'\<rparr>)"
  shows "lib_session crc pad a (L\<lparr>lib_mem := m\<rparr>) rs'"
proof -
  obtain s where s: "vreachable crc pad s" "ses_mem s = lib_mem L" "a \<in> ses_handles s" "ses_reservations s = rs"
    and a: "lib_volatile L = Some a" using assms(1) by (auto simp: lib_session_def)
  have "vreachable crc pad (s\<lparr>ses_mem := m, ses_reservations := rs'\<rparr>)"
    using vreachable.step[OF s(1) assms(2)[OF s(2-4)]] .
  then show ?thesis
    using a s(3) unfolding lib_session_def by (intro conjI exI[of _ "s\<lparr>ses_mem := m, ses_reservations := rs'\<rparr>"]) simp_all
qed

lemma lib_session_keep:
  assumes "lib_session crc pad a L rs"
    and "\<And>s. ses_mem s = lib_mem L \<Longrightarrow> a \<in> ses_handles s \<Longrightarrow> ses_reservations s = rs \<Longrightarrow>
      vstep crc pad s (s\<lparr>ses_mem := m\<rparr>)"
  shows "lib_session crc pad a (L\<lparr>lib_mem := m\<rparr>) rs"
proof (rule lib_session_step[OF assms(1)])
  fix s :: session assume s: "ses_mem s = lib_mem L" "a \<in> ses_handles s" "ses_reservations s = rs"
  have "s\<lparr>ses_mem := m, ses_reservations := rs\<rparr> = s\<lparr>ses_mem := m\<rparr>" using s(3) by (cases s) simp
  then show "vstep crc pad s (s\<lparr>ses_mem := m, ses_reservations := rs\<rparr>)" using assms(2)[OF s] by simp
qed

lemma lib_session_idle:
  assumes "lib_session crc pad a L rs"
  shows "daemon_iteration crc pad config a p env L = (Ok (), L)"
  using assms iteration_idle[OF vreachable_inv] by (auto simp: lib_session_def)

lemma lib_session_writes:
  assumes "lib_session crc pad a L rs" and "lib_write crc pad clock data tag L = (out, L')"
    and "out \<noteq> Undefined" and "length data < 2 ^ 63"
  shows "lib_session crc pad a L' rs \<and> (\<exists>m. L' = L\<lparr>lib_mem := m\<rparr>)"
proof -
  obtain m where m: "vrb_write pad (Record_new crc clock data tag) a (lib_mem L) = (out, m)"
    "L' = L\<lparr>lib_mem := m\<rparr>"
    using assms(1,2) by (auto simp: lib_session_def lib_write_def get_memory_buffer_def on_mem_def
        Let_def split: prod.splits)
  have "lib_session crc pad a (L\<lparr>lib_mem := m\<rparr>) rs"
    by (rule lib_session_keep[OF assms(1)], rule vstep.write_step) (use assms(3,4) m(1) in auto)
  then show ?thesis using m(2) by blast
qed

lemma lib_session_reserves:
  assumes "lib_session crc pad a L rs" and "lib_reserve frames sz block L = (out, L')" and "out \<noteq> Undefined"
  shows "lib_session crc pad a L' (case out of Ok (Some res) \<Rightarrow> res # rs | _ \<Rightarrow> rs) \<and>
     (\<exists>m. L' = L\<lparr>lib_mem := m\<rparr>)"
proof (cases "sz \<le> slot_size (buf_at a (lib_mem L)) - RecordHeader_SIZE")
  case True
  then obtain m where m: "reserve frames sz block a (lib_mem L) = (out, m)" "L' = L\<lparr>lib_mem := m\<rparr>"
    using assms(1,2) by (auto simp: lib_session_def lib_reserve_def get_memory_buffer_def on_mem_def
        Let_def split: prod.splits)
  show ?thesis
  proof (cases "\<exists>res. out = Ok (Some res)")
    case True
    then obtain res where res: "out = Ok (Some res)" by blast
    have "lib_session crc pad a (L\<lparr>lib_mem := m\<rparr>) (res # rs)"
      by (rule lib_session_step[OF assms(1)]) (use vstep.reserve_step m(1) res in fastforce)
    then show ?thesis using m(2) res by auto
  next
    case False
    have "lib_session crc pad a (L\<lparr>lib_mem := m\<rparr>) rs"
      by (rule lib_session_keep[OF assms(1)]) (use vstep.reserve_fails m(1) assms(3) False in fastforce)
    then show ?thesis using m(2) False by (auto split: outcome.split option.split)
  qed
next
  case False
  then have "out = Panic AssertFailed" "L' = L"
    using assms(1,2) by (simp_all add: lib_session_def lib_reserve_def get_memory_buffer_def)
  then show ?thesis using assms(1) by (auto intro: exI[of _ "lib_mem L"])
qed

lemma on_mem_eq: "on_mem f L = (out, L') \<longleftrightarrow> (\<exists>m. f (lib_mem L) = (out, m) \<and> L' = L\<lparr>lib_mem := m\<rparr>)"
  by (auto simp: on_mem_def Let_def split: prod.splits)

lemma lib_session_fills:
  assumes "lib_session crc pad a L rs" and "res \<in> set rs"
    and "reservation_write pad header d res (lib_mem L) = (out, m)" and "out \<noteq> Undefined"
  shows "lib_session crc pad a (L\<lparr>lib_mem := m\<rparr>) rs"
  by (rule lib_session_keep[OF assms(1)]) (use vstep.fill_step assms(2-4) in fastforce)

lemma lib_session_releases:
  assumes "lib_session crc pad a L rs" and "res \<in> set rs" and "out \<noteq> Undefined"
    and "reservation_commit res (lib_mem L) = (out, m) \<or> reservation_drop res (lib_mem L) = (out, m)"
  shows "lib_session crc pad a (L\<lparr>lib_mem := m\<rparr>) (remove1 res rs)"
  by (rule lib_session_step[OF assms(1)])
     (use vstep.commit_step vstep.drop_step assms(2-4) in fastforce)

lemma lib_run_keeps:
  assumes "lib_run crc pad config a p L L' rs" and "lib_session crc pad a L []"
  shows "lib_session crc pad a L' rs \<and> lib_files L' = lib_files L \<and> lib_disks L' = lib_disks L"
  using assms
proof (induction rule: lib_run.induct)
  case run_start
  then show ?case by simp
next
  case (run_write L1 rs data clock tag out L2)
  then show ?case using lib_session_writes[of crc pad a L1 rs clock data tag out L2] by auto
next
  case (run_reserve L1 rs frames sz block res L2)
  then show ?case using lib_session_reserves[of crc pad a L1 rs frames sz block "Ok (Some res)" L2] by auto
next
  case (run_reserve_fails L1 rs frames sz block out L2)
  then show ?case using lib_session_reserves[of crc pad a L1 rs frames sz block out L2]
    by (auto split: outcome.splits option.splits)
next
  case (run_fill L1 rs res header d out L2)
  then show ?case by (auto simp: on_mem_eq intro: lib_session_fills)
next
  case (run_commit L1 rs res out L2)
  then show ?case by (auto simp: on_mem_eq intro: lib_session_releases)
next
  case (run_drop L1 rs res out L2)
  then show ?case by (auto simp: on_mem_eq intro: lib_session_releases)
next
  case (run_daemon L1 rs env out L2)
  then show ?case using lib_session_idle[of crc pad a L1 rs config p env] by simp
qed


section \<open>Initialisation starts a session\<close>

lemma init_memory_session:
  assumes "init_memory_buffer n (lib_start files) = (Ok a, L)" and "unat n \<le> 2 ^ 54"
  shows "lib_session crc pad a L []"
proof -
  let ?init = "\<lparr>ses_mem = \<lparr>mem_bufs = [], mem_signals = []\<rparr>, ses_handles = {}, ses_reservations = []\<rparr>"
  let ?b = "new_vrb (next_power_of_two n) 0"
  let ?s = "?init\<lparr>ses_mem := \<lparr>mem_bufs = [?b], mem_signals = [False]\<rparr>, ses_handles := insert 0 {}\<rparr>"
  have new: "VolatileRingBuffer_new n (ses_mem ?init) = (Ok ?b, \<lparr>mem_bufs = [], mem_signals = [False]\<rparr>)"
    using VolatileRingBuffer_new_eq[OF assms(2), of "ses_mem ?init"] by simp
  have "vreachable crc pad ?s"
    by (rule vreachable.step[OF vreachable.start])
       (use vstep.new_step[OF assms(2) new, of 0] in \<open>simp add: arc_new_def\<close>)
  moreover have "a = 0" "lib_mem L = ses_mem ?s" "lib_volatile L = Some 0"
    using assms(1) new
    by (auto simp: init_memory_buffer_def new_memory_buffer_def lib_start_def arc_new_def once_def)
  ultimately show ?thesis unfolding lib_session_def by (intro conjI exI[of _ ?s]) simp_all
qed

lemma init_persistent_session:
  assumes "init_persistent_buffer crc' pad' env path sz L = (Ok p, L')"
  shows "lib_session crc pad a L' rs \<longleftrightarrow> lib_session crc pad a L rs"
proof -
  have "lib_mem L' = lib_mem L" "lib_volatile L' = lib_volatile L"
    using assms by (auto simp: init_persistent_buffer_def open_disk_def run_then_Ok Let_def
        split: prod.splits outcome.splits)
  then show ?thesis by (simp add: lib_session_def)
qed

text \<open>The library after both buffers are initialised on an empty file and the daemon is started.\<close>

abbreviation started_lib :: "usize \<Rightarrow> (string \<Rightarrow> bytes) \<Rightarrow> prb \<Rightarrow> lib" where
  "started_lib n files b \<equiv> (fresh_lib n files b)\<lparr>lib_daemon_running := True\<rparr>"

lemma fresh_session:
  assumes "unat n \<le> 2 ^ 54" and "files path = []" and "unat sz + 48 < 2 ^ 63"
  obtains L1 b where "init_memory_buffer n (lib_start files) = (Ok 0, L1)"
    "init_persistent_buffer crc pad open_ok path sz L1 = (Ok 0, fresh_lib n files b)"
    "lib_session crc pad 0 (started_lib n files b) []" "holds_log crc b []"
    "cb_read_pos (buf_control b) = 0" "buf_control b = ControlBlock_new crc sz" "buf_path b = path"
proof -
  obtain L1 b where i: "init_memory_buffer n (lib_start files) = (Ok 0, L1)"
    "init_persistent_buffer crc pad open_ok path sz L1 = (Ok 0, fresh_lib n files b)"
    "holds_log crc b []" "cb_read_pos (buf_control b) = 0" "buf_control b = ControlBlock_new crc sz" "buf_path b = path"
    using fresh_initialisation[of n files path sz crc pad] assms by auto
  have "lib_session crc pad 0 (fresh_lib n files b) []"
    using init_memory_session[OF i(1) assms(1)] init_persistent_session[OF i(2)] by blast
  then have "lib_session crc pad 0 (started_lib n files b) []" by (simp add: lib_session_def)
  then show thesis using that i by blast
qed

section \<open>Writes in a session\<close>

lemma lib_session_buffer:
  assumes "lib_session crc pad a L rs"
  shows "vinv (buf_at a (lib_mem L))" "lib_volatile L = Some a"
proof -
  obtain s where s: "vreachable crc pad s" "ses_mem s = lib_mem L" "a \<in> ses_handles s"
    using assms by (auto simp: lib_session_def)
  show "vinv (buf_at a (lib_mem L))"
    using quiet_memD(1)[OF session_invD[OF vreachable_inv[OF s(1)]]
        session_inv_handle[OF vreachable_inv[OF s(1)] s(3)]] s(2) by simp
  show "lib_volatile L = Some a" using assms by (simp add: lib_session_def)
qed

lemma lib_session_write_returns:
  assumes "lib_session crc pad a L rs" and "length data \<le> 232"
  shows "\<exists>w L'. lib_write crc pad clock data tag L = (Ok w, L') \<and> lib_session crc pad a L' rs \<and>
     (\<exists>m. L' = L\<lparr>lib_mem := m\<rparr>)"
proof -
  have "length (r_data (Record_new crc clock data tag)) \<le> 232" using assms(2) by (simp add: Record_new_def)
  then obtain w L' where "lib_write crc pad clock data tag L = (Ok w, L')"
    using vrb_write_eq[OF lib_session_buffer(1)[OF assms(1)]] lib_session_buffer(2)[OF assms(1)]
    by (cases "full (buf_at a (lib_mem L))") (auto simp: lib_write_def get_memory_buffer_def on_mem_def)
  then show ?thesis using lib_session_writes[OF assms(1)] assms(2) by auto
qed

text \<open>
  C19: nothing that is logged reaches the disk. In any run of the library, in which clients
  write any number of records, reserve, fill, commit and drop any number of reservations,
  and the daemon iterates any number of times, the persistent buffers and their files stay
  as they are.
\<close>

theorem logged_records_never_reach_disk:
  assumes "init_memory_buffer n (lib_start files) = (Ok a, L1)" and "unat n \<le> 2 ^ 54"
    and "init_persistent_buffer crc pad env path sz L1 = (Ok p, L2)"
    and "lib_run crc pad config a p L2 L3 rs"
  shows "lib_files L3 = lib_files L2 \<and> disk_at p L3 = disk_at p L2"
proof -
  have "lib_session crc pad a L2 []"
    using init_memory_session[OF assms(1,2)] init_persistent_session[OF assms(3)] by blast
  from lib_run_keeps[OF assms(4) this] show ?thesis by (simp add: disk_at_def)
qed

theorem logged_records_never_reach_disk_witness:
  "\<exists>L1 L2 L3. init_memory_buffer 4 (lib_start (\<lambda>_. [])) = (Ok 0, L1) \<and>
     init_persistent_buffer crc32_ieee 0 open_ok ''log'' 64 L1 = (Ok 0, L2) \<and>
     lib_write crc32_ieee 0 (Some 7) [1, 2, 3] 9 L2 = (Ok True, L3) \<and> disk_at 0 L3 = disk_at 0 L2"
proof -
  define L1 where "L1 = (lib_start (\<lambda>_. []))\<lparr>lib_mem := demo_store, lib_volatile := Some 0\<rparr>"
  define L2 where "L2 = L1\<lparr>lib_files := (lib_files L1)(''log'' := buf_mmap demo_buffer),
    lib_disks := [demo_buffer], lib_persistent := Some 0\<rparr>"
  define L3 where "L3 = L2\<lparr>lib_mem := lost_mem 0 small_record 0 demo_store\<rparr>"
  have m: "init_memory_buffer 4 (lib_start (\<lambda>_. [])) = (Ok 0, L1)"
    using VolatileRingBuffer_new_eq[of 4 "\<lparr>mem_bufs = [], mem_signals = []\<rparr>"] power_four(2)
    by (simp add: init_memory_buffer_def new_memory_buffer_def lib_start_def arc_new_def once_def
        L1_def demo_store_def)
  have d: "init_persistent_buffer crc32_ieee 0 open_ok ''log'' 64 L1 = (Ok 0, L2)"
    using demo_buffer_new
    by (simp add: init_persistent_buffer_def open_disk_def L1_def L2_def lib_start_def once_def)
  have "vrb_write 0 small_record 0 demo_store = (Ok True, lost_mem 0 small_record 0 demo_store)"
    using vrb_write_eq[OF demo_store_ok(1), of small_record 0] after_claims_step(1)[OF demo_store_ok(6)]
      small_record_ok(1) demo_store_ok(3) by simp
  then have w: "lib_write crc32_ieee 0 (Some 7) [1, 2, 3] 9 L2 = (Ok True, L3)"
    by (simp add: lib_write_def get_memory_buffer_def on_mem_def L3_def L2_def L1_def small_record_def Let_def)
  have "lib_run crc32_ieee 0 FlushDaemonConfig_default 0 0 L2 L3 []"
    by (rule lib_run.run_write[OF lib_run.run_start _ w]) simp_all
  then show ?thesis
    using logged_records_never_reach_disk[OF m _ d] m d w by auto
qed

end
