(* ===== verification/Basic_Usage.thy ===== *)
theory Basic_Usage
  imports Sherlog
begin

text \<open>
  The start and the report of the program \<open>examples/basic_usage.rs\<close>: it initialises both
  buffers and the flush daemon, and at the end stops the daemon and reads the log back from
  disk. The threads that log in between construct a header through \<open>types::RecordHeader\<close>, a name
  that the library does not export, so the program does not build and they are left out. The
  counters of the report are \<open>i32\<close>. Printing and sleeping are left out.
\<close>

section \<open>Tags\<close>

definition TAG_INFO :: u32 where "TAG_INFO = 1"
definition TAG_WARNING :: u32 where "TAG_WARNING = 2"
definition TAG_ERROR :: u32 where "TAG_ERROR = 3"
definition TAG_DEBUG :: u32 where "TAG_DEBUG = 4"

section \<open>Start and report\<close>

definition example_config :: daemon_config where
  "example_config = \<lparr>interval_ms = 500, high_watermark_percent = Fin 50, max_records_per_flush = 100\<rparr>"

text \<open>\<open>disk_path\<close> is \<open>sherlog_example.dat\<close> in the directory for temporary files.\<close>

definition example_start ::
  "hasher \<Rightarrow> u32 \<Rightarrow> open_env \<Rightarrow> string \<Rightarrow> bool \<Rightarrow> string \<Rightarrow> lib \<Rightarrow>
   (addr \<times> daemon_config \<times> addr \<times> addr) run \<times> lib" where
  "example_start crc pad env temp_path spawned disk_path L =
     run_then (init_memory_buffer 4096 L) (\<lambda>mem_buffer L1.
     run_then (init_persistent_buffer crc pad env disk_path (10 * 1024 * 1024) L1) (\<lambda>disk_buffer L2.
     run_then (start_flush_daemon crc pad env temp_path spawned example_config L2) (\<lambda>daemon L3.
       (Ok (disk_buffer, daemon), L3))))"

record log_counts =
  total_count :: "32 word"
  info_count :: "32 word"
  warning_count :: "32 word"
  error_count :: "32 word"
  debug_count :: "32 word"

definition no_counts :: log_counts where
  "no_counts = \<lparr>total_count = 0, info_count = 0, warning_count = 0, error_count = 0, debug_count = 0\<rparr>"

definition count_record :: "log_record \<Rightarrow> log_counts \<Rightarrow> log_counts" where
  "count_record record c0 =
     (let c = c0\<lparr>total_count := total_count c0 + 1\<rparr>; tag = rh_tag (r_header record) in
      if tag = TAG_INFO then c\<lparr>info_count := info_count c + 1\<rparr>
      else if tag = TAG_WARNING then c\<lparr>warning_count := warning_count c + 1\<rparr>
      else if tag = TAG_ERROR then c\<lparr>error_count := error_count c + 1\<rparr>
      else if tag = TAG_DEBUG then c\<lparr>debug_count := debug_count c + 1\<rparr>
      else c)"

text \<open>The loop of \<open>read_logs\<close>; \<open>None\<close> is a loop that does not end.\<close>

partial_function (option) read_logs_loop ::
  "hasher \<Rightarrow> nat \<Rightarrow> prb \<Rightarrow> cursor \<Rightarrow> log_counts \<Rightarrow> log_counts run option" where
  "read_logs_loop crc frames b cursor counts =
     (case read_batch crc frames b 50 cursor of
        (Ok batch, cursor1) \<Rightarrow>
          if batch = [] then Some (Ok counts)
          else read_logs_loop crc frames b cursor1 (fold count_record batch counts)
      | (Err e, _) \<Rightarrow> Some (Ok counts)
      | (Panic q, _) \<Rightarrow> Some (Panic q)
      | (Undefined, _) \<Rightarrow> Some Undefined)"

definition read_logs :: "hasher \<Rightarrow> nat \<Rightarrow> prb \<Rightarrow> log_counts run option" where
  "read_logs crc frames b = read_logs_loop crc frames b (Cursor_new b None) no_counts"

text \<open>
  The end of \<open>main\<close>: stop the daemon, wait for its thread and report what is on disk.
  \<open>finish\<close> is what the thread still does before it ends and whether it ends without a panic;
  \<open>unwrap\<close> passes a panic of the thread on.
\<close>

definition example_report ::
  "hasher \<Rightarrow> nat \<Rightarrow> (lib \<Rightarrow> bool \<times> lib) \<Rightarrow> addr \<Rightarrow> lib \<Rightarrow> log_counts run option" where
  "example_report crc frames finish disk_buffer L =
     (case finish (stop_flush_daemon L) of
        (True, L1) \<Rightarrow> read_logs crc frames (disk_at disk_buffer L1)
      | (False, _) \<Rightarrow> Some (Panic ExpectFailed))"

end
