(* ===== verification/Basic_Usage_Properties.thy ===== *)
theory Basic_Usage_Properties
  imports Basic_Usage Sherlog_Runs
begin

text \<open>
  The properties of the example program: how it starts and what its report counts.
\<close>

section \<open>The report\<close>

definition with_tag :: "u32 \<Rightarrow> log_record list \<Rightarrow> 32 word" where
  "with_tag tag rs = word_of_nat (length (filter (\<lambda>r. rh_tag (r_header r) = tag) rs))"

definition counts_of :: "log_record list \<Rightarrow> log_counts" where
  "counts_of rs = \<lparr>total_count = word_of_nat (length rs), info_count = with_tag TAG_INFO rs,
     warning_count = with_tag TAG_WARNING rs, error_count = with_tag TAG_ERROR rs,
     debug_count = with_tag TAG_DEBUG rs\<rparr>"

lemma counts_of_snoc: "counts_of (rs @ [r]) = count_record r (counts_of rs)"
  by (auto simp: counts_of_def count_record_def with_tag_def Let_def
      TAG_INFO_def TAG_WARNING_def TAG_ERROR_def TAG_DEBUG_def)

lemma fold_count_record: "fold count_record ys (counts_of xs) = counts_of (xs @ ys)"
proof (induction ys arbitrary: xs)
  case (Cons y ys)
  then show ?case using Cons[of "xs @ [y]"] by (simp add: counts_of_snoc)
qed simp

lemma counts_of_stored: "counts_of (map (stored crc) rs) = counts_of rs"
  by (simp add: counts_of_def with_tag_def filter_map comp_def stored_def)

lemma read_logs_loop_between:
  "cursor_between crc b xs ys c \<Longrightarrow>
   read_logs_loop crc (Suc f) b c (counts_of acc) = Some (Ok (counts_of (acc @ map (stored crc) ys)))"
proof (induction "length ys" arbitrary: xs ys c acc rule: less_induct)
  case less
  have u: "unat (50 :: usize) = 50" by simp
  obtain c' where c': "read_batch crc (Suc f) b 50 c = (Ok (map (stored crc) (take 50 ys)), c')"
    "cursor_between crc b (xs @ take 50 ys) (drop 50 ys) c'"
    using read_batch_between[OF less.prems, of "Suc f" 50] u by auto
  show ?case
  proof (cases "ys = []")
    case True
    then show ?thesis using c'(1) by (subst read_logs_loop.simps) simp
  next
    case False
    then have "length (drop 50 ys) < length ys" by simp
    from less.hyps[OF this c'(2), of "acc @ map (stored crc) (take 50 ys)"]
    have "read_logs_loop crc (Suc f) b c' (counts_of (acc @ map (stored crc) (take 50 ys)))
        = Some (Ok (counts_of (acc @ map (stored crc) ys)))"
      by (metis append.assoc append_take_drop_id map_append)
    then show ?thesis using c'(1) False by (subst read_logs_loop.simps) (simp add: fold_count_record)
  qed
qed

lemma read_logs_log:
  assumes "holds_log crc b (xs @ ys)" and "\<forall>r\<in>set ys. u32_ok r"
    and "unat (cb_read_pos (buf_control b)) = log_len xs"
  shows "read_logs crc (Suc f) b = Some (Ok (counts_of ys))"
proof -
  have "no_counts = counts_of []" by (simp add: no_counts_def counts_of_def with_tag_def)
  then show ?thesis
    using read_logs_loop_between[OF Cursor_new_between[OF assms], of f "[]"]
    by (simp add: read_logs_def counts_of_stored)
qed

text \<open>
  The report of the example ends and counts the unread records of the log, all of them
  and by tag, whatever their number.
\<close>

theorem read_logs_counts:
  assumes "holds_log crc b (xs @ ys)" and "\<forall>r\<in>set ys. u32_ok r"
    and "unat (cb_read_pos (buf_control b)) = log_len xs"
  shows "read_logs crc (Suc f) b = Some (Ok (counts_of ys))"
  by (rule read_logs_log[OF assms])

theorem read_logs_counts_witness:
  "read_logs crc32_ieee 1 demo_filled = Some (Ok (no_counts\<lparr>total_count := 2\<rparr>))"
  using read_logs_counts[of crc32_ieee demo_filled "[]" "[demo_record, demo_record]" 0]
    demo_filled_ok demo_filled_counts demo_record_ok
  by (simp add: holds_log_def counts_of_def with_tag_def no_counts_def demo_record_def Record_new_def
      rh_update_crc_def RecordHeader_new_def TAG_INFO_def TAG_WARNING_def TAG_ERROR_def TAG_DEBUG_def)

section \<open>The start\<close>

text \<open>Starting the example with no file at its path.\<close>

lemma example_starts:
  assumes "files path = []"
  shows "\<exists>L b. example_start crc pad open_ok temp True path (lib_start files)
       = (Ok (0, example_config, 0, 0), L) \<and> lib_session crc pad 0 L [] \<and> disk_at 0 L = b \<and>
     holds_log crc b [] \<and> cb_read_pos (buf_control b) = 0"
proof -
  obtain L1 b where i: "init_memory_buffer 4096 (lib_start files) = (Ok 0, L1)"
    "init_persistent_buffer crc pad open_ok path (10 * 1024 * 1024) L1 = (Ok 0, fresh_lib 4096 files b)"
    "lib_session crc pad 0 (started_lib 4096 files b) []" "holds_log crc b []" "cb_read_pos (buf_control b) = 0"
    by (rule fresh_session[of 4096 files path "10 * 1024 * 1024" crc pad]) (use assms in simp_all)
  have "example_start crc pad open_ok temp True path (lib_start files) = (Ok (0, example_config, 0, 0), started_lib 4096 files b)"
    using i(1,2) by (simp add: example_start_def start_flush_daemon_fresh)
  then show ?thesis using i(3-5) by (intro exI[of _ "started_lib 4096 files b"] exI[of _ b]) simp
qed

text \<open>The report at the end of the program counts what the daemon has left unread on disk.\<close>

lemma example_report_log:
  assumes "finish (stop_flush_daemon L) = (True, L1)" and "holds_log crc (disk_at disk L1) (xs @ ys)"
    and "\<forall>r\<in>set ys. u32_ok r" and "unat (cb_read_pos (buf_control (disk_at disk L1))) = log_len xs"
  shows "example_report crc (Suc f) finish disk L = Some (Ok (counts_of ys))"
  using assms(1) read_logs_log[OF assms(2-4)] by (simp add: example_report_def)

end
