(* ===== verification/Jni.thy ===== *)
theory Jni
  imports Sherlog
begin

text \<open>
  The Android bindings of \<open>src/jni/mod.rs\<close>. Cursors are boxed and handed to Java as
  pointers; the boxes live in a table, a pointer is the position in the table plus one
  (so that it is never null), and a freed box leaves its place empty. Using a pointer that
  is not null and does not refer to a live box is \<open>Undefined\<close>. Calls of the Java runtime
  are inputs: whether they succeed and what they return.
\<close>

section \<open>State and data\<close>

type_synonym jint = "32 word"
type_synonym jlong = "64 word"

record jni_state =
  jni_lib :: lib
  jni_cursors :: "(cursor \<times> addr) option list"
  jni_daemon_handle :: "(daemon_config \<times> addr \<times> addr) option"

record java_record =
  jr_data :: bytes
  jr_crc32 :: jlong
  jr_tag :: jint
  jr_timestamp_us :: jlong

definition on_lib :: "(lib \<Rightarrow> 'a run \<times> lib) \<Rightarrow> jni_state \<Rightarrow> 'a run \<times> jni_state" where
  "on_lib f s = (let (res, L) = f (jni_lib s) in (res, s\<lparr>jni_lib := L\<rparr>))"

section \<open>Initialisation and shutdown\<close>

text \<open>
  Java integers are signed; the casts to \<open>usize\<close> and \<open>u64\<close> extend the sign. \<open>path\<close> is the
  string behind the Java object, if it is one.
\<close>

definition Java_initialize ::
  "hasher \<Rightarrow> u32 \<Rightarrow> open_env \<Rightarrow> string \<Rightarrow> bool \<Rightarrow> string option \<Rightarrow> jint \<Rightarrow> jint \<Rightarrow> jint \<Rightarrow> f32 \<Rightarrow>
   jni_state \<Rightarrow> bool run \<times> jni_state" where
  "Java_initialize crc pad env temp_path spawned path volatile_buffer_size persistent_buffer_size
       flush_interval_ms high_watermark s =
     (case path of
        None \<Rightarrow> (Panic ExpectFailed, s)
      | Some disk_path \<Rightarrow>
          run_then (on_lib (init_memory_buffer (scast volatile_buffer_size)) s) (\<lambda>_ s1.
          run_then (on_lib (init_persistent_buffer crc pad env disk_path
            (scast persistent_buffer_size)) s1) (\<lambda>_ s2.
          run_then (on_lib (start_flush_daemon crc pad env temp_path spawned
            \<lparr>interval_ms = scast flush_interval_ms, high_watermark_percent = high_watermark,
             max_records_per_flush = 100\<rparr>) s2) (\<lambda>handle s3.
            (Ok True, s3\<lparr>jni_daemon_handle := Some handle\<rparr>)))))"

text \<open>
  Joining waits for the daemon thread; \<open>finish\<close> is what the thread still does until its
  loop ends.
\<close>

definition Java_shutdown :: "(lib \<Rightarrow> lib) \<Rightarrow> jni_state \<Rightarrow> jni_state" where
  "Java_shutdown finish s =
     (let s1 = s\<lparr>jni_lib := stop_flush_daemon (jni_lib s)\<rparr> in
      case jni_daemon_handle s1 of
        Some handle \<Rightarrow> s1\<lparr>jni_daemon_handle := None, jni_lib := finish (jni_lib s1)\<rparr>
      | None \<Rightarrow> s1)"

definition Java_write ::
  "hasher \<Rightarrow> u32 \<Rightarrow> nat option \<Rightarrow> bytes option \<Rightarrow> jint \<Rightarrow> jni_state \<Rightarrow> bool run \<times> jni_state" where
  "Java_write crc pad clock data tag s =
     (case data of
        None \<Rightarrow> (Panic ExpectFailed, s)
      | Some data_vec \<Rightarrow> on_lib (lib_write crc pad clock data_vec tag) s)"

section \<open>Cursors\<close>

definition handle_of :: "nat \<Rightarrow> jlong" where
  "handle_of i = word_of_nat (Suc i)"

definition live_cursor :: "jlong \<Rightarrow> jni_state \<Rightarrow> (cursor \<times> addr) option" where
  "live_cursor ptr s =
     (let i = unat ptr - 1 in
      if ptr \<noteq> 0 \<and> i < length (jni_cursors s) then jni_cursors s ! i else None)"

definition set_cursor :: "jlong \<Rightarrow> (cursor \<times> addr) option \<Rightarrow> jni_state \<Rightarrow> jni_state" where
  "set_cursor ptr c s = s\<lparr>jni_cursors := (jni_cursors s)[unat ptr - 1 := c]\<rparr>"

definition Java_createCursor ::
  "hasher \<Rightarrow> u32 \<Rightarrow> open_env \<Rightarrow> string \<Rightarrow> jni_state \<Rightarrow> jlong run \<times> jni_state" where
  "Java_createCursor crc pad env temp_path s =
     run_then (on_lib (get_persistent_buffer crc pad env temp_path) s) (\<lambda>p s1.
       (Ok (handle_of (length (jni_cursors s1))),
        s1\<lparr>jni_cursors := jni_cursors s1 @ [Some (Cursor_new (disk_at p (jni_lib s1)) None, p)]\<rparr>))"

text \<open>
  The conversion of the records: \<open>jni_ok k\<close> is whether the \<open>k\<close>-th call of the Java runtime
  succeeds (two calls before the loop, four for every record); the source expects success
  of each of them.
\<close>

definition to_java :: "log_record \<Rightarrow> java_record" where
  "to_java r = \<lparr>jr_data = r_data r, jr_crc32 = ucast (rh_crc32 (r_header r)),
     jr_tag = rh_tag (r_header r), jr_timestamp_us = rh_timestamp_us (r_header r)\<rparr>"

fun to_java_array :: "(nat \<Rightarrow> bool) \<Rightarrow> nat \<Rightarrow> log_record list \<Rightarrow> java_record list run" where
  "to_java_array jni_ok k [] = Ok []"
| "to_java_array jni_ok k (r # rs) =
     (if jni_ok k \<and> jni_ok (k + 1) \<and> jni_ok (k + 2) \<and> jni_ok (k + 3)
      then and_then (to_java_array jni_ok (k + 4) rs) (\<lambda>js. Ok (to_java r # js))
      else Panic ExpectFailed)"

text \<open>
  The result is \<open>None\<close> for a null pointer. The box is forgotten when the read returns, so
  the cursor stays alive; a panic in the read drops it.
\<close>

definition Java_readBatch ::
  "hasher \<Rightarrow> nat \<Rightarrow> (nat \<Rightarrow> bool) \<Rightarrow> jlong \<Rightarrow> jint \<Rightarrow> jni_state \<Rightarrow>
   java_record list option run \<times> jni_state" where
  "Java_readBatch crc frames jni_ok cursor_ptr max_count s =
     (if cursor_ptr = 0 then (Ok None, s)
      else
      case live_cursor cursor_ptr s of
        None \<Rightarrow> (Undefined, s)
      | Some (cursor, p) \<Rightarrow>
     (case read_batch crc frames (disk_at p (jni_lib s)) (scast max_count) cursor of
        (Ok records, cursor') \<Rightarrow>
          (let s1 = set_cursor cursor_ptr (Some (cursor', p)) s in
           if jni_ok 0 \<and> jni_ok 1
           then (and_then (to_java_array jni_ok 2 records) (\<lambda>js. Ok (Some js)), s1)
           else (Panic ExpectFailed, s1))
      | (Err e, cursor') \<Rightarrow> (Ok None, set_cursor cursor_ptr (Some (cursor', p)) s)
      | (Panic q, _) \<Rightarrow> (Panic q, set_cursor cursor_ptr None s)
      | (Undefined, _) \<Rightarrow> (Undefined, s)))"

definition Java_closeCursor :: "jlong \<Rightarrow> jni_state \<Rightarrow> unit run \<times> jni_state" where
  "Java_closeCursor cursor_ptr s =
     (if cursor_ptr \<noteq> 0 then
        (case live_cursor cursor_ptr s of
           None \<Rightarrow> (Undefined, s)
         | Some _ \<Rightarrow> (Ok (), set_cursor cursor_ptr None s))
      else (Ok (), s))"

end
