(* ===== verification/Ios.thy ===== *)
theory Ios
  imports Sherlog
begin

text \<open>
  The iOS bindings of \<open>src/ios/mod.rs\<close>. A Swift cursor owns a Rust cursor, modelled as the
  pair of the cursor and the address of its persistent buffer. The integers are unsigned
  and zero-extended. The mutex around the handle of the daemon thread is held in two calls
  that cannot panic while holding it, so it is never poisoned.
\<close>

record ios_state =
  ios_lib :: lib
  ios_daemon_handle :: "(daemon_config \<times> addr \<times> addr) option"

type_synonym rust_cursor = "cursor \<times> addr"

record swift_record =
  sw_data :: bytes
  sw_crc32 :: u32
  sw_timestamp_us :: u64
  sw_tag :: u32

definition ios_on_lib :: "(lib \<Rightarrow> 'a run \<times> lib) \<Rightarrow> ios_state \<Rightarrow> 'a run \<times> ios_state" where
  "ios_on_lib f s = (let (res, L) = f (ios_lib s) in (res, s\<lparr>ios_lib := L\<rparr>))"

definition swift_initialize ::
  "hasher \<Rightarrow> u32 \<Rightarrow> open_env \<Rightarrow> string \<Rightarrow> bool \<Rightarrow> string \<Rightarrow> u32 \<Rightarrow> u32 \<Rightarrow> u32 \<Rightarrow> f32 \<Rightarrow> ios_state \<Rightarrow>
   bool run \<times> ios_state" where
  "swift_initialize crc pad env temp_path spawned disk_path volatile_buffer_size
       persistent_buffer_size flush_interval_ms high_watermark s =
     run_then (ios_on_lib (init_memory_buffer (ucast volatile_buffer_size)) s) (\<lambda>_ s1.
     run_then (ios_on_lib (init_persistent_buffer crc pad env disk_path
       (ucast persistent_buffer_size)) s1) (\<lambda>_ s2.
     run_then (ios_on_lib (start_flush_daemon crc pad env temp_path spawned
       \<lparr>interval_ms = ucast flush_interval_ms, high_watermark_percent = high_watermark,
        max_records_per_flush = 100\<rparr>) s2) (\<lambda>handle s3.
       (Ok True, s3\<lparr>ios_daemon_handle := Some handle\<rparr>))))"

definition swift_shutdown :: "(lib \<Rightarrow> lib) \<Rightarrow> ios_state \<Rightarrow> ios_state" where
  "swift_shutdown finish s =
     (let s1 = s\<lparr>ios_lib := stop_flush_daemon (ios_lib s)\<rparr> in
      case ios_daemon_handle s1 of
        Some handle \<Rightarrow> s1\<lparr>ios_daemon_handle := None, ios_lib := finish (ios_lib s1)\<rparr>
      | None \<Rightarrow> s1)"

definition swift_write ::
  "hasher \<Rightarrow> u32 \<Rightarrow> nat option \<Rightarrow> bytes \<Rightarrow> u32 \<Rightarrow> ios_state \<Rightarrow> bool run \<times> ios_state" where
  "swift_write crc pad clock data tag s = ios_on_lib (lib_write crc pad clock data tag) s"

definition swift_create_cursor ::
  "hasher \<Rightarrow> u32 \<Rightarrow> open_env \<Rightarrow> string \<Rightarrow> ios_state \<Rightarrow> rust_cursor run \<times> ios_state" where
  "swift_create_cursor crc pad env temp_path s =
     run_then (ios_on_lib (get_persistent_buffer crc pad env temp_path) s) (\<lambda>p s1.
       (Ok (Cursor_new (disk_at p (ios_lib s1)) None, p), s1))"

definition to_swift :: "log_record \<Rightarrow> swift_record" where
  "to_swift r = \<lparr>sw_data = r_data r, sw_crc32 = rh_crc32 (r_header r),
     sw_timestamp_us = rh_timestamp_us (r_header r), sw_tag = rh_tag (r_header r)\<rparr>"

text \<open>An error is reported like the end of the log.\<close>

definition swift_read_next ::
  "hasher \<Rightarrow> nat \<Rightarrow> rust_cursor \<Rightarrow> ios_state \<Rightarrow> swift_record option run \<times> rust_cursor" where
  "swift_read_next crc frames cursor s =
     (let (c, p) = cursor; (res, c') = cursor_next crc frames (disk_at p (ios_lib s)) c in
      (case res of
         Ok (Some record) \<Rightarrow> Ok (Some (to_swift record))
       | Ok None \<Rightarrow> Ok None
       | Err e \<Rightarrow> Ok None
       | Panic q \<Rightarrow> Panic q
       | Undefined \<Rightarrow> Undefined, (c', p)))"

definition swift_read_batch ::
  "hasher \<Rightarrow> nat \<Rightarrow> rust_cursor \<Rightarrow> u32 \<Rightarrow> ios_state \<Rightarrow> swift_record list run \<times> rust_cursor" where
  "swift_read_batch crc frames cursor max_count s =
     (let (c, p) = cursor;
          (res, c') = read_batch crc frames (disk_at p (ios_lib s)) (ucast max_count) c
      in
      (case res of
         Ok records \<Rightarrow> Ok (map to_swift records)
       | Err e \<Rightarrow> Ok []
       | Panic q \<Rightarrow> Panic q
       | Undefined \<Rightarrow> Undefined, (c', p)))"

definition swift_reset_cursor :: "rust_cursor \<Rightarrow> ios_state \<Rightarrow> rust_cursor" where
  "swift_reset_cursor cursor s =
     (let (c, p) = cursor in (snd (seek_to_end (disk_at p (ios_lib s)) c), p))"

definition swift_commit_cursor ::
  "hasher \<Rightarrow> u32 \<Rightarrow> io_error option \<Rightarrow> rust_cursor \<Rightarrow> ios_state \<Rightarrow> bool run \<times> ios_state" where
  "swift_commit_cursor crc pad flush cursor s =
     (let (c, p) = cursor;
          (res, b) = cursor_commit crc pad flush c (disk_at p (ios_lib s));
          s1 = s\<lparr>ios_lib := set_disk p b (ios_lib s)\<rparr>
      in
      (case res of Ok _ \<Rightarrow> Ok True | Err e \<Rightarrow> Ok False | Panic q \<Rightarrow> Panic q | Undefined \<Rightarrow> Undefined, s1))"

end
