(* ===== verification/Clients.thy ===== *)
theory Clients
  imports Jni Ios
begin

text \<open>
  The reading code of the two client interfaces that the library generates: the Kotlin object
  of \<open>generate_kotlin_interface\<close> (\<open>src/jni/mod.rs\<close>) and the Swift classes of
  \<open>generate_swift_interface\<close> (\<open>src/ios/mod.rs\<close>). Their loops may run forever, so they are
  partial functions: \<open>None\<close> is a loop that does not end. A panic of a native function ends
  the client, so nothing after it is executed.
\<close>

text \<open>Sequencing of computations that may not end.\<close>

fun loop_then ::
  "(('e, 'a) outcome \<times> 's) option \<Rightarrow> ('a \<Rightarrow> 's \<Rightarrow> (('e, 'b) outcome \<times> 's) option) \<Rightarrow>
   (('e, 'b) outcome \<times> 's) option" where
  "loop_then None f = None"
| "loop_then (Some (Ok x, s)) f = f x s"
| "loop_then (Some (Err e, s)) f = Some (Err e, s)"
| "loop_then (Some (Panic q, s)) f = Some (Panic q, s)"
| "loop_then (Some (Undefined, s)) f = Some (Undefined, s)"

section \<open>Kotlin\<close>

text \<open>
  The cursor is closed when the block returns and also when it throws, which is its outcome
  \<open>Err\<close>; a panic of a native function ends the process. \<open>jni_ok i k\<close> is whether the \<open>k\<close>-th call of the
  Java runtime in the \<open>i\<close>-th call of \<open>readBatch\<close> succeeds.
\<close>

definition kotlin_withCursor ::
  "hasher \<Rightarrow> u32 \<Rightarrow> open_env \<Rightarrow> string \<Rightarrow> (jlong \<Rightarrow> jni_state \<Rightarrow> ('a run \<times> jni_state) option) \<Rightarrow>
   jni_state \<Rightarrow> ('a run \<times> jni_state) option" where
  "kotlin_withCursor crc pad env temp_path block s =
     loop_then (Some (Java_createCursor crc pad env temp_path s)) (\<lambda>cursor s1.
     (case block cursor s1 of
        Some (Ok result, s2) \<Rightarrow>
          loop_then (Some (Java_closeCursor cursor s2)) (\<lambda>_ s3. Some (Ok result, s3))
      | Some (Err e, s2) \<Rightarrow>
          loop_then (Some (Java_closeCursor cursor s2)) (\<lambda>_ s3. Some (Err e, s3))
      | aborted \<Rightarrow> aborted))"

partial_function (option) kotlin_read_loop ::
  "hasher \<Rightarrow> nat \<Rightarrow> (nat \<Rightarrow> nat \<Rightarrow> bool) \<Rightarrow> nat \<Rightarrow> jlong \<Rightarrow> java_record list \<Rightarrow> jni_state \<Rightarrow>
   (java_record list run \<times> jni_state) option" where
  "kotlin_read_loop crc frames jni_ok i cursor result s =
     (case Java_readBatch crc frames (jni_ok i) cursor 100 s of
        (Ok batch, s1) \<Rightarrow>
          (let result1 = (case batch of Some records \<Rightarrow> result @ records | None \<Rightarrow> result) in
           if batch \<noteq> None \<and> batch \<noteq> Some []
           then kotlin_read_loop crc frames jni_ok (Suc i) cursor result1 s1
           else Some (Ok result1, s1))
      | (Err e, s1) \<Rightarrow> Some (Err e, s1)
      | (Panic q, s1) \<Rightarrow> Some (Panic q, s1)
      | (Undefined, s1) \<Rightarrow> Some (Undefined, s1))"

definition kotlin_readAllLogs ::
  "hasher \<Rightarrow> u32 \<Rightarrow> open_env \<Rightarrow> string \<Rightarrow> nat \<Rightarrow> (nat \<Rightarrow> nat \<Rightarrow> bool) \<Rightarrow> jni_state \<Rightarrow>
   (java_record list run \<times> jni_state) option" where
  "kotlin_readAllLogs crc pad env temp_path frames jni_ok s =
     kotlin_withCursor crc pad env temp_path
       (\<lambda>cursor. kotlin_read_loop crc frames jni_ok 0 cursor []) s"

section \<open>Swift\<close>

text \<open>The logger passes its calls on to the native functions; its default arguments are named here.\<close>

definition default_volatileBufferSize :: u32 where "default_volatileBufferSize = 1048576"
definition default_persistentBufferSize :: u32 where "default_persistentBufferSize = 10485760"
definition default_flushIntervalMs :: u32 where "default_flushIntervalMs = 1000"
definition default_highWatermarkPercent :: f32 where "default_highWatermarkPercent = Fin 75"

definition SherlongLogger_initialize ::
  "hasher \<Rightarrow> u32 \<Rightarrow> open_env \<Rightarrow> string \<Rightarrow> bool \<Rightarrow> string \<Rightarrow> u32 option \<Rightarrow> u32 option \<Rightarrow> u32 option \<Rightarrow>
   f32 option \<Rightarrow> ios_state \<Rightarrow> bool run \<times> ios_state" where
  "SherlongLogger_initialize crc pad env temp_path spawned diskPath volatileBufferSize
       persistentBufferSize flushIntervalMs highWatermarkPercent s =
     swift_initialize crc pad env temp_path spawned diskPath
       (case_option default_volatileBufferSize id volatileBufferSize)
       (case_option default_persistentBufferSize id persistentBufferSize)
       (case_option default_flushIntervalMs id flushIntervalMs)
       (case_option default_highWatermarkPercent id highWatermarkPercent) s"

definition SherlongLogger_shutdown :: "(lib \<Rightarrow> lib) \<Rightarrow> ios_state \<Rightarrow> ios_state" where
  "SherlongLogger_shutdown finish s = swift_shutdown finish s"

text \<open>A message is written as its UTF-8 bytes, if it has any (\<open>utf8\<close>).\<close>

definition SherlongLogger_write_message ::
  "hasher \<Rightarrow> u32 \<Rightarrow> nat option \<Rightarrow> bytes option \<Rightarrow> u32 \<Rightarrow> ios_state \<Rightarrow> bool run \<times> ios_state" where
  "SherlongLogger_write_message crc pad clock utf8 tag s =
     (case utf8 of None \<Rightarrow> (Ok False, s) | Some data \<Rightarrow> swift_write crc pad clock data tag s)"

definition SherlongLogger_write_data ::
  "hasher \<Rightarrow> u32 \<Rightarrow> nat option \<Rightarrow> bytes \<Rightarrow> u32 \<Rightarrow> ios_state \<Rightarrow> bool run \<times> ios_state" where
  "SherlongLogger_write_data crc pad clock data tag s = swift_write crc pad clock data tag s"

partial_function (option) swift_read_loop ::
  "hasher \<Rightarrow> nat \<Rightarrow> rust_cursor \<Rightarrow> swift_record list \<Rightarrow> ios_state \<Rightarrow>
   ((swift_record list \<times> rust_cursor) run \<times> ios_state) option" where
  "swift_read_loop crc frames cursor records s =
     (case swift_read_next crc frames cursor s of
        (Ok found, cursor1) \<Rightarrow>
          (case found of
             Some record \<Rightarrow> swift_read_loop crc frames cursor1 (records @ [record]) s
           | None \<Rightarrow> Some (Ok (records, cursor1), s))
      | (Err e, _) \<Rightarrow> Some (Err e, s)
      | (Panic q, _) \<Rightarrow> Some (Panic q, s)
      | (Undefined, _) \<Rightarrow> Some (Undefined, s))"

text \<open>The result of the commit is discarded.\<close>

definition swift_readAllLogs ::
  "hasher \<Rightarrow> u32 \<Rightarrow> open_env \<Rightarrow> string \<Rightarrow> nat \<Rightarrow> io_error option \<Rightarrow> ios_state \<Rightarrow>
   (swift_record list run \<times> ios_state) option" where
  "swift_readAllLogs crc pad env temp_path frames flush s =
     loop_then (Some (swift_create_cursor crc pad env temp_path s)) (\<lambda>cursor s1.
     loop_then (swift_read_loop crc frames cursor [] s1) (\<lambda>(records, cursor1) s2.
     loop_then (Some (swift_commit_cursor crc pad flush cursor1 s2)) (\<lambda>_ s3. Some (Ok records, s3))))"

text \<open>
  The block works on the cursor through the methods of \<open>LogCursor\<close>, which pass it on to the
  native functions, and its result is what it assigns to captured variables; the cursor is
  committed when the object is released at the end of the call (the block does not keep a
  reference to it).
\<close>

definition swift_withCursor ::
  "hasher \<Rightarrow> u32 \<Rightarrow> open_env \<Rightarrow> string \<Rightarrow> io_error option \<Rightarrow>
   (rust_cursor \<Rightarrow> ios_state \<Rightarrow> (('a \<times> rust_cursor) run \<times> ios_state)) \<Rightarrow>
   ios_state \<Rightarrow> 'a run \<times> ios_state" where
  "swift_withCursor crc pad env temp_path flush block s =
     run_then (swift_create_cursor crc pad env temp_path s) (\<lambda>cursor s1.
     run_then (block cursor s1) (\<lambda>(result, cursor1) s2.
     run_then (swift_commit_cursor crc pad flush cursor1 s2) (\<lambda>_ s3. (Ok result, s3))))"

definition LogCursor_readBatch ::
  "hasher \<Rightarrow> nat \<Rightarrow> u32 \<Rightarrow> rust_cursor \<Rightarrow> ios_state \<Rightarrow>
   (swift_record list \<times> rust_cursor) run \<times> ios_state" where
  "LogCursor_readBatch crc frames maxCount cursor s =
     (let (res, cursor1) = swift_read_batch crc frames cursor maxCount s in
      (and_then res (\<lambda>records. Ok (records, cursor1)), s))"

definition LogCursor_next ::
  "hasher \<Rightarrow> nat \<Rightarrow> rust_cursor \<Rightarrow> ios_state \<Rightarrow>
   (swift_record option \<times> rust_cursor) run \<times> ios_state" where
  "LogCursor_next crc frames cursor s =
     (let (res, cursor1) = swift_read_next crc frames cursor s in
      (and_then res (\<lambda>record. Ok (record, cursor1)), s))"

definition LogCursor_reset :: "rust_cursor \<Rightarrow> ios_state \<Rightarrow> (unit \<times> rust_cursor) run \<times> ios_state" where
  "LogCursor_reset cursor s = (Ok ((), swift_reset_cursor cursor s), s)"

definition LogCursor_commit ::
  "hasher \<Rightarrow> u32 \<Rightarrow> io_error option \<Rightarrow> rust_cursor \<Rightarrow> ios_state \<Rightarrow>
   (bool \<times> rust_cursor) run \<times> ios_state" where
  "LogCursor_commit crc pad flush cursor s =
     run_then (swift_commit_cursor crc pad flush cursor s) (\<lambda>done s1. (Ok (done, cursor), s1))"

end
