(* ===== verification/Bindings_Properties.thy ===== *)
theory Bindings_Properties
  imports Jni Ios Sherlog_Properties
begin

text \<open>
  The properties of the two bindings: the life of a cursor handle, the effect of negative
  Java integers, and how the Swift interface reads the log.
\<close>

section \<open>Handles\<close>

lemma unat_handle:
  "Suc i < 2 ^ 64 \<Longrightarrow> unat (handle_of i) = Suc i" "Suc i < 2 ^ 64 \<Longrightarrow> handle_of i \<noteq> 0"
proof -
  assume "Suc i < 2 ^ 64"
  then show u: "unat (handle_of i) = Suc i" unfolding handle_of_def by (rule unat_of_nat_usize)
  then show "handle_of i \<noteq> 0" by auto
qed

lemma live_cursor_simps:
  assumes "Suc i < 2 ^ 64" and "i < length (jni_cursors s)"
  shows "live_cursor (handle_of i) s = jni_cursors s ! i"
    and "live_cursor (handle_of i) (set_cursor (handle_of i) c s) = c"
    and "length (jni_cursors (set_cursor (handle_of i) c s)) = length (jni_cursors s)"
    and "jni_lib (set_cursor (handle_of i) c s) = jni_lib s"
  using assms unat_handle[OF assms(1)] by (simp_all add: live_cursor_def set_cursor_def)

lemma to_java_array_ok: "\<forall>k. jni_ok k \<Longrightarrow> to_java_array jni_ok k rs = Ok (map to_java rs)"
  by (induction rs arbitrary: k) simp_all

lemma Java_readBatch_between:
  assumes "Suc i < 2 ^ 64" and "i < length (jni_cursors s)" and "jni_cursors s ! i = Some (c, p)"
    and "cursor_between crc (disk_at p (jni_lib s)) xs ys c" and "0 < frames" and "unat n < 2 ^ 31"
    and "\<forall>k. jni_ok k"
  shows "\<exists>s' c'. Java_readBatch crc frames jni_ok (handle_of i) n s
       = (Ok (Some (map (to_java \<circ> stored crc) (take (unat n) ys))), s') \<and>
     jni_lib s' = jni_lib s \<and> jni_cursors s' = (jni_cursors s)[i := Some (c', p)] \<and>
     cursor_between crc (disk_at p (jni_lib s)) (xs @ take (unat n) ys) (drop (unat n) ys) c'"
proof -
  have u: "unat (scast n :: usize) = unat n" by (rule scast_nonneg[OF assms(6)])
  then obtain c' where c': "read_batch crc frames (disk_at p (jni_lib s)) (scast n) c
      = (Ok (map (stored crc) (take (unat n) ys)), c')"
    "cursor_between crc (disk_at p (jni_lib s)) (xs @ take (unat n) ys) (drop (unat n) ys) c'"
    using read_batch_between[OF assms(4,5), of "scast n"] assms(6) by auto
  let ?s = "set_cursor (handle_of i) (Some (c', p)) s"
  have "Java_readBatch crc frames jni_ok (handle_of i) n s
      = (Ok (Some (map (to_java \<circ> stored crc) (take (unat n) ys))), ?s)"
    using c'(1) live_cursor_simps(1)[OF assms(1,2)] assms(3,7) unat_handle(2)[OF assms(1)]
    by (simp add: Java_readBatch_def to_java_array_ok Let_def)
  moreover have "jni_cursors ?s = (jni_cursors s)[i := Some (c', p)]"
    using unat_handle(1)[OF assms(1)] by (simp add: set_cursor_def)
  ultimately show ?thesis
    using c'(2) live_cursor_simps(4)[OF assms(1,2)] by blast
qed


text \<open>A library whose persistent buffer holds two unread records.\<close>

definition filled_lib :: lib where
  "filled_lib = demo_lib\<lparr>lib_disks := [demo_filled], lib_files := (\<lambda>_. buf_mmap demo_filled)\<rparr>"

lemma filled_lib_ok: "lib_persistent filled_lib = Some 0" "disk_at 0 filled_lib = demo_filled"
  "holds_log crc32_ieee demo_filled ([] @ [demo_record, demo_record])"
  using demo_filled_ok(1,2) by (simp_all add: filled_lib_def demo_lib_def disk_at_def holds_log_def)


section \<open>Negative Java integers\<close>

text \<open>
  A negative integer from Java becomes a huge unsigned one. A negative batch size on a
  live cursor panics and frees the cursor; a negative number of slots makes the
  initialisation panic before anything is changed.
\<close>

theorem java_negative_arguments_panic:
  assumes "2 ^ 31 \<le> unat n" and "live_cursor h s = Some (c, p)"
  shows "Java_readBatch crc frames jni_ok h n s = (Panic CapacityOverflow, set_cursor h None s) \<and>
     Java_initialize crc pad env temp spawned (Some path) n psize interval high s
       = (Panic AssertFailed, s)"
proof
  have neg: "2 ^ 63 < (scast n :: usize)" by (rule scast_negative[OF assms(1)])
  then have "2 ^ 63 \<le> unat (scast n :: usize) * 48" by (simp add: word_less_nat_alt)
  moreover have "h \<noteq> 0" using assms(2) by (auto simp: live_cursor_def)
  ultimately show "Java_readBatch crc frames jni_ok h n s = (Panic CapacityOverflow, set_cursor h None s)"
    using assms(2) by (simp add: Java_readBatch_def read_batch_def)
  have "next_power_of_two (scast n) = 0" by (rule next_power_of_two_overflow[OF neg])
  moreover have "\<not> is_power_of_two 0" by (simp add: is_power_of_two_def)
  ultimately show "Java_initialize crc pad env temp spawned (Some path) n psize interval high s
      = (Panic AssertFailed, s)"
    by (simp add: Java_initialize_def on_lib_def init_memory_buffer_def new_memory_buffer_def
        VolatileRingBuffer_new_def fresh_storage_def AtomicIndex_new_def)
qed

theorem java_negative_arguments_panic_witness:
  "fst (Java_readBatch crc32_ieee 1 (\<lambda>_. True) (handle_of 0) (- 1)
     \<lparr>jni_lib = filled_lib, jni_cursors = [Some (Cursor_new demo_filled None, 0)], jni_daemon_handle = None\<rparr>)
   = Panic CapacityOverflow"
proof -
  have "(2 :: nat) ^ 31 \<le> unat (- 1 :: jint)" by (simp add: unsigned_minus_1_eq_mask mask_eq_exp_minus_1)
  moreover have "live_cursor (handle_of 0) \<lparr>jni_lib = filled_lib,
      jni_cursors = [Some (Cursor_new demo_filled None, 0)], jni_daemon_handle = None\<rparr>
    = Some (Cursor_new demo_filled None, 0)"
    by (subst live_cursor_simps(1)) simp_all
  ultimately show ?thesis using java_negative_arguments_panic by (metis fst_conv)
qed

section \<open>Reading from Swift\<close>

lemma swift_read_next_between:
  assumes "cursor_between crc (disk_at p (ios_lib s)) xs (y # ys) c"
  shows "\<exists>c'. swift_read_next crc (Suc f) (c, p) s = (Ok (Some (to_swift (stored crc y))), (c', p)) \<and>
     cursor_between crc (disk_at p (ios_lib s)) (xs @ [y]) ys c'"
  using cursor_next_record[OF assms, of f] by (auto simp: swift_read_next_def simp del: cursor_next.simps)

lemma swift_read_next_end:
  assumes "cursor_between crc (disk_at p (ios_lib s)) xs [] c"
  shows "swift_read_next crc (Suc f) (c, p) s = (Ok None, (c, p))"
  using cursor_next_end[OF assms, of f] by (simp add: swift_read_next_def del: cursor_next.simps)

end
