(* ===== verification/Cursor_Interference.thy ===== *)
theory Cursor_Interference
  imports Cursor_Properties
begin

text \<open>
  A cursor while the buffer changes under it: a writer appends records behind the ones the
  cursor still has to read, or bytes of a stored record are damaged.
\<close>

section \<open>A writer behind the cursor\<close>

lemma append_on_lap:
  assumes "holds_log crc b xs" and "u32_ok r" and "log_len (xs @ [r]) \<le> unat (buf_size b)"
  shows "try_write crc pad r b = Some (written crc pad r b)"
    and "holds_log crc (written crc pad r b) (xs @ [r])"
    and "buf_size (written crc pad r b) = buf_size b"
    and "cb_wrap_count (buf_control (written crc pad r b)) = cb_wrap_count (buf_control b)"
proof -
  have len: "rec_len r \<le> unat (buf_size b)" using assms(3) by simp
  show "try_write crc pad r b = Some (written crc pad r b)"
    "holds_log crc (written crc pad r b) (xs @ [r])" "buf_size (written crc pad r b) = buf_size b"
    using try_write_eq[OF assms(1,2) len, of pad] assms(3) by (simp_all add: log_write_def)
  have "\<not> write_wraps r b"
    using assms(1,3) by (simp add: write_wraps_def holds_log_def represents_def)
  then show "cb_wrap_count (buf_control (written crc pad r b)) = cb_wrap_count (buf_control b)"
    using written_control(3)[of b r crc] assms(1) len by (simp add: written_def holds_log_def)
qed

lemma appends_on_lap:
  assumes "holds_log crc b xs" and "\<forall>r\<in>set rs. u32_ok r" and "log_len (xs @ rs) \<le> unat (buf_size b)"
  shows "\<exists>b'. iter_opt (try_write crc pad) rs b = Some b' \<and> holds_log crc b' (xs @ rs) \<and>
     cb_wrap_count (buf_control b') = cb_wrap_count (buf_control b)"
  using assms
proof (induction rs arbitrary: b xs)
  case (Cons r rs)
  show ?case
    using Cons.IH[of "written crc pad r b" "xs @ [r]"] Cons.prems append_on_lap[OF Cons.prems(1), of r pad]
    by simp
qed simp

text \<open>The end flag of a cursor is only looked at again after a seek.\<close>

lemma seek_to_restarts:
  assumes "cursor_between crc b xs [] c" and "rs \<noteq> []" and "holds_log crc b' (xs @ rs)"
    and "\<forall>r\<in>set rs. u32_ok r" and "cb_wrap_count (buf_control b') = cb_wrap_count (buf_control b)"
  shows "cursor_between crc b' xs rs (snd (seek_to b' (cur_position c) c))"
proof -
  have c: "cursor_between crc b' xs rs (c\<lparr>cur_at_end := False\<rparr>)"
    using assms by (simp add: cursor_between_def)
  then show ?thesis using seek_to_between[OF c, of c] by simp
qed

text \<open>
  C6: a cursor and a writer that appends records without wrapping. A cursor that has records
  left to read also returns the appended ones, in order behind the others. A cursor that
  had reached the end reports the end whatever is appended, until it seeks to its own
  position; then it returns exactly the appended records.
\<close>

theorem cursor_follows_writer:
  assumes "cursor_between crc b xs ys c" and "\<forall>r\<in>set rs. u32_ok r" and "rs \<noteq> []"
    and "log_len (xs @ ys @ rs) \<le> unat (buf_size b)" and "0 < frames" and "unat n * 48 < 2 ^ 63"
  shows "\<exists>b'. iter_opt (try_write crc pad) rs b = Some b' \<and>
     (if ys \<noteq> [] then \<exists>c'. read_batch crc frames b' n c = (Ok (map (stored crc) (take (unat n) (ys @ rs))), c')
      else read_batch crc frames b' n c = (Ok [], c) \<and>
        (\<exists>c'. read_batch crc frames b' n (snd (seek_to b' (cursor_position c) c))
           = (Ok (map (stored crc) (take (unat n) rs)), c')))"
proof -
  have "holds_log crc b (xs @ ys)" using assms(1) by (simp add: cursor_between_def)
  then obtain b' where b': "iter_opt (try_write crc pad) rs b = Some b'" "holds_log crc b' (xs @ ys @ rs)"
    "cb_wrap_count (buf_control b') = cb_wrap_count (buf_control b)"
    using appends_on_lap[of crc b "xs @ ys" rs pad] assms(2,4) by auto
  show ?thesis
  proof (cases "ys = []")
    case False
    then have "cursor_between crc b' xs (ys @ rs) c"
      using assms(1,2) b'(2,3) by (auto simp: cursor_between_def)
    from read_batch_between[OF this assms(5,6)] show ?thesis using b'(1) False by auto
  next
    case True
    have "cursor_between crc b' xs rs (snd (seek_to b' (cursor_position c) c))"
      using seek_to_restarts[of crc b xs c rs b'] assms(1-3) b'(2,3) True by (simp add: cursor_position_def)
    then have "\<exists>c'. read_batch crc frames b' n (snd (seek_to b' (cursor_position c) c))
        = (Ok (map (stored crc) (take (unat n) rs)), c')"
      using read_batch_between[OF _ assms(5,6)] by blast
    moreover have "read_batch crc frames b' n c = (Ok [], c)"
      using read_batch_at_end[OF _ assms(5,6)] True assms(1) by (simp add: cursor_between_def)
    ultimately show ?thesis using b'(1) True by simp
  qed
qed

text \<open>A cursor that has read the only record, and a second one that is written afterwards.\<close>

theorem cursor_follows_writer_witness:
  "\<exists>b'. iter_opt (try_write crc32_ieee 0) [demo_record] (written crc32_ieee 0 demo_record demo_buffer) = Some b' \<and>
     read_batch crc32_ieee 1 b' 9 \<lparr>cur_position = Position_new 29 0, cur_at_end = True\<rparr>
       = (Ok [], \<lparr>cur_position = Position_new 29 0, cur_at_end = True\<rparr>)"
proof -
  let ?b = "written crc32_ieee 0 demo_record demo_buffer"
  have "cb_wrap_count (buf_control ?b) = 0"
    using append_on_lap(4)[of crc32_ieee demo_buffer "[]" demo_record 0] demo_buffer_ok demo_record_ok
    by (simp add: holds_log_def demo_buffer_def ControlBlock_new_def)
  then have "cursor_between crc32_ieee ?b [demo_record] [] \<lparr>cur_position = Position_new 29 0, cur_at_end = True\<rparr>"
    using demo_one_ok demo_record_ok by (simp add: cursor_between_def holds_log_def Position_new_def)
  then show ?thesis
    using cursor_follows_writer[of crc32_ieee ?b "[demo_record]" "[]" _ "[demo_record]" 1 9 0]
      demo_one_ok(3) demo_record_ok by auto
qed

section \<open>Damaged records\<close>

text \<open>Bytes in the data of the record at an offset are overwritten.\<close>

definition damaged :: "nat \<Rightarrow> nat \<Rightarrow> bytes \<Rightarrow> prb \<Rightarrow> prb" where
  "damaged p i v b = b\<lparr>buf_mmap := put (buf_mmap b) (72 + p + i) v\<rparr>"

lemma damaged_inv:
  assumes "holds_log crc b (xs @ z # zs)" and "i + length v \<le> length (r_data z)"
  shows "prb_inv (damaged (log_len xs) i v b)" and "72 + log_len xs + i + length v \<le> length (buf_mmap b)"
proof -
  have inv: "prb_inv b" and rep: "represents crc b (xs @ z # zs)" using assms(1) by (simp_all add: holds_log_def)
  show fits: "72 + log_len xs + i + length v \<le> length (buf_mmap b)"
    using represents_image_at(2)[OF inv rep] assms(2) prb_inv_facts(1)[OF inv] by (simp add: rec_len_def)
  show "prb_inv (damaged (log_len xs) i v b)"
    using inv fits by (simp add: prb_inv_def damaged_def slice_put_before)
qed

lemma read_before_damage:
  assumes "holds_log crc b (xs @ y # ys @ z # zs)" and "u32_ok y"
    and "i + length v \<le> length (r_data z)"
  shows "read_at crc (word_of_nat (log_len xs)) (damaged (log_len (xs @ y # ys)) i v b)
     = Ok (Some (stored crc y, word_of_nat (rec_len y)))"
proof -
  let ?p = "log_len (xs @ y # ys)"
  have inv: "prb_inv b" and rep: "represents crc b (xs @ y # ys @ z # zs)"
    using assms(1) by (simp_all add: holds_log_def)
  have damaged: "prb_inv (damaged ?p i v b)" "72 + ?p + i + length v \<le> length (buf_mmap b)"
    using damaged_inv[of crc b "xs @ y # ys" z zs i v] assms(1,3) by simp_all
  show ?thesis
  proof (rule read_at_image[OF damaged(1) _ _ assms(2)])
    show "subslice (buf_mmap (damaged ?p i v b)) (48 + log_len xs) (rec_len y) = record_image crc y"
      using represents_image_at(1)[OF inv rep] damaged(2) by (simp add: damaged_def slice_put_before)
    show "log_len xs + rec_len y \<le> unat (buf_size (damaged ?p i v b))"
      using represents_image_at(2)[OF inv rep] by (simp add: damaged_def)
  qed
qed

lemma next_before_damage:
  assumes "cursor_between crc b xs (y # ys @ z # zs) c" and "i + length v \<le> length (r_data z)"
  shows "\<exists>c'. cursor_next crc (Suc f) (damaged (log_len (xs @ y # ys)) i v b) c
       = (Ok (Some (stored crc y)), c') \<and> cursor_between crc b (xs @ [y]) (ys @ z # zs) c'"
proof -
  let ?b = "damaged (log_len (xs @ y # ys)) i v b"
  have log: "holds_log crc b (xs @ y # ys @ z # zs)" and ok: "u32_ok y"
    and pos: "pos_offset (cur_position c) = word_of_nat (log_len xs)"
    using assms(1) by (simp_all add: cursor_between_def)
  have "read_at crc (pos_offset (cur_position c)) ?b = Ok (Some (stored crc y, word_of_nat (rec_len y)))"
    using read_before_damage[OF log ok assms(2)] pos by simp
  moreover have "read_at crc (pos_offset (cur_position c)) b = Ok (Some (stored crc y, word_of_nat (rec_len y)))"
    using read_at_record[of b crc xs y "ys @ z # zs"] ok log pos by (simp add: holds_log_def)
  moreover have "get_control_block ?b = get_control_block b" by (simp add: damaged_def get_control_block_def)
  ultimately have "cursor_next crc (Suc f) ?b c = cursor_next crc (Suc f) b c" by simp
  then show ?thesis using cursor_next_record[OF assms(1), of f] by simp
qed

lemma next_at_damage:
  assumes "burst_checksum crc" and "cursor_between crc b xs (z # zs) c"
    and "i + 4 \<le> length (r_data z)" and "length v = 4" and "v \<noteq> subslice (r_data z) i 4"
  shows "cursor_next crc (Suc f) (damaged (log_len xs) i v b) c = (Err InvalidRecord, c)"
proof -
  have log: "holds_log crc b (xs @ z # zs)" and ok: "u32_ok z" and c: "\<not> cur_at_end c"
    and pos: "pos_offset (cur_position c) = word_of_nat (log_len xs)"
    using assms(2) by (simp_all add: cursor_between_def)
  have inv: "prb_inv b" and rep: "represents crc b (xs @ z # zs)" using log by (simp_all add: holds_log_def)
  show ?thesis
    using read_at_corrupted[OF assms(1) inv ok represents_image_at[OF inv rep] assms(3-5)] c pos
    by (simp add: damaged_def)
qed

lemma batch_at_damage:
  assumes "burst_checksum crc" and "i + 4 \<le> length (r_data z)" and "length v = 4"
    and "v \<noteq> subslice (r_data z) i 4"
  shows "cursor_between crc b xs (ys @ z # zs) c \<Longrightarrow> length ys < n \<Longrightarrow> \<exists>c'.
     read_batch_loop crc (Suc f) (damaged (log_len (xs @ ys)) i v b) n c acc = (Err InvalidRecord, c') \<and>
     cursor_between crc b (xs @ ys) (z # zs) c'"
proof (induction ys arbitrary: xs c n acc)
  case Nil
  then show ?case
    using next_at_damage[OF assms(1) _ assms(2-4)] by (cases n) (simp_all del: cursor_next.simps)
next
  case (Cons y ys)
  then obtain m where n: "n = Suc m" "length ys < m" by (cases n) auto
  obtain c1 where c1: "cursor_next crc (Suc f) (damaged (log_len (xs @ y # ys)) i v b) c
      = (Ok (Some (stored crc y)), c1)" "cursor_between crc b (xs @ [y]) (ys @ z # zs) c1"
    using next_before_damage[of crc b xs y ys z zs c i v f] Cons.prems(1) assms(2,3) by auto
  show ?case
    using Cons.IH[OF c1(2) n(2), of "acc @ [stored crc y]"] c1(1) n(1)
    by (simp add: add.assoc del: cursor_next.simps)
qed

text \<open>
  C28: a batch that runs into a damaged record is lost as a whole. When four consecutive data
  bytes of a stored record are corrupted, a batch that starts before it and is large
  enough to reach it returns an error instead of the intact records it has read; the
  cursor has moved past these, and every later batch of it fails in the same way.
\<close>

theorem damage_loses_batch:
  assumes "burst_checksum crc" and "cursor_between crc b xs (ys @ z # zs) c"
    and "i + 4 \<le> length (r_data z)" and "length v = 4" and "v \<noteq> subslice (r_data z) i 4"
    and "length ys < unat n" and "unat n * 48 < 2 ^ 63" and "0 < frames"
    and "0 < unat k" and "unat k * 48 < 2 ^ 63"
  shows "\<exists>c'. read_batch crc frames (damaged (log_len (xs @ ys)) i v b) n c = (Err InvalidRecord, c') \<and>
     pos_offset (cursor_position c') = word_of_nat (log_len (xs @ ys)) \<and>
     read_batch crc frames (damaged (log_len (xs @ ys)) i v b) k c' = (Err InvalidRecord, c')"
proof -
  obtain f where f: "frames = Suc f" using assms(8) by (cases frames) auto
  obtain c' where c': "read_batch crc frames (damaged (log_len (xs @ ys)) i v b) n c = (Err InvalidRecord, c')"
    "cursor_between crc b (xs @ ys) (z # zs) c'"
    using batch_at_damage[OF assms(1,3-5,2,6), of f "[]"] assms(7) f by (auto simp: read_batch_def)
  obtain j where "unat k = Suc j" using assms(9) by (cases "unat k") auto
  then have "read_batch crc frames (damaged (log_len (xs @ ys)) i v b) k c' = (Err InvalidRecord, c')"
    using next_at_damage[OF assms(1) c'(2) assms(3-5), of f] assms(10) f
    by (simp add: read_batch_def del: cursor_next.simps)
  then show ?thesis using c' by (auto simp: cursor_position_def cursor_between_def)
qed

theorem damage_loses_batch_witness:
  "fst (read_batch crc32_ieee 1 (damaged 29 1 [2, 3, 4, 6] demo_filled) 5 (Cursor_new demo_filled None))
     = Err InvalidRecord"
proof -
  have "cursor_between crc32_ieee demo_filled [] ([demo_record] @ demo_record # []) (Cursor_new demo_filled None)"
    using Cursor_new_between[of crc32_ieee demo_filled "[]"] demo_filled_ok demo_record_ok demo_filled_counts
    by (simp add: holds_log_def)
  from damage_loses_batch[OF ieee.burst_checksum_axioms this, of 1 "[2, 3, 4, 6]" 5 1 1]
  show ?thesis using demo_record_ok by (auto simp: subslice_def)
qed

end
