(* ===== verification/Clients_Properties.thy ===== *)
theory Clients_Properties
  imports Clients Bindings_Properties Cursor_Interference
begin

text \<open>
  The properties of the generated client interfaces: their loops end and return the whole
  unread log, and what they leave behind for the next reader.
\<close>

section \<open>Kotlin\<close>

lemma kotlin_read_loop_between:
  assumes "Suc j < 2 ^ 64" and "0 < frames" and "\<forall>i k. jni_ok i k"
  shows "j < length (jni_cursors s) \<Longrightarrow> jni_cursors s ! j = Some (c, p) \<Longrightarrow>
    cursor_between crc (disk_at p (jni_lib s)) xs ys c \<Longrightarrow>
    \<exists>s' c'. kotlin_read_loop crc frames jni_ok i (handle_of j) acc s
        = Some (Ok (acc @ map (to_java \<circ> stored crc) ys), s') \<and>
      jni_lib s' = jni_lib s \<and> jni_cursors s' = (jni_cursors s)[j := Some (c', p)]"
proof (induction "length ys" arbitrary: ys xs c s i acc rule: less_induct)
  case less
  have u: "unat (100 :: jint) = 100" by simp
  obtain s1 c1 where s1: "Java_readBatch crc frames (jni_ok i) (handle_of j) 100 s
      = (Ok (Some (map (to_java \<circ> stored crc) (take 100 ys))), s1)"
    "jni_lib s1 = jni_lib s" "jni_cursors s1 = (jni_cursors s)[j := Some (c1, p)]"
    "cursor_between crc (disk_at p (jni_lib s)) (xs @ take 100 ys) (drop 100 ys) c1"
    using Java_readBatch_between[OF assms(1) less.prems assms(2), of 100 "jni_ok i"] assms(3) u by auto
  show ?case
  proof (cases "ys = []")
    case True
    then show ?thesis using s1 by (subst kotlin_read_loop.simps) auto
  next
    case False
    then have "length (drop 100 ys) < length ys" by simp
    from less.hyps[OF this, of s1 c1 "xs @ take 100 ys" "Suc i" "acc @ map (to_java \<circ> stored crc) (take 100 ys)"]
    obtain s2 c2 where s2: "kotlin_read_loop crc frames jni_ok (Suc i) (handle_of j)
        (acc @ map (to_java \<circ> stored crc) (take 100 ys)) s1
      = Some (Ok (acc @ map (to_java \<circ> stored crc) (take 100 ys) @ map (to_java \<circ> stored crc) (drop 100 ys)), s2)"
      "jni_lib s2 = jni_lib s" "jni_cursors s2 = (jni_cursors s)[j := Some (c2, p)]"
      using s1 less.prems(1) by auto
    have "map (to_java \<circ> stored crc) (take 100 ys) @ map (to_java \<circ> stored crc) (drop 100 ys)
        = map (to_java \<circ> stored crc) ys" by (metis append_take_drop_id map_append)
    then show ?thesis using s1(1) s2 False by (subst kotlin_read_loop.simps) auto
  qed
qed

lemma Java_closeCursor_live:
  assumes "Suc j < 2 ^ 64" and "j < length (jni_cursors s)" and "jni_cursors s ! j = Some cp"
  shows "\<exists>s'. Java_closeCursor (handle_of j) s = (Ok (), s') \<and> jni_lib s' = jni_lib s \<and>
     jni_cursors s' = (jni_cursors s)[j := None]"
  using live_cursor_simps(1)[OF assms(1,2)] assms(3) unat_handle[OF assms(1)]
  by (simp add: Java_closeCursor_def set_cursor_def)

text \<open>
  The block of \<open>withCursor\<close> may return or throw: if its cursor is still open then, it is
  closed, and the result of the block is passed on.
\<close>

theorem withCursor_closes:
  assumes "Java_createCursor crc pad env temp s = (Ok (handle_of j), s1)"
    and "block (handle_of j) s1 = Some (res, s2)" and "(\<exists>x. res = Ok x) \<or> (\<exists>e. res = Err e)"
    and "Suc j < 2 ^ 64" and "j < length (jni_cursors s2)" and "jni_cursors s2 ! j = Some cp"
  shows "\<exists>s'. kotlin_withCursor crc pad env temp block s = Some (res, s') \<and>
     jni_lib s' = jni_lib s2 \<and> jni_cursors s' = (jni_cursors s2)[j := None]"
  using assms(1-3) Java_closeCursor_live[OF assms(4-6)] by (auto simp: kotlin_withCursor_def)

text \<open>
  C10: reading all logs from Kotlin. The loop ends, returns all unread records in order,
  whatever their number, and closes its cursor. The library is left as it was, so the read
  position does not move and every later call returns the same records again.
\<close>

theorem kotlin_reads_whole_log:
  assumes "lib_persistent (jni_lib s) = Some p" and "holds_log crc (disk_at p (jni_lib s)) (xs @ ys)"
    and "unat (cb_read_pos (buf_control (disk_at p (jni_lib s)))) = log_len xs"
    and "\<forall>r\<in>set ys. u32_ok r" and "Suc (length (jni_cursors s)) < 2 ^ 64"
    and "0 < frames" and "\<forall>i k. jni_ok i k"
  shows "\<exists>s'. kotlin_readAllLogs crc pad env temp frames jni_ok s
       = Some (Ok (map (to_java \<circ> stored crc) ys), s') \<and>
     jni_lib s' = jni_lib s \<and> jni_cursors s' = jni_cursors s @ [None]"
proof -
  let ?b = "disk_at p (jni_lib s)" and ?j = "length (jni_cursors s)"
  let ?s1 = "s\<lparr>jni_cursors := jni_cursors s @ [Some (Cursor_new ?b None, p)]\<rparr>"
  have create: "Java_createCursor crc pad env temp s = (Ok (handle_of ?j), ?s1)"
    using assms(1) by (simp add: Java_createCursor_def on_lib_def get_persistent_buffer_def)
  have "cursor_between crc ?b xs ys (Cursor_new ?b None)" by (rule Cursor_new_between[OF assms(2,4,3)])
  then obtain s2 c2 where s2: "kotlin_read_loop crc frames jni_ok 0 (handle_of ?j) [] ?s1
      = Some (Ok (map (to_java \<circ> stored crc) ys), s2)" "jni_lib s2 = jni_lib s"
    "jni_cursors s2 = jni_cursors s @ [Some (c2, p)]"
    using kotlin_read_loop_between[OF assms(5-7), of ?s1 "Cursor_new ?b None" p crc xs ys 0 "[]"] by auto
  obtain s3 where "Java_closeCursor (handle_of ?j) s2 = (Ok (), s3)" "jni_lib s3 = jni_lib s2"
    "jni_cursors s3 = jni_cursors s @ [None]"
    using Java_closeCursor_live[OF assms(5), of s2 "(c2, p)"] s2(3) by auto
  then show ?thesis
    using create s2(1,2) by (auto simp: kotlin_readAllLogs_def kotlin_withCursor_def)
qed

theorem kotlin_reads_whole_log_witness:
  "\<exists>s'. kotlin_readAllLogs crc32_ieee 0 open_ok [] 1 (\<lambda>_ _. True)
      \<lparr>jni_lib = filled_lib, jni_cursors = [], jni_daemon_handle = None\<rparr>
    = Some (Ok [to_java demo_record, to_java demo_record], s')"
  using kotlin_reads_whole_log[of "\<lparr>jni_lib = filled_lib, jni_cursors = [], jni_daemon_handle = None\<rparr>" 0
      crc32_ieee "[]" "[demo_record, demo_record]" 1 "\<lambda>_ _. True" 0 open_ok "[]"]
    filled_lib_ok demo_filled_counts demo_record_ok
  by auto

section \<open>Swift\<close>

text \<open>
  The buffer behind a library: it is the global one and holds the log \<open>rs\<close>, and nothing of
  it is unread.
\<close>

definition serves :: "hasher \<Rightarrow> addr \<Rightarrow> ios_state \<Rightarrow> log_record list \<Rightarrow> bool" where
  "serves crc p s rs \<longleftrightarrow> lib_persistent (ios_lib s) = Some p \<and> p < length (lib_disks (ios_lib s)) \<and>
     holds_log crc (disk_at p (ios_lib s)) rs"

definition all_read :: "addr \<Rightarrow> ios_state \<Rightarrow> bool" where
  "all_read p s \<longleftrightarrow> cb_read_pos (buf_control (disk_at p (ios_lib s)))
     = cb_write_pos (buf_control (disk_at p (ios_lib s)))"

lemma swift_commit_between:
  assumes "serves crc p s (xs @ ys)" and "cursor_between crc (disk_at p (ios_lib s)) xs ys c"
    and "unat (cb_read_pos (buf_control (disk_at p (ios_lib s)))) \<le> log_len xs"
    and "unat (cb_read_pos (buf_control (disk_at p (ios_lib s)))) = log_len xs \<longrightarrow> ys = []"
  shows "\<exists>ok s'. swift_commit_cursor crc pad flush (c, p) s = (Ok ok, s') \<and>
     serves crc p s' (xs @ ys) \<and> all_read p s'"
proof -
  let ?b = "disk_at p (ios_lib s)"
  have w: "unat (cb_write_pos (buf_control ?b)) = log_len (xs @ ys)"
    using assms(1) by (simp add: serves_def holds_log_def represents_def)
  obtain res b' where b': "cursor_commit crc pad flush c ?b = (res, b')" "\<not> panics res"
    "holds_log crc b' (xs @ ys)" "unat (cb_read_pos (buf_control ?b)) < log_len xs \<Longrightarrow>
      cb_read_pos (buf_control b') = cb_write_pos (buf_control b')"
    "unat (cb_read_pos (buf_control ?b)) = log_len xs \<Longrightarrow> b' = ?b"
    using commit_between[OF assms(2,3), of pad flush] by auto
  have "cb_read_pos (buf_control b') = cb_write_pos (buf_control b')"
    using b'(4,5) assms(3,4) w by (cases "unat (cb_read_pos (buf_control ?b)) = log_len xs")
      (auto simp: word_unat_eq_iff)
  then show ?thesis
    using assms(1) b'(1-3) by (cases res)
      (auto simp: swift_commit_cursor_def serves_def all_read_def Let_def, simp_all add: set_disk_def)
qed

lemma swift_read_loop_between:
  "cursor_between crc (disk_at p (ios_lib s)) xs ys c \<Longrightarrow>
   \<exists>c'. swift_read_loop crc (Suc f) (c, p) acc s
       = Some (Ok (acc @ map (to_swift \<circ> stored crc) ys, (c', p)), s) \<and>
     cursor_between crc (disk_at p (ios_lib s)) (xs @ ys) [] c'"
proof (induction ys arbitrary: xs c acc)
  case Nil
  then show ?case
    using swift_read_next_end[of crc p s xs c f] by (subst swift_read_loop.simps) auto
next
  case (Cons y ys)
  then obtain c1 where c1: "swift_read_next crc (Suc f) (c, p) s = (Ok (Some (to_swift (stored crc y))), (c1, p))"
    "cursor_between crc (disk_at p (ios_lib s)) (xs @ [y]) ys c1"
    using swift_read_next_between[of crc p s xs y ys c f] by auto
  show ?case
    using Cons.IH[OF c1(2), of "acc @ [to_swift (stored crc y)]"] c1(1)
    by (subst swift_read_loop.simps) (simp add: comp_def)
qed

lemma swift_create_between:
  assumes "serves crc p s (xs @ ys)" and "\<forall>r\<in>set ys. u32_ok r"
    and "unat (cb_read_pos (buf_control (disk_at p (ios_lib s)))) = log_len xs"
  shows "swift_create_cursor crc' pad env temp s = (Ok (Cursor_new (disk_at p (ios_lib s)) None, p), s)"
    and "cursor_between crc (disk_at p (ios_lib s)) xs ys (Cursor_new (disk_at p (ios_lib s)) None)"
  using assms Cursor_new_between[of crc "disk_at p (ios_lib s)" xs ys]
  by (simp_all add: serves_def swift_create_cursor_def ios_on_lib_def get_persistent_buffer_def)

lemma swift_readAllLogs_log:
  assumes "serves crc p s (xs @ ys)" and "\<forall>r\<in>set ys. u32_ok r"
    and "unat (cb_read_pos (buf_control (disk_at p (ios_lib s)))) = log_len xs"
  shows "\<exists>s'. swift_readAllLogs crc pad env temp (Suc f) flush s
       = Some (Ok (map (to_swift \<circ> stored crc) ys), s') \<and> serves crc p s' (xs @ ys) \<and> all_read p s'"
proof -
  note created = swift_create_between[OF assms]
  obtain c' where c': "swift_read_loop crc (Suc f) (Cursor_new (disk_at p (ios_lib s)) None, p) [] s
      = Some (Ok (map (to_swift \<circ> stored crc) ys, (c', p)), s)"
    "cursor_between crc (disk_at p (ios_lib s)) (xs @ ys) [] c'"
    using swift_read_loop_between[OF created(2), of f "[]"] by auto
  obtain ok s' where "swift_commit_cursor crc pad flush (c', p) s = (Ok ok, s')"
    "serves crc p s' (xs @ ys)" "all_read p s'"
    using swift_commit_between[of crc p s "xs @ ys" "[]" c' pad flush] assms(1,3) c'(2) by auto
  then show ?thesis using created(1) c'(1) by (simp add: swift_readAllLogs_def)
qed

text \<open>When everything is read, a reader finds nothing, whatever the bytes of the log are.\<close>

lemma swift_readAllLogs_drained:
  assumes "lib_persistent (ios_lib s) = Some p" and "all_read p s"
  shows "\<exists>s'. swift_readAllLogs crc pad env temp (Suc f) flush s = Some (Ok [], s')"
proof -
  let ?b = "disk_at p (ios_lib s)"
  let ?c = "Cursor_new ?b None"
  have c: "cur_at_end ?c" "pos_offset (cur_position ?c) = cb_read_pos (buf_control ?b)"
    using assms(2) by (simp_all add: all_read_def Cursor_new_def get_control_block_def Position_new_def Let_def)
  have "swift_read_loop crc (Suc f) (?c, p) [] s = Some (Ok ([], (?c, p)), s)"
    using c(1) by (subst swift_read_loop.simps) (simp add: swift_read_next_def)
  moreover have "cursor_commit crc pad flush ?c ?b = (Ok (), ?b)"
    using c(2) by (simp add: cursor_commit_def get_control_block_def)
  ultimately show ?thesis
    using assms(1) by (simp add: swift_readAllLogs_def swift_create_cursor_def ios_on_lib_def
        get_persistent_buffer_def swift_commit_cursor_def)
qed

text \<open>
  C11: reading all logs from Swift. The loop ends and returns all unread records in order;
  the commit at its end marks them as read, whether or not syncing the mapping succeeds, so
  that the next call returns nothing; the stored records themselves stay as they were.
\<close>

theorem swift_reads_whole_log:
  assumes "lib_persistent (ios_lib s) = Some p" and "p < length (lib_disks (ios_lib s))"
    and "holds_log crc (disk_at p (ios_lib s)) (xs @ ys)"
    and "unat (cb_read_pos (buf_control (disk_at p (ios_lib s)))) = log_len xs" and "\<forall>r\<in>set ys. u32_ok r"
  shows "\<exists>s1 s2. swift_readAllLogs crc pad env temp (Suc f) flush s
       = Some (Ok (map (to_swift \<circ> stored crc) ys), s1) \<and>
     holds_log crc (disk_at p (ios_lib s1)) (xs @ ys) \<and>
     swift_readAllLogs crc pad env temp (Suc f) flush s1 = Some (Ok [], s2)"
proof -
  have "serves crc p s (xs @ ys)" using assms(1-3) by (simp add: serves_def)
  from swift_readAllLogs_log[OF this assms(5,4), of pad env temp f flush] obtain s1 where
    s1: "swift_readAllLogs crc pad env temp (Suc f) flush s = Some (Ok (map (to_swift \<circ> stored crc) ys), s1)"
    "serves crc p s1 (xs @ ys)" "all_read p s1" by blast
  show ?thesis
    using s1 swift_readAllLogs_drained[of s1 p crc pad env temp f flush] by (auto simp: serves_def)
qed

theorem swift_reads_whole_log_witness:
  "\<exists>s1 s2. swift_readAllLogs crc32_ieee 0 open_ok [] (Suc 0) None
       \<lparr>ios_lib = filled_lib, ios_daemon_handle = None\<rparr>
     = Some (Ok [to_swift demo_record, to_swift demo_record], s1) \<and>
     swift_readAllLogs crc32_ieee 0 open_ok [] (Suc 0) None s1 = Some (Ok [], s2)"
  using swift_reads_whole_log[of "\<lparr>ios_lib = filled_lib, ios_daemon_handle = None\<rparr>" 0 crc32_ieee "[]"
      "[demo_record, demo_record]" 0 open_ok "[]" 0 None] filled_lib_ok demo_filled_counts demo_record_ok
  by (auto simp: filled_lib_def)

text \<open>
  A Swift block that reads only part of the log loses the rest. When the block given to
  \<open>withCursor\<close> reads one batch of at least one record, it receives the first unread
  records; the commit at the release of the cursor then skips all others, and a later
  reading of all logs returns nothing.
\<close>

theorem swift_cursor_skips_unread:
  assumes "lib_persistent (ios_lib s) = Some p" and "p < length (lib_disks (ios_lib s))"
    and "holds_log crc (disk_at p (ios_lib s)) (xs @ ys)"
    and "unat (cb_read_pos (buf_control (disk_at p (ios_lib s)))) = log_len xs" and "\<forall>r\<in>set ys. u32_ok r"
    and "0 < unat k"
  shows "\<exists>s1 s2. swift_withCursor crc pad env temp flush (LogCursor_readBatch crc (Suc f) k) s
       = (Ok (map (to_swift \<circ> stored crc) (take (unat k) ys)), s1) \<and>
     swift_readAllLogs crc pad env temp (Suc f) flush s1 = Some (Ok [], s2)"
proof -
  let ?b = "disk_at p (ios_lib s)" and ?n = "unat k"
  have sv: "serves crc p s (xs @ ys)" using assms(1-3) by (simp add: serves_def)
  note created = swift_create_between[OF sv assms(5,4)]
  have u: "unat (ucast k :: usize) = ?n" by (rule unat_u32_to_usize)
  obtain c' where c': "read_batch crc (Suc f) ?b (ucast k) (Cursor_new ?b None)
      = (Ok (map (stored crc) (take ?n ys)), c')" "cursor_between crc ?b (xs @ take ?n ys) (drop ?n ys) c'"
    using read_batch_between[OF created(2), of "Suc f" "ucast k"] unat_u32_lt[of k] u by auto
  have "log_len (take ?n ys) = 0 \<longrightarrow> length ys \<le> ?n"
    using assms(6) rec_len_ge[of "hd ys"] by (cases ys; cases ?n) simp_all
  then obtain ok s1 where s1: "swift_commit_cursor crc pad flush (c', p) s = (Ok ok, s1)"
    "serves crc p s1 (xs @ ys)" "all_read p s1"
    using swift_commit_between[of crc p s "xs @ take ?n ys" "drop ?n ys" c' pad flush] sv assms(4) c'(2) by auto
  have "swift_withCursor crc pad env temp flush (LogCursor_readBatch crc (Suc f) k) s
      = (Ok (map (to_swift \<circ> stored crc) (take ?n ys)), s1)"
    using created(1)[of crc] c'(1) s1(1)
    by (simp add: swift_withCursor_def LogCursor_readBatch_def swift_read_batch_def)
  then show ?thesis
    using swift_readAllLogs_drained[of s1 p crc pad env temp f flush] s1(2,3) by (auto simp: serves_def)
qed

theorem swift_cursor_skips_unread_witness:
  "\<exists>s1 s2. swift_withCursor crc32_ieee 0 open_ok [] None (LogCursor_readBatch crc32_ieee (Suc 0) 1)
       \<lparr>ios_lib = filled_lib, ios_daemon_handle = None\<rparr> = (Ok [to_swift demo_record], s1) \<and>
     swift_readAllLogs crc32_ieee 0 open_ok [] (Suc 0) None s1 = Some (Ok [], s2)"
  using swift_cursor_skips_unread[of "\<lparr>ios_lib = filled_lib, ios_daemon_handle = None\<rparr>" 0 crc32_ieee "[]"
      "[demo_record, demo_record]" 1 0 open_ok "[]" None 0] filled_lib_ok demo_filled_counts demo_record_ok
  by (auto simp: filled_lib_def)

section \<open>Damage and the Swift reader\<close>

lemma swift_read_loop_damage:
  assumes "burst_checksum crc" and "i + 4 \<le> length (r_data z)" and "length v = 4"
    and "v \<noteq> subslice (r_data z) i 4"
  shows "disk_at p (ios_lib s) = damaged (log_len (xs @ ys)) i v b \<Longrightarrow>
   cursor_between crc b xs (ys @ z # zs) c \<Longrightarrow>
   \<exists>c'. swift_read_loop crc (Suc f) (c, p) acc s
       = Some (Ok (acc @ map (to_swift \<circ> stored crc) ys, (c', p)), s) \<and>
     cursor_between crc b (xs @ ys) (z # zs) c'"
proof (induction ys arbitrary: xs c acc)
  case Nil
  then have "cursor_next crc (Suc f) (disk_at p (ios_lib s)) c = (Err InvalidRecord, c)"
    using next_at_damage[OF assms(1) _ assms(2-4), of b xs zs c f] by simp
  then show ?case
    using Nil by (subst swift_read_loop.simps) (simp add: swift_read_next_def del: cursor_next.simps)
next
  case (Cons y ys)
  then obtain c1 where c1: "cursor_next crc (Suc f) (disk_at p (ios_lib s)) c = (Ok (Some (stored crc y)), c1)"
    "cursor_between crc b (xs @ [y]) (ys @ z # zs) c1"
    using next_before_damage[of crc b xs y ys z zs c i v f] assms(2,3) by auto
  then show ?case
    using Cons.IH[OF _ c1(2), of "acc @ [to_swift (stored crc y)]"] Cons.prems(1)
    by (subst swift_read_loop.simps) (simp add: swift_read_next_def comp_def add.assoc del: cursor_next.simps)
qed

text \<open>
  C29: reading all logs from Swift past a damaged record. When four consecutive data bytes of
  an unread record are corrupted and an intact one precedes it, the call returns the
  records before the damaged one as if the log ended there, and its commit marks the rest
  as read too: the read position is moved to the write position, which stays behind the last
  record. So the next call returns nothing, although the damaged record and those behind it
  were never returned.
\<close>

theorem swift_loses_records_behind_damage:
  assumes "burst_checksum crc" and "lib_persistent (ios_lib s) = Some p"
    and "p < length (lib_disks (ios_lib s))"
    and "disk_at p (ios_lib s) = damaged (log_len (xs @ ys)) i v b"
    and "holds_log crc b (xs @ ys @ z # zs)" and "unat (cb_read_pos (buf_control b)) = log_len xs"
    and "\<forall>r\<in>set (ys @ z # zs). u32_ok r" and "ys \<noteq> []"
    and "i + 4 \<le> length (r_data z)" and "length v = 4" and "v \<noteq> subslice (r_data z) i 4"
  shows "\<exists>s1 s2. swift_readAllLogs crc pad env temp (Suc f) flush s
       = Some (Ok (map (to_swift \<circ> stored crc) ys), s1) \<and>
     unat (cb_write_pos (buf_control (disk_at p (ios_lib s1)))) = log_len (xs @ ys @ z # zs) \<and>
     cb_read_pos (buf_control (disk_at p (ios_lib s1))) = cb_write_pos (buf_control (disk_at p (ios_lib s1))) \<and>
     swift_readAllLogs crc pad env temp (Suc f) flush s1 = Some (Ok [], s2)"
proof -
  let ?b = "disk_at p (ios_lib s)"
  have same: "buf_control ?b = buf_control b" "buf_size ?b = buf_size b"
    using assms(4) by (simp_all add: damaged_def)
  have inv: "prb_inv ?b"
    using damaged_inv(1)[of crc b "xs @ ys" z zs i v] assms(4,5,9,10) by simp
  have "cursor_between crc b xs (ys @ z # zs) (Cursor_new b None)"
    by (rule Cursor_new_between[OF assms(5,7,6)])
  then have "cursor_between crc b xs (ys @ z # zs) (Cursor_new ?b None)"
    using same by (simp add: Cursor_new_def get_control_block_def)
  from swift_read_loop_damage[OF assms(1,9-11,4) this, of f "[]"] obtain c' where
    c': "swift_read_loop crc (Suc f) (Cursor_new ?b None, p) [] s = Some (Ok (map (to_swift \<circ> stored crc) ys, (c', p)), s)"
    "cursor_between crc b (xs @ ys) (z # zs) c'" by auto
  have w: "unat (cb_write_pos (buf_control b)) = log_len (xs @ ys @ z # zs)"
    using assms(5) by (simp add: holds_log_def represents_def)
  then have "log_len (xs @ ys) < 2 ^ 64" using unat_usize_lt[of "cb_write_pos (buf_control b)"] by simp
  then have pos: "unat (pos_offset (cur_position c')) = log_len (xs @ ys)"
    "pos_wrap_count (cur_position c') = cb_wrap_count (buf_control b)"
    using c'(2) by (simp_all add: cursor_between_def unat_of_nat_usize del: of_nat_add)
  have "0 < log_len ys" using assms(8) rec_len_ge[of "hd ys"] by (cases ys) simp_all
  then have commit: "cursor_commit crc pad flush c' ?b = (case flush of None \<Rightarrow> Ok () | Some e \<Rightarrow> Err (Io e),
      synced crc pad ((buf_control b)\<lparr>cb_read_pos := cb_write_pos (buf_control b)\<rparr>) ?b)"
    using commit_advanced[OF inv, of c' crc pad flush] pos w assms(6) same(1)
    by (simp add: word_less_nat_alt word_le_nat_alt)
  define s1 where "s1 = s\<lparr>ios_lib := set_disk p
    (synced crc pad ((buf_control b)\<lparr>cb_read_pos := cb_write_pos (buf_control b)\<rparr>) ?b) (ios_lib s)\<rparr>"
  have "swift_readAllLogs crc pad env temp (Suc f) flush s = Some (Ok (map (to_swift \<circ> stored crc) ys), s1)"
    using assms(2) c'(1) commit by (cases flush) (simp_all add: swift_readAllLogs_def swift_create_cursor_def
        ios_on_lib_def get_persistent_buffer_def swift_commit_cursor_def s1_def)
  moreover have "all_read p s1" "lib_persistent (ios_lib s1) = Some p"
    using assms(2,3) by (simp_all add: s1_def all_read_def) (simp add: set_disk_def)
  moreover have "unat (cb_write_pos (buf_control (disk_at p (ios_lib s1)))) = log_len (xs @ ys @ z # zs)"
    using assms(3) w by (simp add: s1_def)
  ultimately show ?thesis
    using swift_readAllLogs_drained[of s1 p crc pad env temp f flush] unfolding all_read_def by blast
qed

text \<open>A library whose second record is damaged.\<close>

definition damaged_lib :: lib where
  "damaged_lib = demo_lib\<lparr>lib_disks := [damaged 29 1 [2, 3, 4, 6] demo_filled],
     lib_files := (\<lambda>_. buf_mmap (damaged 29 1 [2, 3, 4, 6] demo_filled))\<rparr>"

theorem swift_loses_records_behind_damage_witness:
  "\<exists>s1 s2. swift_readAllLogs crc32_ieee 0 open_ok [] (Suc 0) None
       \<lparr>ios_lib = damaged_lib, ios_daemon_handle = None\<rparr> = Some (Ok [to_swift demo_record], s1) \<and>
     unat (cb_read_pos (buf_control (disk_at 0 (ios_lib s1)))) = 58 \<and>
     swift_readAllLogs crc32_ieee 0 open_ok [] (Suc 0) None s1 = Some (Ok [], s2)"
  using swift_loses_records_behind_damage[OF ieee.burst_checksum_axioms,
      of "\<lparr>ios_lib = damaged_lib, ios_daemon_handle = None\<rparr>" 0 "[]" "[demo_record]" 1 "[2, 3, 4, 6]" demo_filled
        demo_record "[]" 0 open_ok "[]" 0 None] filled_lib_ok demo_filled_counts demo_record_ok
  by (fastforce simp: damaged_lib_def demo_lib_def disk_at_def damaged_def subslice_def)


section \<open>Default initialisation from Swift\<close>

lemma next_power_of_two_id:
  assumes "is_power_of_two n" and "unat n \<le> 2 ^ 54"
  shows "next_power_of_two n = n"
proof (rule antisym)
  show "next_power_of_two n \<le> n"
    using assms by (intro next_power_of_two_least) (simp_all add: word_le_nat_alt)
  show "n \<le> next_power_of_two n" by (rule next_power_of_two_small(3)[OF assms(2)])
qed

text \<open>
  Initialising the logger from Swift with its default arguments, on a path without a
  file, succeeds and starts the daemon; the buffer in memory has a million slots and takes
  256 times the megabyte that the default is documented to mean, the buffer on disk has
  the ten megabytes asked for.
\<close>

theorem swift_default_buffers:
  assumes "files path = []"
  shows "\<exists>s' a p. SherlongLogger_initialize crc pad open_ok temp True path None None None None
       \<lparr>ios_lib = lib_start files, ios_daemon_handle = None\<rparr> = (Ok True, s') \<and>
     lib_daemon_running (ios_lib s') \<and> lib_volatile (ios_lib s') = Some a \<and>
     lib_persistent (ios_lib s') = Some p \<and>
     capacity (buf_at a (lib_mem (ios_lib s'))) = 2 ^ 20 \<and>
     length (vb_data (buf_at a (lib_mem (ios_lib s')))) = 256 * 2 ^ 20 \<and>
     prb_size (disk_at p (ios_lib s')) = 10 * 2 ^ 20 \<and> holds_log crc (disk_at p (ios_lib s')) []"
proof -
  have size: "ucast (1048576 :: u32) = (2 ^ 20 :: usize)" "ucast (10485760 :: u32) = (10 * 2 ^ 20 :: usize)"
    by simp_all
  have pow: "is_power_of_two (2 ^ 20)" "unat (2 ^ 20 :: usize) = 2 ^ 20"
    by (auto simp: is_power_of_two_iff intro!: exI[of _ 20])
  obtain L1 b where i: "init_memory_buffer (2 ^ 20) (lib_start files) = (Ok 0, L1)"
    "init_persistent_buffer crc pad open_ok path (10 * 2 ^ 20) L1 = (Ok 0, fresh_lib (2 ^ 20) files b)"
    "holds_log crc b []" "buf_size b = 10 * 2 ^ 20"
    using fresh_initialisation[of "2 ^ 20" files path "10 * 2 ^ 20" crc pad] assms pow(2) by auto
  let ?s = "\<lparr>ios_lib = (fresh_lib (2 ^ 20) files b)\<lparr>lib_daemon_running := True\<rparr>,
    ios_daemon_handle = Some (\<lparr>interval_ms = ucast default_flushIntervalMs,
      high_watermark_percent = default_highWatermarkPercent, max_records_per_flush = 100\<rparr>, 0, 0)\<rparr>"
  have "SherlongLogger_initialize crc pad open_ok temp True path None None None None
       \<lparr>ios_lib = lib_start files, ios_daemon_handle = None\<rparr> = (Ok True, ?s)"
    using i(1,2) unfolding SherlongLogger_initialize_def swift_initialize_def
    by (simp add: default_volatileBufferSize_def default_persistentBufferSize_def size ios_on_lib_def
        start_flush_daemon_fresh)
  moreover have "capacity (new_vrb (next_power_of_two (2 ^ 20)) 0) = 2 ^ 20"
    "length (vb_data (new_vrb (next_power_of_two (2 ^ 20)) 0)) = 256 * 2 ^ 20"
    using pow next_power_of_two_id[OF pow(1)] by (simp_all add: capacity_def new_vrb_def)
  ultimately show ?thesis
    using i(3,4) by (intro exI[of _ ?s] exI[of _ 0]) (simp add: prb_size_def)
qed

theorem swift_default_buffers_witness:
  "\<exists>s' a. SherlongLogger_initialize crc32_ieee 0 open_ok ''tmp'' True ''log'' None None None None
       \<lparr>ios_lib = lib_start (\<lambda>_. []), ios_daemon_handle = None\<rparr> = (Ok True, s') \<and>
     length (vb_data (buf_at a (lib_mem (ios_lib s')))) = 268435456"
  using swift_default_buffers[of "\<lambda>_. []" "''log''" crc32_ieee 0 "''tmp''"] by auto

end
