(* ===== verification/Kotlin_Record.thy ===== *)
theory Kotlin_Record
  imports Jni
begin

unbundle bit_operations_syntax

text \<open>
  The data class \<open>LogRecord\<close> of the Kotlin interface that \<open>generate_kotlin_interface\<close> returns
  (\<open>src/jni/mod.rs\<close>), whose objects \<open>readBatch\<close> constructs: its equality and its hash code.
  The fields of an object never change, so \<open>obj\<close> gives them for each object by address; a
  value of type \<open>Any?\<close> is null, an object of this class, or an object of another class (the
  class is final). \<open>Int\<close> and \<open>Long\<close> arithmetic wraps.
\<close>

datatype kotlin_any = KNull | KLogRecord addr | KOther addr

definition LogRecord_equals :: "(addr \<Rightarrow> java_record) \<Rightarrow> addr \<Rightarrow> kotlin_any \<Rightarrow> bool" where
  "LogRecord_equals obj this oth =
     (if oth = KLogRecord this then True
      else
     (case oth of
        KLogRecord o' \<Rightarrow>
          (if jr_data (obj this) \<noteq> jr_data (obj o') then False
           else if jr_crc32 (obj this) \<noteq> jr_crc32 (obj o') then False
           else if jr_tag (obj this) \<noteq> jr_tag (obj o') then False
           else if jr_timestamp_us (obj this) \<noteq> jr_timestamp_us (obj o') then False
           else True)
      | _ \<Rightarrow> False))"

text \<open>\<open>contentHashCode\<close> of a byte array and \<open>hashCode\<close> of a \<open>Long\<close>, as the Java library defines them.\<close>

definition contentHashCode :: "bytes \<Rightarrow> jint" where
  "contentHashCode d = foldl (\<lambda>h b. 31 * h + scast b) 1 d"

definition Long_hashCode :: "jlong \<Rightarrow> jint" where
  "Long_hashCode v = ucast (v XOR drop_bit 32 v)"

definition LogRecord_hashCode :: "java_record \<Rightarrow> jint" where
  "LogRecord_hashCode j =
     (let result = contentHashCode (jr_data j);
          result = 31 * result + Long_hashCode (jr_crc32 j);
          result = 31 * result + jr_tag j;
          result = 31 * result + Long_hashCode (jr_timestamp_us j)
      in result)"

section \<open>Equality and hash code\<close>

lemma LogRecord_equals_iff:
  "LogRecord_equals obj this oth \<longleftrightarrow> (\<exists>o'. oth = KLogRecord o' \<and> obj o' = obj this)"
  by (auto simp: LogRecord_equals_def split: kotlin_any.splits)

text \<open>Multiplying by 31 loses nothing: 31 has an inverse modulo \<open>2 ^ 32\<close>.\<close>

lemma times_31_inject: "31 * x = 31 * y \<longleftrightarrow> x = y" for x y :: jint
proof
  assume "31 * x = 31 * y"
  then have "3186588639 * (31 * x) = 3186588639 * (31 * y)" by simp
  moreover have "(3186588639 :: jint) * 31 = 1" by transfer (simp add: take_bit_eq_mod)
  then have "(3186588639 :: jint) * (31 * z) = z" for z
    by (simp only: mult.assoc[symmetric] mult_1)
  ultimately show "x = y" by metis
qed simp

lemma contentHashCode_snoc: "contentHashCode (d @ [b]) = 31 * contentHashCode d + scast b"
  by (simp add: contentHashCode_def)

lemma Long_hashCode_u32: "Long_hashCode (ucast c) = c" for c :: u32
  by (rule bit_word_eqI) (auto simp: Long_hashCode_def bit_simps dest: bit_imp_le_length)



text \<open>
  Two records that differ only in the last byte of their data, only in the checksum, or only
  in the tag have different hash codes.
\<close>

theorem hash_code_separates:
  fixes c c' :: u32
  assumes "jr_data j = d @ [x]" and "jr_crc32 j = ucast c"
    and "k = j\<lparr>jr_data := d @ [x']\<rparr> \<or> k = j\<lparr>jr_crc32 := ucast c'\<rparr> \<or> k = j\<lparr>jr_tag := t\<rparr>"
    and "j \<noteq> k"
  shows "LogRecord_hashCode j \<noteq> LogRecord_hashCode k"
proof -
  have "scast (scast b :: jint) = b" for b :: u8
    by (rule bit_word_eqI) (simp add: bit_simps)
  then have "scast x = (scast x' :: jint) \<longleftrightarrow> x = x'" by metis
  then show ?thesis
    using assms by (cases j) (auto simp: LogRecord_hashCode_def Let_def times_31_inject
        contentHashCode_snoc Long_hashCode_u32 simp del: distrib_left_numeral)
qed

end
