(* ===== verification/Persistent_Locks.thy ===== *)
theory Persistent_Locks
  imports Main
begin

text \<open>
  The locks of the persistent buffer (\<open>src/disk/persistent.rs\<close>): the mutex \<open>write_lock\<close>, the
  reader-writer lock around the control block and the one around the mapping. Every method is
  the sequence of its acquisitions and releases on each way it can return; a guard is released
  at the end of the call, in the reverse order of the acquisitions, also when the call
  panics. Any number of threads run any sequences of calls, and the steps interleave freely.
\<close>

section \<open>Locks and the calls that take them\<close>

datatype lock_name = WriteLock | ControlLock | MmapLock

datatype lock_mode = Shared | Exclusive

datatype lock_action = Acquire lock_name lock_mode | Release lock_name

text \<open>The order in which every method takes its locks.\<close>

fun rank :: "lock_name \<Rightarrow> nat" where
  "rank WriteLock = 0"
| "rank ControlLock = 1"
| "rank MmapLock = 2"

instantiation lock_name :: linorder
begin

definition less_eq_lock_name :: "lock_name \<Rightarrow> lock_name \<Rightarrow> bool" where
  "less_eq_lock_name k l \<longleftrightarrow> rank k \<le> rank l"

definition less_lock_name :: "lock_name \<Rightarrow> lock_name \<Rightarrow> bool" where
  "less_lock_name k l \<longleftrightarrow> rank k < rank l"

instance
proof
  fix k l :: lock_name
  show "k \<le> l \<Longrightarrow> l \<le> k \<Longrightarrow> k = l"
    by (cases k; cases l) (simp_all add: less_eq_lock_name_def)
qed (auto simp: less_eq_lock_name_def less_lock_name_def)

end

lemma lock_less_simps [simp]:
  "WriteLock < ControlLock" "WriteLock < MmapLock" "ControlLock < MmapLock" "\<not> l < WriteLock"
  "\<not> MmapLock < l"
  by (cases l; simp add: less_lock_name_def)+

definition control_block_locks :: "lock_action list" where
  "control_block_locks = [Acquire ControlLock Shared, Release ControlLock]"

text \<open>A record that is larger than the buffer is refused before the mapping is locked.\<close>

definition write_locks :: "bool \<Rightarrow> lock_action list" where
  "write_locks fits =
     [Acquire WriteLock Exclusive, Acquire ControlLock Exclusive] @
     (if fits then [Acquire MmapLock Exclusive, Release MmapLock] else []) @
     [Release ControlLock, Release WriteLock]"

definition read_at_locks :: "lock_action list" where
  "read_at_locks = [Acquire MmapLock Shared, Release MmapLock]"

text \<open>
  \<open>read_all\<close> returns at once when there is nothing to read; otherwise it reads \<open>n\<close> times and,
  unless the last read fails, stores the control block.
\<close>

definition read_all_locks :: "nat \<Rightarrow> bool \<Rightarrow> lock_action list" where
  "read_all_locks n stores =
     [Acquire ControlLock Exclusive] @ concat (replicate n read_at_locks) @
     (if stores then [Acquire MmapLock Exclusive, Release MmapLock] else []) @ [Release ControlLock]"

definition reset_locks :: "lock_action list" where
  "reset_locks =
     [Acquire ControlLock Exclusive, Acquire MmapLock Exclusive, Release MmapLock, Release ControlLock]"

definition flush_locks :: "lock_action list" where
  "flush_locks = [Acquire MmapLock Exclusive, Release MmapLock]"

text \<open>
  The methods of a cursor (\<open>src/disk/cursor.rs\<close>): \<open>next\<close> reads and then looks at the control
  block, once per level of its recursion, unless the last read fails; opening, seeking and
  \<open>seek_to_end\<close> look at the control block; \<open>commit\<close> looks at it and may reset.
\<close>

definition next_locks :: "nat \<Rightarrow> bool \<Rightarrow> lock_action list" where
  "next_locks levels fails =
     concat (replicate levels (read_at_locks @ control_block_locks)) @ (if fails then read_at_locks else [])"

definition commit_locks :: "bool \<Rightarrow> lock_action list" where
  "commit_locks moves = control_block_locks @ (if moves then reset_locks else [])"

datatype persistent_call =
    Call_control_block
  | Call_write bool
  | Call_read_at
  | Call_read_all nat bool
  | Call_reset
  | Call_flush
  | Call_next nat bool
  | Call_commit bool

fun call_locks :: "persistent_call \<Rightarrow> lock_action list" where
  "call_locks Call_control_block = control_block_locks"
| "call_locks (Call_write fits) = write_locks fits"
| "call_locks Call_read_at = read_at_locks"
| "call_locks (Call_read_all n stores) = read_all_locks n stores"
| "call_locks Call_reset = reset_locks"
| "call_locks Call_flush = flush_locks"
| "call_locks (Call_next levels fails) = next_locks levels fails"
| "call_locks (Call_commit moves) = commit_locks moves"

section \<open>Interleaving\<close>

text \<open>
  A thread is the locks it holds and the actions it has left. A lock is granted for
  exclusive use when nobody holds it, and for shared use when nobody holds it exclusively; with
  \<open>pref\<close>, a lock that prefers writers also lets readers wait while a writer is waiting.
\<close>

type_synonym holding = "lock_name \<rightharpoonup> lock_mode"
type_synonym lock_thread = "holding \<times> lock_action list"

definition writer_waits :: "lock_name \<Rightarrow> lock_thread list \<Rightarrow> bool" where
  "writer_waits l ts \<longleftrightarrow> (\<exists>t\<in>set ts. snd t \<noteq> [] \<and> hd (snd t) = Acquire l Exclusive)"

fun granted :: "bool \<Rightarrow> lock_name \<Rightarrow> lock_mode \<Rightarrow> lock_thread list \<Rightarrow> bool" where
  "granted pref l Exclusive ts = (\<forall>t\<in>set ts. fst t l = None)"
| "granted pref l Shared ts =
     ((\<forall>t\<in>set ts. fst t l \<noteq> Some Exclusive) \<and> \<not> (pref \<and> writer_waits l ts))"

inductive lock_step :: "bool \<Rightarrow> lock_thread list \<Rightarrow> lock_thread list \<Rightarrow> bool" for pref where
  acquire: "i < length ts \<Longrightarrow> ts ! i = (h, Acquire l md # as) \<Longrightarrow> granted pref l md ts \<Longrightarrow>
     lock_step pref ts (ts[i := (h(l \<mapsto> md), as)])"
| release: "i < length ts \<Longrightarrow> ts ! i = (h, Release l # as) \<Longrightarrow>
     lock_step pref ts (ts[i := (h(l := None), as)])"

inductive_cases lock_stepE: "lock_step pref ts us"

definition lock_start :: "persistent_call list list \<Rightarrow> lock_thread list" where
  "lock_start threads = map (\<lambda>calls. (Map.empty, concat (map call_locks calls))) threads"

definition all_returned :: "lock_thread list \<Rightarrow> bool" where
  "all_returned ts \<longleftrightarrow> (\<forall>t\<in>set ts. snd t = [])"

section \<open>The discipline\<close>

text \<open>
  Actions that keep the discipline from the locks held: a lock is only taken above all that
  are held, only what is held is released, and nothing is held in the end.
\<close>

fun ordered :: "holding \<Rightarrow> lock_action list \<Rightarrow> bool" where
  "ordered h [] = (h = Map.empty)"
| "ordered h (Acquire l md # as) = ((\<forall>k\<in>dom h. k < l) \<and> ordered (h(l \<mapsto> md)) as)"
| "ordered h (Release l # as) = (l \<in> dom h \<and> ordered (h(l := None)) as)"

text \<open>A piece of a call that leaves the held locks as it finds them.\<close>

definition balanced :: "holding \<Rightarrow> lock_action list \<Rightarrow> bool" where
  "balanced h as \<longleftrightarrow> (\<forall>bs. ordered h (as @ bs) \<longleftrightarrow> ordered h bs)"

lemma balanced_append: "balanced h as \<Longrightarrow> balanced h bs \<Longrightarrow> balanced h (as @ bs)"
  by (simp add: balanced_def)

lemma balanced_concat: "\<forall>as\<in>set ass. balanced h as \<Longrightarrow> balanced h (concat ass)"
proof (induction ass)
  case (Cons as ass)
  then show ?case using balanced_append[of h as "concat ass"] by simp
qed (simp add: balanced_def)

lemma balanced_replicate: "balanced h as \<Longrightarrow> balanced h (concat (replicate n as))"
  by (rule balanced_concat) simp

lemma balanced_locked:
  assumes "balanced (h(l \<mapsto> md)) as" and "\<forall>k\<in>dom h. k < l"
  shows "balanced h (Acquire l md # as @ [Release l])"
proof -
  have "h l = None" using assms(2) by (metis domI not_None_eq order_less_irrefl)
  then have "h(l := None) = h" by auto
  then show ?thesis using assms by (simp add: balanced_def)
qed

lemma balanced_Nil [simp]: "balanced h []"
  by (simp add: balanced_def)

lemma call_locks_balanced: "balanced Map.empty (call_locks c)"
proof -
  note locked = balanced_locked[of _ _ _ "[]", simplified]
  have mmap: "balanced [ControlLock \<mapsto> md] [Acquire MmapLock md', Release MmapLock]"
    "balanced [WriteLock \<mapsto> md, ControlLock \<mapsto> md'] [Acquire MmapLock md'', Release MmapLock]"
    "balanced Map.empty [Acquire l md, Release l]" for md md' md'' l
    by (rule locked, simp)+
  have inner: "balanced [ControlLock \<mapsto> Exclusive] (concat (replicate n read_at_locks) @
      (if b then [Acquire MmapLock Exclusive, Release MmapLock] else []))" for n b
    using mmap(1) by (auto simp: read_at_locks_def intro!: balanced_append balanced_replicate)
  have read_all: "balanced Map.empty (read_all_locks n b)" for n b
    using balanced_locked[OF inner[of n b]] by (simp add: read_all_locks_def)
  have reset: "balanced Map.empty reset_locks"
    using balanced_locked[OF mmap(1)[of Exclusive Exclusive]] by (simp add: reset_locks_def)
  have "balanced [WriteLock \<mapsto> Exclusive] ([Acquire ControlLock Exclusive] @
      (if b then [Acquire MmapLock Exclusive, Release MmapLock] else []) @ [Release ControlLock])" for b
    using balanced_locked[of "[WriteLock \<mapsto> Exclusive]" ControlLock Exclusive
        "if b then [Acquire MmapLock Exclusive, Release MmapLock] else []"] mmap(2) by simp
  from balanced_locked[OF this] have "balanced Map.empty (write_locks b)" for b
    by (simp add: write_locks_def)
  moreover have "balanced Map.empty control_block_locks" "balanced Map.empty read_at_locks" "balanced Map.empty flush_locks"
    using mmap(3) by (simp_all add: control_block_locks_def read_at_locks_def flush_locks_def)
  ultimately show ?thesis
    using read_all reset
    by (cases c) (auto simp: next_locks_def commit_locks_def intro!: balanced_append balanced_replicate)
qed

lemma calls_ordered: "ordered Map.empty (concat (map call_locks calls))"
  using balanced_concat[of "map call_locks calls" Map.empty] call_locks_balanced
  by (auto simp: balanced_def dest: spec[of _ "[]"])

section \<open>Invariant\<close>

definition exclusive_held :: "lock_thread list \<Rightarrow> bool" where
  "exclusive_held ts \<longleftrightarrow> (\<forall>i<length ts. \<forall>j<length ts. \<forall>l.
     fst (ts ! i) l = Some Exclusive \<and> fst (ts ! j) l \<noteq> None \<longrightarrow> i = j)"

definition lock_inv :: "lock_thread list \<Rightarrow> bool" where
  "lock_inv ts \<longleftrightarrow> (\<forall>t\<in>set ts. ordered (fst t) (snd t)) \<and> exclusive_held ts"

lemma ordered_update:
  assumes "\<forall>t\<in>set ts. ordered (fst t) (snd t)" and "ordered (fst t') (snd t')"
  shows "\<forall>t\<in>set (ts[i := t']). ordered (fst t) (snd t)"
  using assms set_update_subset_insert[of ts i t'] by blast

lemma exclusive_update:
  assumes "exclusive_held ts" and "i < length ts"
    and "\<And>l j. j < length ts \<Longrightarrow> j \<noteq> i \<Longrightarrow> h' l = Some Exclusive \<Longrightarrow> fst (ts ! j) l = None"
    and "\<And>l j. j < length ts \<Longrightarrow> j \<noteq> i \<Longrightarrow> h' l \<noteq> None \<Longrightarrow> fst (ts ! j) l \<noteq> Some Exclusive"
  shows "exclusive_held (ts[i := (h', as)])"
  unfolding exclusive_held_def
proof (intro allI impI)
  fix a b l
  assume a: "a < length (ts[i := (h', as)])" and b: "b < length (ts[i := (h', as)])"
    and x: "fst (ts[i := (h', as)] ! a) l = Some Exclusive \<and> fst (ts[i := (h', as)] ! b) l \<noteq> None"
  show "a = b"
  proof (cases "a = i \<or> b = i")
    case True
    then show ?thesis using a b x assms(3)[of b l] assms(4)[of a l] by (auto simp: nth_list_update split: if_splits)
  next
    case False
    then show ?thesis using a b x assms(1) unfolding exclusive_held_def by fastforce
  qed
qed

lemma lock_step_inv: "lock_step pref ts us \<Longrightarrow> lock_inv ts \<Longrightarrow> lock_inv us"
proof (induction rule: lock_step.induct)
  case (acquire i ts h l md as)
  then have inv: "\<forall>t\<in>set ts. ordered (fst t) (snd t)" "exclusive_held ts" by (simp_all add: lock_inv_def)
  have "ordered h (Acquire l md # as)" using inv(1) acquire(1,2) by (metis fst_conv snd_conv nth_mem)
  then have "ordered (h(l \<mapsto> md)) as" by simp
  moreover have "exclusive_held (ts[i := (h(l \<mapsto> md), as)])"
  proof (rule exclusive_update[OF inv(2) acquire(1)])
    fix k j assume j: "j < length ts" "j \<noteq> i"
    have g: "md = Exclusive \<Longrightarrow> fst (ts ! j) l = None" "fst (ts ! j) l \<noteq> Some Exclusive"
      using acquire(3) nth_mem[OF j(1)] by (cases md; auto)+
    have old: "h k = Some Exclusive \<Longrightarrow> fst (ts ! j) k = None" "h k \<noteq> None \<Longrightarrow> fst (ts ! j) k \<noteq> Some Exclusive"
      using inv(2) acquire(1,2) j unfolding exclusive_held_def by (metis fst_conv)+
    show "(h(l \<mapsto> md)) k = Some Exclusive \<Longrightarrow> fst (ts ! j) k = None"
      "(h(l \<mapsto> md)) k \<noteq> None \<Longrightarrow> fst (ts ! j) k \<noteq> Some Exclusive"
      using g old by (auto split: if_splits)
  qed
  ultimately show ?case using ordered_update[OF inv(1), of "(h(l \<mapsto> md), as)" i] by (simp add: lock_inv_def)
next
  case (release i ts h l as)
  then have inv: "\<forall>t\<in>set ts. ordered (fst t) (snd t)" "exclusive_held ts" by (simp_all add: lock_inv_def)
  have "ordered h (Release l # as)" using inv(1) release(1,2) by (metis fst_conv snd_conv nth_mem)
  then have "ordered (h(l := None)) as" by simp
  moreover have "exclusive_held (ts[i := (h(l := None), as)])"
  proof (rule exclusive_update[OF inv(2) release(1)])
    fix k j assume j: "j < length ts" "j \<noteq> i"
    show "(h(l := None)) k = Some Exclusive \<Longrightarrow> fst (ts ! j) k = None"
      "(h(l := None)) k \<noteq> None \<Longrightarrow> fst (ts ! j) k \<noteq> Some Exclusive"
      using inv(2) release(1,2) j unfolding exclusive_held_def by (metis fst_conv fun_upd_apply option.distinct(1))+
  qed
  ultimately show ?case using ordered_update[OF inv(1), of "(h(l := None), as)" i] by (simp add: lock_inv_def)
qed

lemma lock_start_inv: "lock_inv (lock_start threads)"
  using calls_ordered by (auto simp: lock_inv_def lock_start_def exclusive_held_def)

lemma lock_reachable_inv: "(lock_step pref)\<^sup>*\<^sup>* (lock_start threads) ts \<Longrightarrow> lock_inv ts"
  by (induction rule: rtranclp_induct) (auto intro: lock_start_inv lock_step_inv)

section \<open>Progress\<close>

definition waited :: "lock_thread list \<Rightarrow> lock_name set" where
  "waited ts = {l. \<exists>t\<in>set ts. \<exists>md as. snd t = Acquire l md # as}"

text \<open>Nobody holds the highest lock that somebody waits for, unless somebody can go on.\<close>

lemma highest_not_held:
  assumes "\<forall>t\<in>set ts. ordered (fst t) (snd t)" and "\<forall>t\<in>set ts. \<forall>l as. snd t \<noteq> Release l # as"
    and "\<forall>k\<in>waited ts. k \<le> l" and "t \<in> set ts"
  shows "fst t l = None"
proof (rule ccontr)
  assume held: "fst t l \<noteq> None"
  have ord: "ordered (fst t) (snd t)" using assms(1,4) by blast
  then obtain a as where a: "snd t = a # as" using held by (cases "snd t") auto
  then obtain k md where k: "a = Acquire k md" using assms(2,4) by (cases a) auto
  then have "l < k" using ord a held by auto
  moreover have "k \<le> l" using assms(3,4) a k by (auto simp: waited_def)
  ultimately show False by simp
qed

lemma lock_progress:
  assumes "lock_inv ts" and "\<not> all_returned ts"
  shows "\<exists>us. lock_step pref ts us"
proof (rule ccontr)
  assume stuck: "\<nexists>us. lock_step pref ts us"
  have ord: "\<forall>t\<in>set ts. ordered (fst t) (snd t)" using assms(1) by (simp add: lock_inv_def)
  have rel: "\<forall>t\<in>set ts. \<forall>l as. snd t \<noteq> Release l # as"
    using stuck lock_step.release by (metis in_set_conv_nth prod.collapse)
  have refused: "\<not> granted pref l md ts" if "t \<in> set ts" "snd t = Acquire l md # as" for t l md as
    using stuck that lock_step.acquire by (metis in_set_conv_nth prod.collapse)
  obtain t where t: "t \<in> set ts" "snd t \<noteq> []" using assms(2) by (auto simp: all_returned_def)
  then obtain l md as where "snd t = Acquire l md # as" using rel by (metis lock_action.exhaust list.exhaust)
  then have "waited ts \<noteq> {}" using t(1) by (auto simp: waited_def)
  moreover have "finite (waited ts)"
    by (rule finite_subset[of _ "{WriteLock, ControlLock, MmapLock}"]) (use lock_name.exhaust in auto)
  ultimately obtain l where l: "l \<in> waited ts" "\<forall>k\<in>waited ts. k \<le> l" using Max_in Max_ge by metis
  have free: "\<forall>t\<in>set ts. fst t l = None" using highest_not_held[OF ord rel l(2)] by blast
  then have "\<not> writer_waits l ts"
    using refused[of _ l Exclusive] by (force simp: writer_waits_def neq_Nil_conv)
  then have "granted pref l md ts" for md using free by (cases md) auto
  then show False using l(1) refused unfolding waited_def by blast
qed

text \<open>Every step is one action of one thread.\<close>

definition actions_left :: "lock_thread list \<Rightarrow> nat" where
  "actions_left ts = sum_list (map (length \<circ> snd) ts)"

lemma lock_step_actions: "lock_step pref ts us \<Longrightarrow> actions_left ts = Suc (actions_left us)"
proof (induction rule: lock_step.induct)
  case (acquire i ts h l md as)
  then show ?case
    using elem_le_sum_list[of i "map (length \<circ> snd) ts"] sum_list_update[of i "map (length \<circ> snd) ts" "length as"]
    by (simp add: actions_left_def map_update)
next
  case (release i ts h l as)
  then show ?case
    using elem_le_sum_list[of i "map (length \<circ> snd) ts"] sum_list_update[of i "map (length \<circ> snd) ts" "length as"]
    by (simp add: actions_left_def map_update)
qed

lemma lock_run_actions: "(lock_step pref ^^ n) ts us \<Longrightarrow> actions_left ts = n + actions_left us"
proof (induction n arbitrary: us)
  case (Suc n)
  then obtain vs where "(lock_step pref ^^ n) ts vs" "lock_step pref vs us" by auto
  then show ?case using Suc.IH lock_step_actions by fastforce
qed simp

lemma actions_left_0: "actions_left ts = 0 \<longleftrightarrow> all_returned ts"
  by (auto simp: actions_left_def all_returned_def)

text \<open>
  C14: calls on a shared persistent buffer exclude each other and never block each other for
  good. Whatever calls any number of threads make, in every state that some interleaving
  reaches: a lock that is held exclusively is held by nobody else, and as long as some call has
  not returned, some thread can go on, also when the locks let readers wait for writers.
\<close>

theorem calls_never_deadlock:
  assumes "(lock_step pref)\<^sup>*\<^sup>* (lock_start threads) ts"
  shows "exclusive_held ts \<and> (all_returned ts \<or> (\<exists>us. lock_step pref ts us))"
  using lock_reachable_inv[OF assms] lock_progress by (auto simp: lock_inv_def)

theorem calls_never_deadlock_witness:
  "\<exists>us. lock_step True (lock_start [[Call_write True], [Call_read_all 2 True, Call_flush]]) us"
  using calls_never_deadlock[of True "[[Call_write True], [Call_read_all 2 True, Call_flush]]",
      OF rtranclp.rtrancl_refl]
  by (simp add: all_returned_def lock_start_def write_locks_def)

text \<open>
  Runs of the steps are finite. From every state that some interleaving reaches, every maximal
  continuation ends with all calls returned, after exactly as many steps as there are
  acquisitions and releases left; no run is longer. The number of reads of a \<open>read_all\<close> is
  fixed with its call here; that its loop ends is \<open>read_all_ends\<close> in \<open>Returned_Records\<close>.
\<close>

theorem calls_all_return:
  assumes "(lock_step pref)\<^sup>*\<^sup>* (lock_start threads) ts"
  shows "(\<exists>us. (lock_step pref ^^ actions_left ts) ts us \<and> all_returned us) \<and>
     (\<forall>n us. (lock_step pref ^^ n) ts us \<longrightarrow> n \<le> actions_left ts \<and> (n = actions_left ts \<longleftrightarrow> all_returned us))"
proof -
  have "\<exists>us. (lock_step pref ^^ actions_left ts) ts us" using lock_reachable_inv[OF assms]
  proof (induction "actions_left ts" arbitrary: ts)
    case (Suc n)
    then have "\<not> all_returned ts" by (metis actions_left_0 nat.distinct(1))
    then obtain vs where vs: "lock_step pref ts vs" using lock_progress[OF Suc.prems] by blast
    then have "actions_left vs = n" using lock_step_actions Suc.hyps(2) by fastforce
    then obtain us where "(lock_step pref ^^ n) vs us" using Suc.hyps(1)[of vs] lock_step_inv[OF vs Suc.prems] by blast
    then show ?case using vs Suc.hyps(2) by (metis relpowp_Suc_I2)
  qed auto
  moreover have "n \<le> actions_left ts \<and> (n = actions_left ts \<longleftrightarrow> all_returned us)"
    if "(lock_step pref ^^ n) ts us" for n us
    using lock_run_actions[OF that] actions_left_0[of us] by auto
  ultimately show ?thesis by blast
qed

theorem calls_all_return_witness:
  "\<exists>us. (lock_step True ^^ 14) (lock_start [[Call_write True], [Call_read_all 1 True, Call_flush]]) us \<and> all_returned us"
proof -
  let ?ts = "lock_start [[Call_write True], [Call_read_all 1 True, Call_flush]]"
  have "actions_left ?ts = 14"
    by (simp add: actions_left_def lock_start_def write_locks_def read_all_locks_def read_at_locks_def flush_locks_def)
  then show ?thesis using calls_all_return[OF rtranclp.rtrancl_refl[of "lock_step True" ?ts]] by metis
qed

end
