(* ===== verification/Persistent_Serial.thy ===== *)
theory Persistent_Serial
  imports Persistent_Locks Persistent_Properties
begin

text \<open>
  Concurrent calls on one persistent buffer, with their effects. The bodies of \<open>write\<close>,
  \<open>read_all\<close> and \<open>reset_read_position\<close> are cut into the changes they make to the control block
  and to the mapping; these changes, the tests that decide which way a call takes, and the
  locking of \<open>Persistent_Locks\<close> are steps of their own, and the steps of all threads
  interleave. The buffers considered satisfy the invariant, so that no step panics.
\<close>

section \<open>Calls as sequences of steps\<close>

datatype serial_action = Lock lock_action | Check "prb \<Rightarrow> bool" | Effect "prb \<Rightarrow> prb"

text \<open>Copying bytes into the mapping.\<close>

definition copied :: "usize \<Rightarrow> usize \<Rightarrow> bytes \<Rightarrow> prb \<Rightarrow> prb" where
  "copied p q bs b = (case slice_copy (buf_mmap b) p q bs of Some m \<Rightarrow> b\<lparr>buf_mmap := m\<rparr> | None \<Rightarrow> b)"

definition control_copied :: "u32 \<Rightarrow> prb \<Rightarrow> prb" where
  "control_copied pad b = copied 0 ControlBlock_SIZE (encode_control_block pad (buf_control b)) b"

text \<open>The changes of \<open>write\<close>, in the order of the code.\<close>

definition write_total :: "log_record \<Rightarrow> usize" where
  "write_total r = Header_SIZE + word_of_nat (length (r_data r))"

definition write_wrap :: "log_record \<Rightarrow> prb \<Rightarrow> prb" where
  "write_wrap r b =
     (let control = buf_control b; data_start = ControlBlock_SIZE + cb_write_pos control in
      if ControlBlock_SIZE + buf_size b < data_start + write_total r
      then b\<lparr>buf_control := control\<lparr>cb_write_pos := 0, cb_wrap_count := cb_wrap_count control + 1\<rparr>\<rparr>
      else b)"

definition write_header :: "hasher \<Rightarrow> log_record \<Rightarrow> prb \<Rightarrow> prb" where
  "write_header crc r b =
     (let header_pos = ControlBlock_SIZE + cb_write_pos (buf_control b) in
      copied header_pos (header_pos + Header_SIZE)
        (encode_disk_header (dh_update_crc crc (r_data r)
           (Header_new (word_of_nat (length (r_data r))) (rh_timestamp_us (r_header r)) (rh_tag (r_header r))))) b)"

definition write_data :: "log_record \<Rightarrow> prb \<Rightarrow> prb" where
  "write_data r b =
     (let data_pos = ControlBlock_SIZE + cb_write_pos (buf_control b) + Header_SIZE in
      copied data_pos (data_pos + word_of_nat (length (r_data r))) (r_data r) b)"

definition write_advance :: "log_record \<Rightarrow> prb \<Rightarrow> prb" where
  "write_advance r b = b\<lparr>buf_control := (buf_control b)\<lparr>cb_write_pos := cb_write_pos (buf_control b) + write_total r\<rparr>\<rparr>"

definition control_hashed :: "hasher \<Rightarrow> prb \<Rightarrow> prb" where
  "control_hashed crc b = b\<lparr>buf_control := cb_update_crc crc (buf_control b)\<rparr>"

definition write_effects :: "hasher \<Rightarrow> u32 \<Rightarrow> log_record \<Rightarrow> serial_action list" where
  "write_effects crc pad r =
     [Effect (write_wrap r), Effect (write_header crc r), Effect (write_data r), Effect (write_advance r),
      Effect (control_hashed crc), Effect (control_copied pad)]"

text \<open>
  The changes of \<open>read_all\<close> and \<open>reset_read_position\<close>. Nobody else changes the buffer while
  \<open>read_all\<close> reads, so the position at which its loop ends is a function of the buffer.
\<close>

definition reads_on :: "hasher \<Rightarrow> prb \<Rightarrow> bool" where
  "reads_on crc b \<longleftrightarrow> cb_read_pos (buf_control b) \<noteq> cb_write_pos (buf_control b) \<and>
     (case read_all_loop crc b (cb_read_pos (buf_control b)) [] of Some (Ok _) \<Rightarrow> True | _ \<Rightarrow> False)"

definition read_advance :: "hasher \<Rightarrow> prb \<Rightarrow> prb" where
  "read_advance crc b =
     (case read_all_loop crc b (cb_read_pos (buf_control b)) [] of
        Some (Ok (_, pos)) \<Rightarrow> b\<lparr>buf_control := (buf_control b)\<lparr>cb_read_pos := pos\<rparr>\<rparr> | _ \<Rightarrow> b)"

definition read_reset :: "prb \<Rightarrow> prb" where
  "read_reset b = b\<lparr>buf_control := (buf_control b)\<lparr>cb_read_pos := cb_write_pos (buf_control b)\<rparr>\<rparr>"

text \<open>
  The calls, with the way they take: whether a written record fits, how often \<open>read_all\<close> reads
  and whether it then stores the read position.
\<close>

datatype buffer_call =
    Write_record log_record bool
  | Read_all nat bool
  | Reset_read
  | Flush_all
  | Get_control
  | Read_one

fun lock_call :: "buffer_call \<Rightarrow> persistent_call" where
  "lock_call (Write_record r fits) = Call_write fits"
| "lock_call (Read_all n stores) = Call_read_all n stores"
| "lock_call Reset_read = Call_reset"
| "lock_call Flush_all = Call_flush"
| "lock_call Get_control = Call_control_block"
| "lock_call Read_one = Call_read_at"

text \<open>What happens between taking the control block for exclusive use and releasing it.\<close>

fun section_of :: "hasher \<Rightarrow> u32 \<Rightarrow> buffer_call \<Rightarrow> serial_action list" where
  "section_of crc pad (Write_record r fits) =
     Check (\<lambda>b. (buf_size b < write_total r) = (\<not> fits)) #
     (if fits then [Lock (Acquire MmapLock Exclusive)] @ write_effects crc pad r @ [Lock (Release MmapLock)] else [])"
| "section_of crc pad (Read_all n stores) =
     Check (\<lambda>b. reads_on crc b = stores) # map Lock (concat (replicate n read_at_locks)) @
     (if stores then [Effect (read_advance crc), Effect (control_hashed crc), Lock (Acquire MmapLock Exclusive),
        Effect (control_copied pad), Lock (Release MmapLock)] else [])"
| "section_of crc pad Reset_read =
     [Effect read_reset, Effect (control_hashed crc), Lock (Acquire MmapLock Exclusive),
      Effect (control_copied pad), Lock (Release MmapLock)]"
| "section_of crc pad _ = []"

fun exclusive_call :: "buffer_call \<Rightarrow> bool" where
  "exclusive_call (Write_record r fits) = True"
| "exclusive_call (Read_all n stores) = True"
| "exclusive_call Reset_read = True"
| "exclusive_call _ = False"

abbreviation take_control :: serial_action where
  "take_control \<equiv> Lock (Acquire ControlLock Exclusive)"

abbreviation leave_control :: serial_action where
  "leave_control \<equiv> Lock (Release ControlLock)"

definition call_actions :: "hasher \<Rightarrow> u32 \<Rightarrow> buffer_call \<Rightarrow> serial_action list" where
  "call_actions crc pad c =
     (case c of
        Write_record r fits \<Rightarrow> [Lock (Acquire WriteLock Exclusive), take_control] @ section_of crc pad c @
          [leave_control, Lock (Release WriteLock)]
      | Read_all n stores \<Rightarrow> [take_control] @ section_of crc pad c @ [leave_control]
      | Reset_read \<Rightarrow> [take_control] @ section_of crc pad c @ [leave_control]
      | Flush_all \<Rightarrow> map Lock flush_locks
      | Get_control \<Rightarrow> map Lock control_block_locks
      | Read_one \<Rightarrow> map Lock read_at_locks)"

text \<open>The sequential result of a call.\<close>

fun call_result :: "hasher \<Rightarrow> u32 \<Rightarrow> buffer_call \<Rightarrow> prb \<Rightarrow> prb" where
  "call_result crc pad (Write_record r fits) b = snd (prb_write crc pad None r b)"
| "call_result crc pad (Read_all n stores) b =
     (case read_all crc pad None b of Some (_, b') \<Rightarrow> b' | None \<Rightarrow> b)"
| "call_result crc pad Reset_read b = snd (reset_read_position crc pad None b)"
| "call_result crc pad _ b = b"

section \<open>Interleaving\<close>

record serial_thread =
  st_held :: holding
  st_call :: buffer_call
  st_todo :: "serial_action list"
  st_rest :: "buffer_call list"

fun locks_of :: "serial_action list \<Rightarrow> lock_action list" where
  "locks_of [] = []"
| "locks_of (Lock a # as) = a # locks_of as"
| "locks_of (_ # as) = locks_of as"

definition lock_view :: "serial_thread \<Rightarrow> lock_thread" where
  "lock_view t = (st_held t, locks_of (st_todo t))"

inductive serial_step ::
  "hasher \<Rightarrow> u32 \<Rightarrow> prb \<times> serial_thread list \<Rightarrow> prb \<times> serial_thread list \<Rightarrow> bool" for crc pad where
  call_step: "i < length ts \<Longrightarrow> ts ! i = \<lparr>st_held = h, st_call = c0, st_todo = [], st_rest = c # cs\<rparr> \<Longrightarrow>
     serial_step crc pad (b, ts)
       (b, ts[i := \<lparr>st_held = h, st_call = c, st_todo = call_actions crc pad c, st_rest = cs\<rparr>])"
| lock_step_acquire: "i < length ts \<Longrightarrow> ts ! i = \<lparr>st_held = h, st_call = c, st_todo = Lock (Acquire l md) # as, st_rest = cs\<rparr> \<Longrightarrow>
     granted False l md (map lock_view ts) \<Longrightarrow>
     serial_step crc pad (b, ts) (b, ts[i := \<lparr>st_held = h(l \<mapsto> md), st_call = c, st_todo = as, st_rest = cs\<rparr>])"
| lock_step_release: "i < length ts \<Longrightarrow> ts ! i = \<lparr>st_held = h, st_call = c, st_todo = Lock (Release l) # as, st_rest = cs\<rparr> \<Longrightarrow>
     serial_step crc pad (b, ts) (b, ts[i := \<lparr>st_held = h(l := None), st_call = c, st_todo = as, st_rest = cs\<rparr>])"
| check_step: "i < length ts \<Longrightarrow> ts ! i = \<lparr>st_held = h, st_call = c, st_todo = Check p # as, st_rest = cs\<rparr> \<Longrightarrow> p b \<Longrightarrow>
     serial_step crc pad (b, ts) (b, ts[i := \<lparr>st_held = h, st_call = c, st_todo = as, st_rest = cs\<rparr>])"
| effect_step: "i < length ts \<Longrightarrow> ts ! i = \<lparr>st_held = h, st_call = c, st_todo = Effect f # as, st_rest = cs\<rparr> \<Longrightarrow>
     serial_step crc pad (b, ts) (f b, ts[i := \<lparr>st_held = h, st_call = c, st_todo = as, st_rest = cs\<rparr>])"

definition serial_start :: "buffer_call list list \<Rightarrow> serial_thread list" where
  "serial_start css = map (\<lambda>cs. \<lparr>st_held = Map.empty, st_call = Flush_all, st_todo = [], st_rest = cs\<rparr>) css"

definition all_done :: "serial_thread list \<Rightarrow> bool" where
  "all_done ts \<longleftrightarrow> (\<forall>t\<in>set ts. st_todo t = [] \<and> st_rest t = [])"

section \<open>The effect of a section\<close>

fun exec :: "serial_action list \<Rightarrow> prb \<Rightarrow> prb option" where
  "exec [] b = Some b"
| "exec (Lock a # as) b = exec as b"
| "exec (Check p # as) b = (if p b then exec as b else None)"
| "exec (Effect f # as) b = exec as (f b)"

lemma exec_append: "exec (as @ bs) b = (case exec as b of None \<Rightarrow> None | Some b' \<Rightarrow> exec bs b')"
  by (induction as b rule: exec.induct) auto

lemma exec_locks [simp]: "exec (map Lock ls) b = Some b"
  by (induction ls) auto

lemma write_effect_states:
  fixes crc :: hasher
  assumes "prb_inv b" and "vec_ok r" and "rec_len r \<le> unat (buf_size b)"
  defines "c \<equiv> control_wrapped r b"
    and "m1 \<equiv> put (buf_mmap b) (48 + write_offset r b) (encode_disk_header (header_for crc r))"
    and "m2 \<equiv> put (buf_mmap b) (48 + write_offset r b) (record_image crc r)"
  shows "write_wrap r b = b\<lparr>buf_control := c\<rparr>"
    and "write_header crc r (b\<lparr>buf_control := c\<rparr>) = b\<lparr>buf_control := c, buf_mmap := m1\<rparr>"
    and "write_data r (b\<lparr>buf_control := c, buf_mmap := m1\<rparr>) = b\<lparr>buf_control := c, buf_mmap := m2\<rparr>"
    and "control_hashed crc (write_advance r (b\<lparr>buf_control := c, buf_mmap := m2\<rparr>))
      = b\<lparr>buf_control := control_after crc r b, buf_mmap := m2\<rparr>"
    and "control_copied pad (b\<lparr>buf_control := control_after crc r b, buf_mmap := m2\<rparr>) = written crc pad r b"
proof -
  note copies = write_copies[OF assms(1-3), of crc]
  show "write_wrap r b = b\<lparr>buf_control := c\<rparr>"
    using write_wraps_word[OF assms(1-3)] by (simp add: write_wrap_def Let_def write_total_def control_wrapped_def c_def)
  show "write_header crc r (b\<lparr>buf_control := c\<rparr>) = b\<lparr>buf_control := c, buf_mmap := m1\<rparr>"
    using copies(1) by (simp add: write_header_def copied_def Let_def header_for_def c_def m1_def)
  show "write_data r (b\<lparr>buf_control := c, buf_mmap := m1\<rparr>) = b\<lparr>buf_control := c, buf_mmap := m2\<rparr>"
    using copies(2) by (simp add: write_data_def copied_def Let_def c_def m1_def m2_def)
  show "control_hashed crc (write_advance r (b\<lparr>buf_control := c, buf_mmap := m2\<rparr>))
      = b\<lparr>buf_control := control_after crc r b, buf_mmap := m2\<rparr>"
    using control_after_eq[OF assms(2), of crc b] by (simp add: control_hashed_def write_advance_def write_total_def c_def)
  show "control_copied pad (b\<lparr>buf_control := control_after crc r b, buf_mmap := m2\<rparr>) = written crc pad r b"
    using copies(3) by (simp add: control_copied_def copied_def written_def m2_def)
qed

lemma write_effects_eq:
  assumes "prb_inv b" and "vec_ok r" and "rec_len r \<le> unat (buf_size b)"
  shows "exec (write_effects crc pad r) b = Some (written crc pad r b)"
  by (simp add: write_effects_def write_effect_states[OF assms])

lemma control_stored:
  assumes "prb_inv b"
  shows "control_copied pad (control_hashed crc (b\<lparr>buf_control := ctl\<rparr>)) = synced crc pad ctl b"
  using prb_inv_facts(1)[OF assms] slice_copy_start[of "buf_mmap b" pad "cb_update_crc crc ctl"]
  by (simp add: control_copied_def copied_def control_hashed_def synced_def)

fun call_ok :: "buffer_call \<Rightarrow> bool" where
  "call_ok (Write_record r fits) = vec_ok r"
| "call_ok _ = True"

lemma section_result:
  assumes "prb_inv b" and "call_ok c" and "exec (section_of crc pad c) b = Some b'"
  shows "b' = call_result crc pad c b"
proof (cases c)
  case (Write_record r fits)
  have vec: "vec_ok r" using assms(2) Write_record by simp
  have total: "buf_size b < write_total r \<longleftrightarrow> unat (buf_size b) < rec_len r"
    using total_word[OF vec] by (simp add: write_total_def word_less_nat_alt)
  show ?thesis
  proof (cases fits)
    case True
    then have "rec_len r \<le> unat (buf_size b)" using assms(3) Write_record total by (auto split: if_splits)
    then show ?thesis
      using assms(3) Write_record True write_effects_eq[OF assms(1) vec, of crc pad] prb_write_eq[OF assms(1) vec, of crc pad None]
      by (auto simp: exec_append split: if_splits)
  next
    case False
    then show ?thesis
      using assms(3) Write_record total prb_write_too_large[OF assms(1) vec, of crc pad None] by (auto split: if_splits)
  qed
next
  case (Read_all n stores)
  let ?loop = "read_all_loop crc b (cb_read_pos (buf_control b)) []"
  have exec: "exec (section_of crc pad c) b = (if reads_on crc b = stores then
      Some (if stores then control_copied pad (control_hashed crc (read_advance crc b)) else b) else None)"
    using Read_all by (simp add: exec_append)
  show ?thesis
  proof (cases stores)
    case True
    then obtain recs pos where loop: "?loop = Some (Ok (recs, pos))"
        "cb_read_pos (buf_control b) \<noteq> cb_write_pos (buf_control b)"
      using assms(3) exec by (auto simp: reads_on_def split: if_splits option.splits outcome.splits)
    then show ?thesis
      using assms(3) exec True Read_all control_stored[OF assms(1)]
      by (simp add: read_advance_def read_all_def Let_def sync_control_eq[OF assms(1)] split: if_splits)
  next
    case False
    then have "\<not> reads_on crc b" "b' = b" using assms(3) exec by (auto split: if_splits)
    then show ?thesis
      using Read_all by (auto simp: reads_on_def read_all_def Let_def split: option.splits outcome.splits)
  qed
next
  case Reset_read
  then show ?thesis
    using assms(3) control_stored[OF assms(1)]
    by (simp add: read_reset_def reset_read_position_def sync_control_eq[OF assms(1)])
qed (use assms(3) in simp_all)

lemma call_result_inv:
  assumes "prb_inv b" and "call_ok c"
  shows "prb_inv (call_result crc pad c b)"
proof (cases c)
  case (Read_all n stores)
  show ?thesis
    by (rule read_all_returns[OF assms(1), of crc pad None]) (simp_all add: Read_all)
qed (use assms prb_write_preserves(1) reset_preserves(1) in auto)

section \<open>The shape of the calls\<close>

lemma locks_of_simps [simp]: "locks_of (as @ bs) = locks_of as @ locks_of bs" "locks_of (map Lock ls) = ls"
proof -
  show "locks_of (as @ bs) = locks_of as @ locks_of bs" by (induction as rule: locks_of.induct) auto
  show "locks_of (map Lock ls) = ls" by (induction ls) auto
qed

lemma call_actions_locks: "locks_of (call_actions crc pad c) = call_locks (lock_call c)"
  by (cases c) (auto simp: call_actions_def write_locks_def read_all_locks_def reset_locks_def write_effects_def)

lemma call_actions_ordered: "ordered Map.empty (locks_of (call_actions crc pad c))"
  using calls_ordered[of "[lock_call c]"] by (simp add: call_actions_locks)

text \<open>Effects happen only while the control block is held exclusively.\<close>

fun guarded :: "holding \<Rightarrow> serial_action list \<Rightarrow> bool" where
  "guarded h [] = True"
| "guarded h (Lock (Acquire l md) # as) = guarded (h(l \<mapsto> md)) as"
| "guarded h (Lock (Release l) # as) = guarded (h(l := None)) as"
| "guarded h (Check p # as) = guarded h as"
| "guarded h (Effect f # as) = (h ControlLock = Some Exclusive \<and> guarded h as)"

lemma guarded_reads:
  "h MmapLock = None \<Longrightarrow> guarded h (map Lock (concat (replicate n read_at_locks)) @ as) = guarded h as"
proof (induction n)
  case (Suc n)
  have "h(MmapLock := None) = h" using Suc.prems by auto
  then show ?case using Suc by (simp add: read_at_locks_def)
qed simp

lemma call_actions_guarded: "guarded Map.empty (call_actions crc pad c)"
proof (cases c)
  case (Read_all n stores)
  then show ?thesis by (simp add: call_actions_def guarded_reads)
qed (simp_all add: call_actions_def write_effects_def flush_locks_def control_block_locks_def read_at_locks_def)

lemma call_actions_shape:
  assumes "exclusive_call c"
  obtains p q where "call_actions crc pad c = p @ take_control # section_of crc pad c @ leave_control # q"
    "take_control \<notin> set p" "take_control \<notin> set (section_of crc pad c @ leave_control # q)"
    "leave_control \<notin> set p"
    "leave_control \<notin> set (section_of crc pad c)" "leave_control \<notin> set q"
proof (cases c)
  case (Write_record r fits)
  then show thesis
    by (intro that[of "[Lock (Acquire WriteLock Exclusive)]" "[Lock (Release WriteLock)]"])
       (auto simp: call_actions_def write_effects_def)
next
  case (Read_all n stores)
  then show thesis by (intro that[of "[]" "[]"]) (auto simp: call_actions_def read_at_locks_def)
next
  case Reset_read
  then show thesis by (intro that[of "[]" "[]"]) (auto simp: call_actions_def)
qed (use assms in simp_all)

lemma shared_call_actions:
  "\<not> exclusive_call c \<Longrightarrow> take_control \<notin> set (call_actions crc pad c)"
  by (cases c) (auto simp: call_actions_def flush_locks_def control_block_locks_def read_at_locks_def)

lemma section_unique:
  assumes "call_actions crc pad c = (p @ take_control # mid) @ leave_control # q"
  shows "exclusive_call c" "mid = section_of crc pad c" "leave_control \<notin> set q"
proof -
  show ex: "exclusive_call c" using shared_call_actions[of c crc pad] assms by auto
  obtain p' q' where c: "call_actions crc pad c = p' @ take_control # section_of crc pad c @ leave_control # q'"
    "take_control \<notin> set p'" "take_control \<notin> set (section_of crc pad c @ leave_control # q')"
    "leave_control \<notin> set (section_of crc pad c)" "leave_control \<notin> set q'"
    by (rule call_actions_shape[OF ex])
  have "section_of crc pad c @ leave_control # q' = mid @ leave_control # q"
    using append_Cons_eq_iff[OF c(2,3), of p "mid @ leave_control # q"] c(1) assms by simp
  then show "mid = section_of crc pad c" "leave_control \<notin> set q"
    using append_Cons_eq_iff[OF c(4,5), of mid q] c(5) by simp_all
qed

lemma leave_exclusive:
  assumes "call_actions crc pad c = pre @ leave_control # q" and "exclusive_call c"
  shows "take_control \<in> set pre \<and> leave_control \<notin> set pre"
proof -
  obtain p' q' where c: "call_actions crc pad c = p' @ take_control # section_of crc pad c @ leave_control # q'"
    "leave_control \<notin> set p'" "leave_control \<notin> set (section_of crc pad c)" "leave_control \<notin> set q'"
    by (rule call_actions_shape[OF assms(2)])
  have "pre = p' @ take_control # section_of crc pad c"
    using append_Cons_eq_iff[of leave_control "p' @ take_control # section_of crc pad c" q' pre q] c assms(1) by simp
  then show ?thesis using c(2-3) by simp
qed

section \<open>The invariant\<close>

text \<open>
  \<open>base\<close> is the buffer when the control block was last released: whoever holds the control
  block exclusively has brought the buffer from there to where it is by the steps it made.
\<close>

definition holds_control :: "holding \<Rightarrow> bool" where
  "holds_control h \<longleftrightarrow> h ControlLock = Some Exclusive"

definition traced :: "hasher \<Rightarrow> u32 \<Rightarrow> prb \<Rightarrow> prb \<Rightarrow> serial_thread \<Rightarrow> bool" where
  "traced crc pad base b t \<longleftrightarrow> (\<exists>pre. call_actions crc pad (st_call t) = pre @ st_todo t \<and>
     (holds_control (st_held t) \<longrightarrow> (\<exists>p mid. pre = p @ take_control # mid \<and> exec mid base = Some b)) \<and>
     (take_control \<in> set pre \<and> leave_control \<notin> set pre \<longrightarrow> holds_control (st_held t)))"

definition thread_ok :: "hasher \<Rightarrow> u32 \<Rightarrow> prb \<Rightarrow> prb \<Rightarrow> serial_thread \<Rightarrow> bool" where
  "thread_ok crc pad base b t \<longleftrightarrow> ordered (st_held t) (locks_of (st_todo t)) \<and> guarded (st_held t) (st_todo t) \<and>
     traced crc pad base b t \<and> call_ok (st_call t) \<and> list_all call_ok (st_rest t)"

text \<open>The calls of a thread that have not released the control block yet.\<close>

definition remaining :: "serial_thread \<Rightarrow> buffer_call list" where
  "remaining t = (if exclusive_call (st_call t) \<and> leave_control \<in> set (st_todo t) then [st_call t] else []) @
     filter exclusive_call (st_rest t)"

definition done_by :: "nat \<Rightarrow> (nat \<times> buffer_call) list \<Rightarrow> buffer_call list" where
  "done_by i order = map snd (filter (\<lambda>x. fst x = i) order)"

definition serial_inv ::
  "hasher \<Rightarrow> u32 \<Rightarrow> buffer_call list list \<Rightarrow> prb \<Rightarrow> prb \<times> serial_thread list \<Rightarrow> prb \<Rightarrow> (nat \<times> buffer_call) list \<Rightarrow> bool" where
  "serial_inv crc pad css b0 st base order \<longleftrightarrow> (case st of (b, ts) \<Rightarrow>
     length ts = length css \<and> (\<forall>i<length ts. thread_ok crc pad base b (ts ! i)) \<and>
     exclusive_held (map lock_view ts) \<and>
     ((\<forall>i<length ts. \<not> holds_control (st_held (ts ! i))) \<longrightarrow> b = base) \<and> prb_inv base \<and>
     fold (call_result crc pad) (map snd order) b0 = base \<and>
     (\<forall>i<length ts. done_by i order @ remaining (ts ! i) = filter exclusive_call (css ! i)))"

lemma traced_other: "\<not> holds_control (st_held t) \<Longrightarrow> traced crc pad base b t \<Longrightarrow> traced crc pad base' b' t"
  by (auto simp: traced_def)

lemma thread_ok_other:
  "\<not> holds_control (st_held t) \<Longrightarrow> thread_ok crc pad base b t \<Longrightarrow> thread_ok crc pad base' b' t"
  using traced_other by (auto simp: thread_ok_def)

text \<open>A step that neither takes nor leaves the control block.\<close>

lemma traced_step:
  assumes "traced crc pad base b \<lparr>st_held = h, st_call = c, st_todo = a # as, st_rest = cs\<rparr>"
    and "holds_control h' = holds_control h" and "holds_control h \<Longrightarrow> exec [a] b = Some b'"
    and "a \<noteq> take_control" and "a \<noteq> leave_control \<or> \<not> holds_control h"
  shows "traced crc pad base b' \<lparr>st_held = h', st_call = c, st_todo = as, st_rest = cs\<rparr>"
proof -
  obtain pre where pre: "call_actions crc pad c = pre @ a # as"
    "holds_control h \<longrightarrow> (\<exists>p mid. pre = p @ take_control # mid \<and> exec mid base = Some b)"
    "take_control \<in> set pre \<and> leave_control \<notin> set pre \<longrightarrow> holds_control h"
    using assms(1) by (auto simp: traced_def)
  have "\<exists>p mid'. pre @ [a] = p @ take_control # mid' \<and> exec mid' base = Some b'" if h: "holds_control h"
  proof -
    obtain p mid where "pre = p @ take_control # mid" "exec mid base = Some b" using pre(2) h by blast
    then show ?thesis using assms(3)[OF h] by (intro exI[of _ p] exI[of _ "mid @ [a]"]) (simp add: exec_append)
  qed
  then show ?thesis
    using pre assms(2,4) unfolding traced_def by (intro exI[of _ "pre @ [a]"]) auto
qed

lemma traced_take:
  assumes "traced crc pad base b \<lparr>st_held = h, st_call = c, st_todo = take_control # as, st_rest = cs\<rparr>"
    and "holds_control h'"
  shows "traced crc pad b b \<lparr>st_held = h', st_call = c, st_todo = as, st_rest = cs\<rparr>"
proof -
  obtain pre where "call_actions crc pad c = pre @ take_control # as" using assms(1) by (auto simp: traced_def)
  moreover have "\<exists>p mid. pre @ [take_control] = p @ take_control # mid \<and> exec mid b = Some b"
    by (intro exI[of _ pre] exI[of _ "[]"]) simp
  ultimately show ?thesis using assms(2) unfolding traced_def by (intro exI[of _ "pre @ [take_control]"]) auto
qed

text \<open>Releasing the control block completes the call: the buffer is its sequential result.\<close>

lemma traced_leave:
  assumes "traced crc pad base b \<lparr>st_held = h, st_call = c, st_todo = leave_control # as, st_rest = cs\<rparr>"
    and "holds_control h" and "prb_inv base" and "call_ok c" and "\<not> holds_control h'"
  shows "exclusive_call c" "b = call_result crc pad c base" "leave_control \<notin> set as"
    "traced crc pad b b \<lparr>st_held = h', st_call = c, st_todo = as, st_rest = cs\<rparr>"
proof -
  obtain p mid where p: "call_actions crc pad c = (p @ take_control # mid) @ leave_control # as" "exec mid base = Some b"
    using assms(1,2) by (auto simp: traced_def)
  note u = section_unique[OF p(1)]
  show "exclusive_call c" "leave_control \<notin> set as" using u by simp_all
  show "b = call_result crc pad c base" using section_result[OF assms(3,4)] p(2) u(2) by simp
  show "traced crc pad b b \<lparr>st_held = h', st_call = c, st_todo = as, st_rest = cs\<rparr>"
    using p(1) assms(5) unfolding traced_def by (intro exI[of _ "(p @ take_control # mid) @ [leave_control]"]) auto
qed

text \<open>A release of shared access to the control block belongs to a call that changes nothing.\<close>

lemma traced_leave_shared:
  assumes "traced crc pad base b \<lparr>st_held = h, st_call = c, st_todo = leave_control # as, st_rest = cs\<rparr>"
    and "\<not> holds_control h"
  shows "\<not> exclusive_call c"
  using assms leave_exclusive[of crc pad c _ as] by (auto simp: traced_def)

section \<open>Every step keeps the invariant\<close>

lemma serial_lock_inv:
  assumes "serial_inv crc pad css b0 (b, ts) base order"
  shows "lock_inv (map lock_view ts)"
  using assms by (auto simp: serial_inv_def lock_inv_def thread_ok_def lock_view_def in_set_conv_nth)

lemma only_holder:
  assumes "exclusive_held (map lock_view ts)" and "i < length ts" and "j < length ts" and "i \<noteq> j"
    and "holds_control (st_held (ts ! i))"
  shows "\<not> holds_control (st_held (ts ! j))"
proof
  assume "holds_control (st_held (ts ! j))"
  then have "fst (map lock_view ts ! i) ControlLock = Some Exclusive" "fst (map lock_view ts ! j) ControlLock \<noteq> None"
    using assms(2,3,5) by (simp_all add: lock_view_def holds_control_def)
  then have "i = j" using assms(1-3) unfolding exclusive_held_def by (metis length_map)
  then show False using assms(4) by simp
qed

lemma exclusive_same_locks:
  assumes "exclusive_held (map lock_view ts)" and "i < length ts" and "st_held t' = st_held (ts ! i)"
  shows "exclusive_held (map lock_view (ts[i := t']))"
proof -
  have "fst (map lock_view (ts[i := t']) ! j) = fst (map lock_view ts ! j)" if "j < length ts" for j
    using that assms(2,3) by (simp add: nth_list_update lock_view_def)
  then show ?thesis using assms(1) by (simp add: exclusive_held_def)
qed

lemma serial_update:
  assumes inv: "serial_inv crc pad css b0 (b, ts) base order" and i: "i < length ts"
    and new: "thread_ok crc pad base' b' t'" "exclusive_held (map lock_view (ts[i := t']))"
    and others: "\<And>j. j < length ts \<Longrightarrow> j \<noteq> i \<Longrightarrow> thread_ok crc pad base' b' (ts ! j)"
    and free: "\<forall>j<length ts. \<not> holds_control (st_held (ts[i := t'] ! j)) \<Longrightarrow> b' = base'"
    and base: "prb_inv base'" "fold (call_result crc pad) (map snd order') b0 = base'"
    and order: "\<And>j. j \<noteq> i \<Longrightarrow> done_by j order' = done_by j order"
      "done_by i order' @ remaining t' = done_by i order @ remaining (ts ! i)"
  shows "serial_inv crc pad css b0 (b', ts[i := t']) base' order'"
proof -
  have "done_by j order' @ remaining (ts[i := t'] ! j) = filter exclusive_call (css ! j)" if "j < length ts" for j
    using inv that i order by (cases "j = i") (simp_all add: serial_inv_def)
  moreover have "thread_ok crc pad base' b' (ts[i := t'] ! j)" if "j < length ts" for j
    using that i new(1) others by (cases "j = i") simp_all
  ultimately show ?thesis using inv new(2) free base by (simp add: serial_inv_def)
qed

text \<open>A step of thread \<open>i\<close> that completes no call.\<close>

lemma serial_quiet:
  assumes inv: "serial_inv crc pad css b0 (b, ts) base order" and i: "i < length ts"
    and new: "thread_ok crc pad base b' t'" "exclusive_held (map lock_view (ts[i := t']))"
    and same: "b' = b \<or> holds_control (st_held (ts ! i))"
    and held: "holds_control (st_held t') \<or> holds_control (st_held t') = holds_control (st_held (ts ! i))"
    and rest: "remaining t' = remaining (ts ! i)"
  shows "serial_inv crc pad css b0 (b', ts[i := t']) base order"
proof (rule serial_update[OF inv i new])
  show "thread_ok crc pad base b' (ts ! j)" if j: "j < length ts" "j \<noteq> i" for j
  proof (cases "b' = b")
    case False
    then have "\<not> holds_control (st_held (ts ! j))"
      using same only_holder[OF _ i j(1)] inv j(2) by (auto simp: serial_inv_def)
    then show ?thesis using thread_ok_other inv j(1) by (auto simp: serial_inv_def)
  qed (use inv j in \<open>simp add: serial_inv_def\<close>)
  show "b' = base" if free: "\<forall>j<length ts. \<not> holds_control (st_held (ts[i := t'] ! j))"
  proof -
    have "\<not> holds_control (st_held t')" using free i by auto
    then have "\<not> holds_control (st_held (ts ! i))" using held by blast
    moreover from this have "\<forall>j<length ts. \<not> holds_control (st_held (ts ! j))"
      using free i by (metis nth_list_update_neq)
    ultimately show ?thesis using same inv by (auto simp: serial_inv_def)
  qed
qed (use inv rest in \<open>auto simp: serial_inv_def\<close>)

lemma serial_threadD:
  assumes "serial_inv crc pad css b0 (b, ts) base order" and "i < length ts"
  shows "thread_ok crc pad base b (ts ! i)" "exclusive_held (map lock_view ts)"
    "(\<forall>j<length ts. \<not> holds_control (st_held (ts ! j))) \<Longrightarrow> b = base" "prb_inv base"
  using assms by (simp_all add: serial_inv_def)

lemma call_step_inv:
  assumes "serial_inv crc pad css b0 (b, ts) base order" and "i < length ts"
    and "ts ! i = \<lparr>st_held = h, st_call = c0, st_todo = [], st_rest = c # cs\<rparr>"
  shows "serial_inv crc pad css b0
     (b, ts[i := \<lparr>st_held = h, st_call = c, st_todo = call_actions crc pad c, st_rest = cs\<rparr>]) base order"
proof (rule serial_quiet[OF assms(1,2)])
  note old = serial_threadD[OF assms(1,2)]
  let ?t = "\<lparr>st_held = h, st_call = c, st_todo = call_actions crc pad c, st_rest = cs\<rparr>"
  have h: "h = Map.empty" and ok: "call_ok c" "list_all call_ok cs" using old(1) assms(3) by (simp_all add: thread_ok_def)
  then have "traced crc pad base b ?t" unfolding traced_def holds_control_def by (intro exI[of _ "[]"]) simp
  then show "thread_ok crc pad base b ?t"
    using h ok call_actions_ordered call_actions_guarded by (simp add: thread_ok_def)
  show "exclusive_held (map lock_view (ts[i := ?t]))" by (rule exclusive_same_locks[OF old(2) assms(2)]) (simp add: assms(3))
  show "remaining ?t = remaining (ts ! i)"
  proof (cases "exclusive_call c")
    case True
    have "leave_control \<in> set (call_actions crc pad c)" by (rule call_actions_shape[OF True, of crc pad]) simp
    then show ?thesis using True by (simp add: remaining_def assms(3))
  qed (simp add: remaining_def assms(3))
qed (simp_all add: assms(3))

lemma check_step_inv:
  assumes "serial_inv crc pad css b0 (b, ts) base order" and "i < length ts"
    and "ts ! i = \<lparr>st_held = h, st_call = c, st_todo = a # as, st_rest = cs\<rparr>"
    and "a = Check p \<and> p b \<and> b' = b \<or> a = Effect f \<and> b' = f b"
  shows "serial_inv crc pad css b0 (b', ts[i := \<lparr>st_held = h, st_call = c, st_todo = as, st_rest = cs\<rparr>]) base order"
proof (rule serial_quiet[OF assms(1,2)])
  note old = serial_threadD[OF assms(1,2)]
  let ?t = "\<lparr>st_held = h, st_call = c, st_todo = as, st_rest = cs\<rparr>"
  have "traced crc pad base b \<lparr>st_held = h, st_call = c, st_todo = a # as, st_rest = cs\<rparr>"
    using old(1) assms(3) by (simp add: thread_ok_def)
  then have "traced crc pad base b' ?t" by (rule traced_step) (use assms(4) in auto)
  then show "thread_ok crc pad base b' ?t" using old(1) assms(3,4) by (auto simp: thread_ok_def)
  show "exclusive_held (map lock_view (ts[i := ?t]))" by (rule exclusive_same_locks[OF old(2) assms(2)]) (simp add: assms(3))
  show "b' = b \<or> holds_control (st_held (ts ! i))"
    using old(1) assms(3,4) by (auto simp: thread_ok_def holds_control_def)
  show "remaining ?t = remaining (ts ! i)" using assms(4) by (auto simp: remaining_def assms(3))
qed (simp_all add: assms(3))

text \<open>A locking step is a step of the locks; it keeps their invariant.\<close>

lemma locked_view:
  assumes "serial_inv crc pad css b0 (b, ts) base order" and "i < length ts"
    and "lock_step False (map lock_view ts) ((map lock_view ts)[i := lock_view t'])"
  shows "ordered (st_held t') (locks_of (st_todo t'))" "exclusive_held (map lock_view (ts[i := t']))"
proof -
  have "lock_inv (map lock_view (ts[i := t']))"
    using lock_step_inv[OF assms(3) serial_lock_inv[OF assms(1)]] by (simp add: map_update)
  then have "\<forall>t\<in>set (ts[i := t']). ordered (st_held t) (locks_of (st_todo t))"
    and "exclusive_held (map lock_view (ts[i := t']))" by (auto simp: lock_inv_def lock_view_def)
  then show "ordered (st_held t') (locks_of (st_todo t'))" "exclusive_held (map lock_view (ts[i := t']))"
    using set_update_memI[OF assms(2)] by auto
qed

lemma acquire_step_inv:
  assumes inv: "serial_inv crc pad css b0 (b, ts) base order" and i: "i < length ts"
    and t: "ts ! i = \<lparr>st_held = h, st_call = c, st_todo = Lock (Acquire l md) # as, st_rest = cs\<rparr>"
    and g: "granted False l md (map lock_view ts)"
  shows "serial_inv crc pad css b0
     (b, ts[i := \<lparr>st_held = h(l \<mapsto> md), st_call = c, st_todo = as, st_rest = cs\<rparr>]) base order"
proof (rule serial_quiet[OF inv i])
  let ?t = "\<lparr>st_held = h(l \<mapsto> md), st_call = c, st_todo = as, st_rest = cs\<rparr>"
  note old = serial_threadD[OF inv i]
  have "lock_step False (map lock_view ts) ((map lock_view ts)[i := lock_view ?t])"
    using lock_step.acquire[of i "map lock_view ts" h l md "locks_of as" False] i t g by (simp add: lock_view_def)
  note view = locked_view[OF inv i this]
  show "exclusive_held (map lock_view (ts[i := ?t]))" by (rule view(2))
  have old_traced: "traced crc pad base b \<lparr>st_held = h, st_call = c, st_todo = Lock (Acquire l md) # as, st_rest = cs\<rparr>"
    using old(1) t by (simp add: thread_ok_def)
  have not_exclusive: "\<not> holds_control (st_held (ts ! j))" if "l = ControlLock" "j < length ts" for j
    using g that(1) nth_mem[OF that(2)] by (cases md) (auto simp: holds_control_def lock_view_def)
  have "traced crc pad base b ?t"
  proof (cases "Lock (Acquire l md) = take_control")
    case True
    then have "b = base" using not_exclusive old(3) by auto
    then show ?thesis using traced_take[of crc pad base b h c as cs "h(l \<mapsto> md)"] old_traced True
      by (simp add: holds_control_def)
  next
    case False
    then have "holds_control (h(l \<mapsto> md)) = holds_control h"
      using not_exclusive[OF _ i] t by (cases md) (auto simp: holds_control_def)
    then show ?thesis using traced_step[OF old_traced, of "h(l \<mapsto> md)" b] False by simp
  qed
  then show "thread_ok crc pad base b ?t" using old(1) t view(1) by (simp add: thread_ok_def)
  show "holds_control (st_held ?t) \<or> holds_control (st_held ?t) = holds_control (st_held (ts ! i))"
    using not_exclusive[OF _ i] t by (auto simp: holds_control_def)
  show "remaining ?t = remaining (ts ! i)" by (simp add: remaining_def t)
qed simp

lemma done_by_snoc [simp]: "done_by j (order @ [(i, c)]) = done_by j order @ (if i = j then [c] else [])"
  by (simp add: done_by_def)

lemma release_step_inv:
  assumes inv: "serial_inv crc pad css b0 (b, ts) base order" and i: "i < length ts"
    and t: "ts ! i = \<lparr>st_held = h, st_call = c, st_todo = Lock (Release l) # as, st_rest = cs\<rparr>"
  shows "\<exists>base' order'. serial_inv crc pad css b0
     (b, ts[i := \<lparr>st_held = h(l := None), st_call = c, st_todo = as, st_rest = cs\<rparr>]) base' order'"
proof -
  let ?t = "\<lparr>st_held = h(l := None), st_call = c, st_todo = as, st_rest = cs\<rparr>"
  note old = serial_threadD[OF inv i]
  have "lock_step False (map lock_view ts) ((map lock_view ts)[i := lock_view ?t])"
    using lock_step.release[of i "map lock_view ts" h l "locks_of as" False] i t by (simp add: lock_view_def)
  note view = locked_view[OF inv i this]
  have old_traced: "traced crc pad base b \<lparr>st_held = h, st_call = c, st_todo = Lock (Release l) # as, st_rest = cs\<rparr>"
    using old(1) t by (simp add: thread_ok_def)
  show ?thesis
  proof (cases "l = ControlLock \<and> holds_control h")
    case True
    have ok: "call_ok c" "list_all call_ok cs" using old(1) t by (simp_all add: thread_ok_def)
    have now_free: "\<not> holds_control (h(l := None))" using True by (simp add: holds_control_def)
    have "traced crc pad base b \<lparr>st_held = h, st_call = c, st_todo = leave_control # as, st_rest = cs\<rparr>"
      using old_traced True by simp
    note leave = traced_leave[OF this _ old(4) ok(1) now_free]
    have "thread_ok crc pad b b ?t"
      using leave(4) True old(1) t view(1) ok by (simp add: thread_ok_def)
    moreover have "thread_ok crc pad b b (ts ! j)" if "j < length ts" "j \<noteq> i" for j
    proof -
      have "\<not> holds_control (st_held (ts ! j))" using only_holder[OF old(2) i that(1)] that(2) True t by auto
      then show ?thesis using thread_ok_other serial_threadD(1)[OF inv that(1)] by blast
    qed
    moreover have "b = call_result crc pad c base" "leave_control \<notin> set as" "exclusive_call c"
      using leave(1-3) True by simp_all
    moreover from this have "prb_inv b" using call_result_inv[OF old(4) ok(1)] by simp
    ultimately have "serial_inv crc pad css b0 (b, ts[i := ?t]) b (order @ [(i, c)])"
      using inv True by (intro serial_update[OF inv i _ view(2)]) (auto simp: serial_inv_def remaining_def t)
    then show ?thesis by blast
  next
    case False
    then have same: "holds_control (h(l := None)) = holds_control h" by (auto simp: holds_control_def)
    have tr: "traced crc pad base b ?t" using traced_step[OF old_traced same, of b] False by auto
    have "l = ControlLock \<Longrightarrow> \<not> exclusive_call c"
      using traced_leave_shared[of crc pad base b h c as cs] old_traced False by auto
    then have "remaining ?t = remaining (ts ! i)" by (auto simp: remaining_def t)
    then have "serial_inv crc pad css b0 (b, ts[i := ?t]) base order"
      using tr old(1) t view same by (intro serial_quiet[OF inv i]) (simp_all add: thread_ok_def)
    then show ?thesis by blast
  qed
qed

lemma serial_step_inv:
  assumes "serial_step crc pad st st'" and "serial_inv crc pad css b0 st base order"
  shows "\<exists>base' order'. serial_inv crc pad css b0 st' base' order'"
  using assms
proof (induction rule: serial_step.induct)
  case (call_step i ts h c0 c cs b)
  then show ?case using call_step_inv by blast
next
  case (lock_step_acquire i ts h c l md as cs b)
  then show ?case using acquire_step_inv by blast
next
  case (lock_step_release i ts h c l as cs b)
  then show ?case using release_step_inv by blast
next
  case (check_step i ts h c p as cs b)
  then show ?case using check_step_inv by blast
next
  case (effect_step i ts h c f as cs b)
  then show ?case using check_step_inv by blast
qed

lemma serial_start_inv:
  assumes "prb_inv b0" and "\<forall>cs\<in>set css. list_all call_ok cs"
  shows "serial_inv crc pad css b0 (b0, serial_start css) b0 []"
proof -
  have "traced crc pad b0 b0 \<lparr>st_held = Map.empty, st_call = Flush_all, st_todo = [], st_rest = cs\<rparr>" for cs
    by (auto simp: traced_def holds_control_def call_actions_def flush_locks_def)
  then have "thread_ok crc pad b0 b0 (serial_start css ! i)" if "i < length css" for i
    using assms(2) nth_mem[OF that] that by (simp add: serial_start_def thread_ok_def)
  moreover have "exclusive_held (map lock_view (serial_start css))"
    by (simp add: exclusive_held_def serial_start_def lock_view_def)
  ultimately show ?thesis
    using assms(1) by (simp add: serial_inv_def serial_start_def done_by_def remaining_def)
qed

text \<open>
  C5: concurrent calls on a persistent buffer are serialisable. Any number of threads
  call the buffer, and the changes that the calls make to the control block and to the mapping,
  the locks and the tests interleave in any way. When all calls have returned, the buffer is
  what the writes, reads and resets give one after the other in some order, each as a whole, in
  which the calls of every thread keep their order; and it is well-formed.
\<close>

theorem calls_serialise:
  assumes "prb_inv b0" and "\<forall>cs\<in>set css. list_all call_ok cs"
    and "(serial_step crc pad)\<^sup>*\<^sup>* (b0, serial_start css) (b, ts)" and "all_done ts"
  shows "\<exists>order. b = fold (call_result crc pad) (map snd order) b0 \<and> prb_inv b \<and>
     (\<forall>i<length css. done_by i order = filter exclusive_call (css ! i))"
proof -
  have "\<exists>base order. serial_inv crc pad css b0 (b, ts) base order"
    using assms(3)
  proof (induction rule: rtranclp_induct)
    case base
    show ?case using serial_start_inv[OF assms(1,2)] by blast
  next
    case (step y z)
    then show ?case using serial_step_inv by blast
  qed
  then obtain base order where inv: "serial_inv crc pad css b0 (b, ts) base order" by blast
  have len: "length ts = length css" using inv by (simp add: serial_inv_def)
  have fin: "st_todo (ts ! i) = []" "st_rest (ts ! i) = []" if "i < length ts" for i
    using assms(4) nth_mem[OF that] by (auto simp: all_done_def)
  have "st_held (ts ! i) = Map.empty" if "i < length ts" for i
    using serial_threadD(1)[OF inv that] fin[OF that] by (simp add: thread_ok_def)
  then have "b = base" using inv by (simp add: serial_inv_def holds_control_def)
  moreover have "done_by i order = filter exclusive_call (css ! i)" if "i < length css" for i
  proof -
    have "remaining (ts ! i) = []" using fin[of i] that len by (simp add: remaining_def)
    moreover have "done_by i order @ remaining (ts ! i) = filter exclusive_call (css ! i)"
      using inv that len by (simp add: serial_inv_def)
    ultimately show ?thesis by simp
  qed
  ultimately show ?thesis using inv by (auto simp: serial_inv_def)
qed

section \<open>A concrete run\<close>

text \<open>A thread that runs a call while nobody else holds a lock.\<close>

lemma alone_run:
  "i < length ts \<Longrightarrow> \<forall>j<length ts. j \<noteq> i \<longrightarrow> st_held (ts ! j) = Map.empty \<Longrightarrow>
    ts ! i = \<lparr>st_held = h, st_call = c, st_todo = as, st_rest = cs\<rparr> \<Longrightarrow>
    ordered h (locks_of as) \<Longrightarrow> exec as b = Some b' \<Longrightarrow>
    (serial_step crc pad)\<^sup>*\<^sup>* (b, ts) (b', ts[i := \<lparr>st_held = Map.empty, st_call = c, st_todo = [], st_rest = cs\<rparr>])"
proof (induction as arbitrary: h b ts)
  case Nil
  then have "h = Map.empty" "b' = b" by simp_all
  then have "ts[i := \<lparr>st_held = Map.empty, st_call = c, st_todo = [], st_rest = cs\<rparr>] = ts"
    using Nil.prems(3) list_update_id[of ts i] by simp
  then show ?case using \<open>b' = b\<close> by simp
next
  case (Cons a as)
  have go: ?case if "serial_step crc pad (b, ts) (b1, ts[i := \<lparr>st_held = h', st_call = c, st_todo = as, st_rest = cs\<rparr>])"
    "ordered h' (locks_of as)" "exec as b1 = Some b'" for b1 h'
  proof -
    let ?ts = "ts[i := \<lparr>st_held = h', st_call = c, st_todo = as, st_rest = cs\<rparr>]"
    have "(serial_step crc pad)\<^sup>*\<^sup>* (b1, ?ts)
        (b', ?ts[i := \<lparr>st_held = Map.empty, st_call = c, st_todo = [], st_rest = cs\<rparr>])"
      by (rule Cons.IH[OF _ _ _ that(2,3)]) (use Cons.prems(1,2) in simp_all)
    then show ?thesis
      using converse_rtranclp_into_rtranclp[of "serial_step crc pad" "(b, ts)" "(b1, ?ts)"] that(1) by simp
  qed
  show ?case
  proof (cases a)
    case (Lock la)
    show ?thesis
    proof (cases la)
      case (Acquire l md)
      have "h l = None" using Cons.prems(4) Lock Acquire by (auto simp: less_lock_name_def)
      then have "\<forall>t\<in>set ts. st_held t l = None"
        using Cons.prems(2,3) by (metis in_set_conv_nth serial_thread.select_convs(1))
      then have "granted False l md (map lock_view ts)" by (cases md) (auto simp: lock_view_def)
      then show ?thesis
        using go serial_step.lock_step_acquire[OF Cons.prems(1), of h c l md as cs crc pad b] Cons.prems(3-5) Lock Acquire
        by simp
    next
      case (Release l)
      then show ?thesis
        using go serial_step.lock_step_release[OF Cons.prems(1), of h c l as cs crc pad b] Cons.prems(3-5) Lock by simp
    qed
  next
    case (Check p)
    then show ?thesis
      using go[of b h] serial_step.check_step[OF Cons.prems(1), of h c p as cs b crc pad] Cons.prems(3-5)
      by (simp split: if_splits)
  next
    case (Effect f)
    then show ?thesis
      using go[of "f b" h] serial_step.effect_step[OF Cons.prems(1), of h c f as cs crc pad b] Cons.prems(3-5) by simp
  qed
qed

lemma alone_call:
  assumes "i < length ts" and "\<forall>j<length ts. j \<noteq> i \<longrightarrow> st_held (ts ! j) = Map.empty"
    and "ts ! i = \<lparr>st_held = Map.empty, st_call = c0, st_todo = [], st_rest = c # cs\<rparr>"
    and "exec (call_actions crc pad c) b = Some b'"
  shows "(serial_step crc pad)\<^sup>*\<^sup>* (b, ts)
     (b', ts[i := \<lparr>st_held = Map.empty, st_call = c, st_todo = [], st_rest = cs\<rparr>])"
proof -
  let ?ts = "ts[i := \<lparr>st_held = Map.empty, st_call = c, st_todo = call_actions crc pad c, st_rest = cs\<rparr>]"
  have "(serial_step crc pad)\<^sup>*\<^sup>* (b, ?ts)
      (b', ?ts[i := \<lparr>st_held = Map.empty, st_call = c, st_todo = [], st_rest = cs\<rparr>])"
    by (rule alone_run[OF _ _ _ call_actions_ordered assms(4)]) (use assms(1,2) in simp_all)
  then show ?thesis
    using converse_rtranclp_into_rtranclp[of "serial_step crc pad" "(b, ts)" "(b, ?ts)"]
      serial_step.call_step[OF assms(1,3), of crc pad b] by simp
qed

lemma exec_call_actions: "exec (call_actions crc pad c) b = exec (section_of crc pad c) b"
  by (cases c) (simp_all add: call_actions_def exec_append split: option.splits)

theorem calls_serialise_witness:
  "\<exists>b ts order. (serial_step crc32_ieee 0)\<^sup>*\<^sup>*
       (demo_buffer, serial_start [[Write_record demo_record True], [Reset_read]]) (b, ts) \<and> all_done ts \<and>
     b = fold (call_result crc32_ieee 0) (map snd order) demo_buffer \<and>
     done_by 0 order = [Write_record demo_record True] \<and> done_by 1 order = [Reset_read]"
proof -
  let ?css = "[[Write_record demo_record True], [Reset_read]]"
  let ?finished = "\<lambda>c. \<lparr>st_held = Map.empty, st_call = c, st_todo = [], st_rest = []\<rparr>"
  let ?b1 = "written crc32_ieee 0 demo_record demo_buffer"
  let ?ts1 = "(serial_start ?css)[0 := ?finished (Write_record demo_record True)]"
  have "\<not> buf_size demo_buffer < write_total demo_record"
    using demo_record_ok demo_buffer_ok(3) total_word[OF demo_record_ok(2)]
    by (simp add: write_total_def word_less_nat_alt)
  then have "exec (call_actions crc32_ieee 0 (Write_record demo_record True)) demo_buffer = Some ?b1"
    using write_effects_eq[OF demo_buffer_ok(1) demo_record_ok(2), of crc32_ieee 0] demo_record_ok(3) demo_buffer_ok(3)
    by (simp add: exec_call_actions exec_append)
  then have one: "(serial_step crc32_ieee 0)\<^sup>*\<^sup>* (demo_buffer, serial_start ?css) (?b1, ?ts1)"
    by (intro alone_call) (auto simp: serial_start_def less_Suc_eq)
  obtain b where "exec (call_actions crc32_ieee 0 Reset_read) ?b1 = Some b" by (simp add: exec_call_actions)
  then have "(serial_step crc32_ieee 0)\<^sup>*\<^sup>* (?b1, ?ts1) (b, ?ts1[1 := ?finished Reset_read])"
    by (intro alone_call) (auto simp: serial_start_def less_Suc_eq)
  with one have run: "(serial_step crc32_ieee 0)\<^sup>*\<^sup>* (demo_buffer, serial_start ?css) (b, ?ts1[1 := ?finished Reset_read])"
    by simp
  have fin: "all_done (?ts1[1 := ?finished Reset_read])" by (simp add: all_done_def serial_start_def)
  obtain order where "b = fold (call_result crc32_ieee 0) (map snd order) demo_buffer"
    "\<forall>i<length ?css. done_by i order = filter exclusive_call (?css ! i)"
    using calls_serialise[OF demo_buffer_ok(1) _ run fin] demo_record_ok(2) by auto
  then show ?thesis using run fin by (intro exI[of _ b] exI[of _ "?ts1[1 := ?finished Reset_read]"] exI[of _ order]) auto
qed

end
