(* ===== verification/Persistent_Forgery.thy ===== *)
theory Persistent_Forgery
  imports Persistent_Properties
begin

text \<open>
  What a reader can be made to return. The read position does not follow a wrap of the write
  position, so it may come to lie inside the data of a record of the new lap; bytes there
  that look like a stored record are taken for one.
\<close>

section \<open>A record inside the data of another\<close>

text \<open>\<open>r\<close> carries in its data, from \<open>p\<close> bytes behind its start on, the stored form of \<open>e\<close>.\<close>

definition embeds :: "hasher \<Rightarrow> log_record \<Rightarrow> nat \<Rightarrow> log_record \<Rightarrow> bool" where
  "embeds crc r p e \<longleftrightarrow> (\<exists>pre. r_data r = pre @ record_image crc e \<and> p = 24 + length pre)"

lemma embedded_image:
  assumes "embeds crc r p e" and "subslice m a (rec_len r) = record_image crc r"
  shows "subslice m (a + p) (rec_len e) = record_image crc e" "rec_len r = p + rec_len e"
proof -
  obtain pre where pre: "r_data r = pre @ record_image crc e" "p = 24 + length pre"
    using assms(1) by (auto simp: embeds_def)
  show "rec_len r = p + rec_len e" using pre by (simp add: rec_len_def[of r])
  then show "subslice m (a + p) (rec_len e) = record_image crc e"
    using subslice_middle[of m a "rec_len r" "encode_disk_header (header_for crc r) @ pre" "record_image crc e" "[]"]
      assms(2) pre by (simp add: record_image_def[of crc r])
qed

text \<open>
  C27: a reader can be given a record that nobody wrote. When the read position of a buffer
  is \<open>p\<close> and a client writes a record that wraps and carries, \<open>p\<close> bytes behind its start, the
  stored form of another record, then \<open>read_all\<close> returns that other record, with the tag and
  the time stamp the client chose, instead of the one that was written.
\<close>

theorem forged_record_is_read:
  assumes "prb_inv b" and "write_wraps r b" and "rec_len r \<le> unat (buf_size b)"
    and "u32_ok r" and "u32_ok e" and "embeds crc r (unat (cb_read_pos (buf_control b))) e"
  shows "\<exists>b' b''. prb_write crc pad None r b = (Ok (), b') \<and>
     read_all crc pad None b' = Some (Ok [stored crc e], b'')"
proof -
  let ?b = "written crc pad r b" and ?p = "unat (cb_read_pos (buf_control b))"
  have inv: "prb_inv ?b" by (rule written_inv[OF assms(1,3)])
  have ctl: "buf_control ?b = control_after crc r b" "buf_size ?b = buf_size b" by (simp_all add: written_def)
  have image: "subslice (buf_mmap ?b) 48 (rec_len r) = record_image crc r"
    using written_image[OF assms(1,3), of crc pad] assms(2) by (simp add: write_offset_def)
  note e = embedded_image[OF assms(6) image]
  have at: "read_at crc (cb_read_pos (buf_control b)) ?b = Ok (Some (stored crc e, word_of_nat (rec_len e)))"
    using read_at_image[OF inv _ _ assms(5), of ?p] e assms(3) ctl(2) by simp
  have rp: "cb_read_pos (control_after crc r b) = cb_read_pos (buf_control b)"
    by (rule written_control(2)[OF assms(1,3)])
  have len: "unat (cb_write_pos (control_after crc r b)) = ?p + rec_len e"
    using written_control(1)[OF assms(1,3), of crc] assms(2) e(2) by (simp add: write_offset_def)
  have "cb_write_pos (control_after crc r b) = word_of_nat (unat (cb_write_pos (control_after crc r b)))" by simp
  also have "\<dots> = cb_read_pos (buf_control b) + word_of_nat (rec_len e)" unfolding len by simp
  finally have wp: "cb_write_pos (control_after crc r b) = cb_read_pos (buf_control b) + word_of_nat (rec_len e)"
    "cb_read_pos (buf_control b) < cb_write_pos (control_after crc r b)"
    using len rec_len_ge[of e] by (simp_all add: word_less_nat_alt)
  have "read_all_loop crc ?b (cb_read_pos (buf_control b)) [] =
      Some (Ok ([stored crc e], cb_write_pos (control_after crc r b)))"
    using wp at by (subst read_all_loop.simps) (simp add: ctl read_all_loop_done)
  then have "\<exists>b''. read_all crc pad None ?b = Some (Ok [stored crc e], b'')"
    using wp(2) by (simp add: read_all_def ctl rp Let_def sync_control_eq[OF inv])
  then show ?thesis using prb_write_eq[OF assms(1) u32_imp_vec[OF assms(4)] assms(3), of crc pad None] by auto
qed

section \<open>A concrete forgery\<close>

text \<open>A buffer of 64 bytes from which one record was read, and the two records of the client.\<close>

definition demo_one_read :: prb where
  "demo_one_read = snd (reset_read_position crc32_ieee 0 None (written crc32_ieee 0 demo_record demo_buffer))"

definition forged_record :: log_record where
  "forged_record = Record_new crc32_ieee (Some 1) [6, 6, 6] 1"

definition carrier_record :: log_record where
  "carrier_record = Record_new crc32_ieee (Some 8) ([0, 0, 0, 0, 0] @ record_image crc32_ieee forged_record) 9"

lemma demo_one_read_ok: "prb_inv demo_one_read" "buf_size demo_one_read = 64"
  "unat (cb_write_pos (buf_control demo_one_read)) = 29" "unat (cb_read_pos (buf_control demo_one_read)) = 29"
proof -
  have wp: "unat (cb_write_pos (buf_control (written crc32_ieee 0 demo_record demo_buffer))) = 29"
    using demo_one_ok(2) demo_record_ok(3) by (simp add: represents_def)
  show "prb_inv demo_one_read" "buf_size demo_one_read = 64"
    "unat (cb_write_pos (buf_control demo_one_read)) = 29" "unat (cb_read_pos (buf_control demo_one_read)) = 29"
    using reset_preserves[OF demo_one_ok(1), of crc32_ieee 0 None] demo_one_ok(3) wp
    by (simp_all add: demo_one_read_def) (simp_all add: reset_read_position_def sync_control_eq[OF demo_one_ok(1)])
qed

theorem forged_record_is_read_witness:
  "\<exists>b' b''. prb_write crc32_ieee 0 None carrier_record demo_one_read = (Ok (), b') \<and>
     read_all crc32_ieee 0 None b' = Some (Ok [forged_record], b'')"
proof -
  have e: "stored crc32_ieee forged_record = forged_record" "u32_ok forged_record" "rec_len forged_record = 27"
    by (simp_all add: forged_record_def u32_ok_def rec_len_def Record_new_fields)
  then have r: "rec_len carrier_record = 56" "u32_ok carrier_record"
    by (simp_all add: carrier_record_def u32_ok_def rec_len_def[of "Record_new _ _ _ _"] Record_new_fields)
  have "embeds crc32_ieee carrier_record 29 forged_record"
    unfolding embeds_def by (rule exI[of _ "[0, 0, 0, 0, 0]"]) (simp add: carrier_record_def Record_new_fields)
  then show ?thesis
    using forged_record_is_read[of demo_one_read carrier_record forged_record crc32_ieee 0] demo_one_read_ok e r
    by (simp add: write_wraps_def)
qed

end
