(* ===== verification/Persistent_Crash.thy ===== *)
theory Persistent_Crash
  imports Persistent_Serial Persistent_Faults
begin

text \<open>
  A process that ends in the middle of \<open>PersistentRingBuffer::write\<close>. The changes it made to
  the mapping stay in the file, those it was about to make do not, and a copy that was
  interrupted leaves any mixture of old and new bytes. What the next process finds when it opens
  the file depends on whether the record wrapped.
\<close>

section \<open>Interrupted writes\<close>

definition torn :: "bytes \<Rightarrow> bytes \<Rightarrow> bytes \<Rightarrow> bool" where
  "torn old new m \<longleftrightarrow> length m = length old \<and> (\<forall>i<length m. m ! i = old ! i \<or> m ! i = new ! i)"

text \<open>\<open>m\<close> is a content of the file when a write stops in its change number \<open>k\<close>, from zero.\<close>

definition stopped_in_write :: "hasher \<Rightarrow> u32 \<Rightarrow> log_record \<Rightarrow> prb \<Rightarrow> nat \<Rightarrow> bytes \<Rightarrow> bool" where
  "stopped_in_write crc pad r b k m \<longleftrightarrow>
     (case (exec (take k (write_effects crc pad r)) b, exec (take (Suc k) (write_effects crc pad r)) b) of
        (Some b1, Some b2) \<Rightarrow> torn (buf_mmap b1) (buf_mmap b2) m
      | _ \<Rightarrow> False)"

lemma torn_refl [simp]: "torn x x m \<longleftrightarrow> m = x"
  by (auto simp: torn_def intro: nth_equalityI)

lemma torn_take:
  assumes "torn x y m" and "take n x = take n z" and "take n y = take n z" and "length x = length z"
  shows "take n m = take n z"
proof (rule nth_equalityI)
  fix i assume i: "i < length (take n m)"
  then have "x ! i = z ! i" "y ! i = z ! i"
    using assms by (metis length_take min_less_iff_conj nth_take)+
  then show "take n m ! i = take n z ! i" using i assms(1) by (auto simp: torn_def)
qed (use assms in \<open>simp add: torn_def\<close>)

lemma mapping_after:
  assumes "prb_inv b" and "vec_ok r" and "rec_len r \<le> unat (buf_size b)" and "k < 6"
  defines "at \<equiv> 48 + write_offset r b"
  obtains b' where "exec (take k (write_effects crc pad r)) b = Some b'"
    "buf_mmap b' = (if k \<le> 1 then buf_mmap b
       else if k = 2 then put (buf_mmap b) at (encode_disk_header (header_for crc r))
       else put (buf_mmap b) at (record_image crc r))"
proof -
  note states = write_effect_states[OF assms(1-3)]
  have advance: "buf_mmap (write_advance r b') = buf_mmap b'" for b' by (simp add: write_advance_def)
  have "k = 0 \<or> k = 1 \<or> k = 2 \<or> k = 3 \<or> k = 4 \<or> k = 5" using assms(4) by linarith
  then have "\<exists>b'. exec (take k (write_effects crc pad r)) b = Some b' \<and>
    buf_mmap b' = (if k \<le> 1 then buf_mmap b
       else if k = 2 then put (buf_mmap b) at (encode_disk_header (header_for crc r))
       else put (buf_mmap b) at (record_image crc r))"
    by (elim disjE) (simp_all add: write_effects_def states advance at_def)
  then show ?thesis using that by blast
qed

text \<open>Before the control block is stored, everything in front of the record is unchanged.\<close>

lemma stopped_in_write_keeps:
  assumes "prb_inv b" and "vec_ok r" and "rec_len r \<le> unat (buf_size b)" and "k < 5"
    and "stopped_in_write crc pad r b k m"
  shows "length m = length (buf_mmap b)"
    and "take (48 + write_offset r b) m = take (48 + write_offset r b) (buf_mmap b)"
    and "3 \<le> k \<Longrightarrow> m = put (buf_mmap b) (48 + write_offset r b) (record_image crc r)"
proof -
  note room = write_room[OF assms(1,3)]
  have room': "48 + write_offset r b + 24 \<le> length (buf_mmap b)" using room rec_len_ge[of r] by linarith
  let ?at = "\<lambda>k. if k \<le> 1 then buf_mmap b
       else if k = 2 then put (buf_mmap b) (48 + write_offset r b) (encode_disk_header (header_for crc r))
       else put (buf_mmap b) (48 + write_offset r b) (record_image crc r)"
  have k: "k < 6" "Suc k < 6" using assms(4) by simp_all
  obtain b1 where b1: "exec (take k (write_effects crc pad r)) b = Some b1" "buf_mmap b1 = ?at k"
    by (rule mapping_after[OF assms(1-3) k(1)])
  obtain b2 where b2: "exec (take (Suc k) (write_effects crc pad r)) b = Some b2" "buf_mmap b2 = ?at (Suc k)"
    by (rule mapping_after[OF assms(1-3) k(2)])
  have torn: "torn (buf_mmap b1) (buf_mmap b2) m"
    using assms(5) b1(1) b2(1) by (simp add: stopped_in_write_def)
  have len: "length (buf_mmap b1) = length (buf_mmap b)" using b1(2) room(1) room' by simp
  show "length m = length (buf_mmap b)" using torn len by (simp add: torn_def)
  show "take (48 + write_offset r b) m = take (48 + write_offset r b) (buf_mmap b)"
    using room(1) room' by (intro torn_take[OF torn _ _ len]) (simp_all add: b1(2) b2(2) take_put_ge)
  show "m = put (buf_mmap b) (48 + write_offset r b) (record_image crc r)" if "3 \<le> k"
    using torn that b1(2) b2(2) by simp
qed

section \<open>Opening the file again\<close>

text \<open>The control block in the file is the one before the write, and decides about the opening.\<close>

definition reopened :: "string \<Rightarrow> bytes \<Rightarrow> prb \<Rightarrow> prb" where
  "reopened path m b = b\<lparr>buf_path := path, buf_mmap := m\<rparr>"

lemma reopen_stopped:
  assumes "prb_inv b" and "length m = length (buf_mmap b)" and "take 48 m = take 48 (buf_mmap b)"
  shows "prb_inv (reopened path m b)"
    and "PersistentRingBuffer_new crc pad open_ok path sz m =
      ((if cb_verify_crc crc (buf_control b) then Ok (reopened path m b) else Err InvalidBuffer), m)"
proof -
  have "prb_inv (b\<lparr>buf_mmap := m\<rparr>)"
    using assms by (simp add: prb_inv_def subslice_def)
  then show "prb_inv (reopened path m b)" by (simp add: prb_inv_def reopened_def)
  show "PersistentRingBuffer_new crc pad open_ok path sz m =
      ((if cb_verify_crc crc (buf_control b) then Ok (reopened path m b) else Err InvalidBuffer), m)"
    using reopen_eq[OF \<open>prb_inv (b\<lparr>buf_mmap := m\<rparr>)\<close>, of crc pad path sz] by (simp add: reopened_def)
qed

lemma take_mono_eq: "take n x = take n y \<Longrightarrow> k \<le> n \<Longrightarrow> take k x = take k y"
  by (metis min.absorb1 take_take)

section \<open>Concrete buffers\<close>

lemma stopped_before:
  assumes "exec (take k (write_effects crc pad r)) b = Some b1"
    and "exec (take (Suc k) (write_effects crc pad r)) b = Some b2"
  shows "stopped_in_write crc pad r b k (buf_mmap b1)"
  using assms by (simp add: stopped_in_write_def torn_def)

lemma stopped_exists:
  assumes "prb_inv b" and "vec_ok r" and "rec_len r \<le> unat (buf_size b)" and "k < 5"
  shows "\<exists>m. stopped_in_write crc pad r b k m"
proof -
  have k: "k < 6" "Suc k < 6" using assms(4) by simp_all
  obtain b1 b2 where "exec (take k (write_effects crc pad r)) b = Some b1"
    "exec (take (Suc k) (write_effects crc pad r)) b = Some b2"
    using mapping_after[OF assms(1-3) k(1), of crc pad] mapping_after[OF assms(1-3) k(2), of crc pad] by metis
  then show ?thesis using stopped_before by blast
qed

text \<open>
  A buffer that a write of one record to a new, empty file leads to and whose file opens again:
  for these two sizes the checksum of the control block is the same before and after the write,
  so the checksum over its own field matches (as in \<open>reopen_after_write\<close>).
\<close>

definition wide_record :: "byte \<Rightarrow> log_record" where
  "wide_record v = Record_new crc32_ieee (Some 8) (replicate 29162 v) 3"

lemma wide_record_ok: "u32_ok (wide_record v)" "vec_ok (wide_record v)" "rec_len (wide_record v) = 29186"
  by (simp_all add: u32_ok_def vec_ok_def rec_len_def wide_record_def)

lemma wide_hashed:
  "cb_hashed \<lparr>cb_magic = 0x5348524C, cb_version = 1, cb_buffer_size = 39240, cb_write_pos = 0,
      cb_read_pos = 0, cb_wrap_count = 0, cb_crc32 = 0\<rparr>
   = [0x4C, 0x52, 0x48, 0x53, 1, 0, 0, 0, 72, 153, 0, 0, 0, 0, 0, 0, 0, 0, 0, 0, 0, 0, 0, 0,
      0, 0, 0, 0, 0, 0, 0, 0, 0, 0, 0, 0, 0, 0, 0, 0, 0, 0, 0, 0]"
  "cb_hashed \<lparr>cb_magic = 0x5348524C, cb_version = 1, cb_buffer_size = 39240, cb_write_pos = 29186,
      cb_read_pos = 0, cb_wrap_count = 0, cb_crc32 = 0x32F08C02\<rparr>
   = [0x4C, 0x52, 0x48, 0x53, 1, 0, 0, 0, 72, 153, 0, 0, 0, 0, 0, 0, 2, 114, 0, 0, 0, 0, 0, 0,
      0, 0, 0, 0, 0, 0, 0, 0, 0, 0, 0, 0, 0, 0, 0, 0, 2, 140, 240, 50]"
  by (simp_all add: cb_hashed_def encode_control_block_def le_bytes_def upt_rec)

lemma wide_control:
  "ControlBlock_new crc32_ieee 39240 =
     \<lparr>cb_magic = 0x5348524C, cb_version = 1, cb_buffer_size = 39240, cb_write_pos = 0,
      cb_read_pos = 0, cb_wrap_count = 0, cb_crc32 = 0x32F08C02\<rparr>"
  "cb_update_crc crc32_ieee \<lparr>cb_magic = 0x5348524C, cb_version = 1, cb_buffer_size = 39240,
      cb_write_pos = 29186, cb_read_pos = 0, cb_wrap_count = 0, cb_crc32 = 0x32F08C02\<rparr> =
     \<lparr>cb_magic = 0x5348524C, cb_version = 1, cb_buffer_size = 39240, cb_write_pos = 29186,
      cb_read_pos = 0, cb_wrap_count = 0, cb_crc32 = 0x32F08C02\<rparr>"
  by (simp_all add: ControlBlock_new_def cb_update_crc_def ControlBlock_MAGIC_def
      ControlBlock_VERSION_def wide_hashed crc32_ieee_eval)

lemma reopenable_buffer:
  obtains b where "prb_reachable crc32_ieee 39240 b" "holds_log crc32_ieee b [wide_record 0]"
    "buf_size b = 39240" "unat (cb_write_pos (buf_control b)) = 29186"
    "cb_read_pos (buf_control b) = 0" "cb_verify_crc crc32_ieee (buf_control b)"
proof -
  let ?r = "wide_record 0"
  obtain b0 where b0: "PersistentRingBuffer_new crc32_ieee 0 open_ok ''log'' 39240 [] = (Ok b0, buf_mmap b0)"
    "prb_inv b0" "represents crc32_ieee b0 []" "buf_size b0 = 39240"
    "buf_control b0 = ControlBlock_new crc32_ieee 39240"
    using new_file[of 39240 crc32_ieee 0 "''log''"] by auto
  have fits: "rec_len ?r \<le> unat (buf_size b0)" using b0(4) wide_record_ok(3) by simp
  let ?b = "written crc32_ieee 0 ?r b0"
  have "snd (prb_write crc32_ieee 0 None ?r b0) = ?b"
    using prb_write_eq[OF b0(2) wide_record_ok(2) fits] by simp
  then have reach: "prb_reachable crc32_ieee 39240 ?b"
    using prb_reachable.reach_step[OF prb_reachable.reach_new[OF b0(1)]
        prb_step.step_write[OF wide_record_ok(2), of crc32_ieee b0 0 None]] by metis
  have log: "holds_log crc32_ieee ?b [?r]"
    using written_inv[OF b0(2) fits] written_represents[OF b0(2) fits b0(3), of 0] wide_record_ok(3) b0(4)
    by (simp add: holds_log_def log_write_def)
  have nowrap: "\<not> write_wraps ?r b0" "write_offset ?r b0 = 0"
    using b0(4,5) wide_record_ok(3) by (simp_all add: write_wraps_def write_offset_def wide_control(1))
  have ctl: "buf_control ?b = \<lparr>cb_magic = 0x5348524C, cb_version = 1, cb_buffer_size = 39240,
      cb_write_pos = 29186, cb_read_pos = 0, cb_wrap_count = 0, cb_crc32 = 0x32F08C02\<rparr>"
    using b0(5) nowrap wide_record_ok(3)
    by (simp add: written_def control_after_def control_wrapped_def wide_control)
  have "cb_verify_crc crc32_ieee (buf_control ?b)"
    using ctl wide_control(2) by (simp add: cb_verify_crc_def cb_update_crc_def)
  then show thesis using that[OF reach log] ctl b0(4) by (simp add: written_def)
qed

section \<open>A write that does not wrap\<close>

text \<open>
  C21: a write that does not wrap and is interrupted before it stores the control block,
  wherever it stops and whatever its interrupted copy leaves, does no harm: the file opens
  exactly when it would have opened before the write, and then \<open>read_all\<close> returns the records that
  were unread before it, and no others.
\<close>

theorem interrupted_write_keeps_log:
  assumes "holds_log crc b (xs @ ys)" and "unat (cb_read_pos (buf_control b)) = log_len xs"
    and "\<forall>q\<in>set ys. u32_ok q" and "vec_ok r" and "rec_len r \<le> unat (buf_size b)"
    and "\<not> write_wraps r b" and "k < 5" and "stopped_in_write crc pad r b k m"
  shows "\<exists>b' b''. PersistentRingBuffer_new crc pad' open_ok path sz m =
       ((if cb_verify_crc crc (buf_control b) then Ok b' else Err InvalidBuffer), m) \<and>
     holds_log crc b' (xs @ ys) \<and> buf_control b' = buf_control b \<and>
     read_all crc pad' None b' = Some (Ok (map (stored crc) ys), b'')"
proof -
  have inv: "prb_inv b" and rep: "represents crc b (xs @ ys)" using assms(1) by (simp_all add: holds_log_def)
  note kept = stopped_in_write_keeps[OF inv assms(4,5,7,8)]
  have off: "write_offset r b = log_len (xs @ ys)"
    using assms(6) rep by (simp add: write_offset_def represents_def)
  have "take 48 m = take 48 (buf_mmap b)" by (rule take_mono_eq[OF kept(2)]) simp
  note new = reopen_stopped[OF inv kept(1) this]
  have "subslice m 48 (log_len (xs @ ys)) = subslice (buf_mmap b) 48 (log_len (xs @ ys))"
    using kept(2) unfolding off subslice_def take_drop by (simp only: add.commute)
  then have "represents crc (reopened path m b) (xs @ ys)"
    using rep by (simp add: represents_def reopened_def)
  moreover have "buf_control (reopened path m b) = buf_control b" by (simp add: reopened_def)
  moreover obtain b'' where "read_all crc pad' None (reopened path m b) = Some (Ok (map (stored crc) ys), b'')"
    using read_all_log[OF new(1)[of path] calculation(1) _ assms(3), of pad'] assms(2) calculation(2) by auto
  ultimately show ?thesis
    using new(1)[of path] new(2)[of crc pad' path sz]
    by (intro exI[of _ "reopened path m b"] exI[of _ b'']) (simp add: holds_log_def)
qed

theorem interrupted_write_keeps_log_witness:
  "\<exists>b m b' b''. prb_reachable crc32_ieee 39240 b \<and> stopped_in_write crc32_ieee 0 demo_record b 2 m \<and>
     PersistentRingBuffer_new crc32_ieee 0 open_ok ''log'' 0 m = (Ok b', m) \<and>
     read_all crc32_ieee 0 None b' = Some (Ok [stored crc32_ieee (wide_record 0)], b'')"
proof -
  obtain b where b: "prb_reachable crc32_ieee 39240 b" "holds_log crc32_ieee b [wide_record 0]"
    "buf_size b = 39240" "unat (cb_write_pos (buf_control b)) = 29186" "cb_read_pos (buf_control b) = 0"
    "cb_verify_crc crc32_ieee (buf_control b)"
    by (rule reopenable_buffer)
  then have inv: "prb_inv b" by (simp add: holds_log_def)
  obtain m where m: "stopped_in_write crc32_ieee 0 demo_record b 2 m"
    using stopped_exists[OF inv demo_record_ok(2), of 2 crc32_ieee 0] b(3) demo_record_ok(3) by auto
  from interrupted_write_keeps_log[OF _ _ _ demo_record_ok(2) _ _ _ m, of "[]" "[wide_record 0]" 0 "''log''" 0]
  show ?thesis
    using m b inv demo_record_ok wide_record_ok(1) by (auto simp: write_wraps_def)
qed

section \<open>A write that wraps\<close>

lemma read_all_loop_extends:
  assumes "read_all_loop crc b pos acc = Some (Ok (recs, pos'))"
  shows "\<exists>more. recs = acc @ more"
proof -
  let ?P = "\<lambda>crc b pos acc res. \<forall>recs pos'. res = Ok (recs, pos') \<longrightarrow> (\<exists>more. recs = acc @ more)"
  have "?P crc b pos acc (Ok (recs, pos') :: (log_record list \<times> u64) presult)"
  proof (rule read_all_loop.raw_induct[where P = ?P])
    fix loop :: "hasher \<Rightarrow> prb \<Rightarrow> u64 \<Rightarrow> log_record list \<Rightarrow> (log_record list \<times> u64) presult option"
      and crc b pos acc res
    assume IH: "\<And>crc b pos acc res. loop crc b pos acc = Some res \<Longrightarrow> ?P crc b pos acc res"
      and step: "(if pos < cb_write_pos (buf_control b) then
          (case read_at crc pos b of
             Ok None \<Rightarrow> loop crc b (pos + Header_SIZE) acc
           | Ok (Some rn) \<Rightarrow> loop crc b (pos + snd rn) (acc @ [fst rn])
           | Err e \<Rightarrow> Some (Err e) | Panic p \<Rightarrow> Some (Panic p) | Undefined \<Rightarrow> Some Undefined)
        else Some (Ok (acc, pos))) = Some res"
    show "?P crc b pos acc res"
      using step IH[of crc b "pos + Header_SIZE" acc res] IH[of crc b "pos + snd rn" "acc @ [fst rn]" res for rn]
      by (fastforce split: if_splits outcome.splits option.splits)
  qed (rule assms)
  then show ?thesis by blast
qed

text \<open>
  C22: a write that wraps and is interrupted when its record is complete and the control block
  is not stored yet damages the log. The two conditions are that no record had been read before
  (the read position is zero) and, for what follows, that the file opens, which it does exactly
  when the control block stored before the write verifies. Then the new record stands in the
  place of the oldest one, and \<open>read_all\<close> fails or returns the new record first, never the
  oldest unread record if the two differ.
\<close>

theorem interrupted_wrap_damages_log:
  assumes "holds_log crc b (q # qs)" and "cb_read_pos (buf_control b) = 0"
    and "u32_ok r" and "rec_len r \<le> unat (buf_size b)" and "write_wraps r b"
    and "k = 3 \<or> k = 4" and "stopped_in_write crc pad r b k m"
  shows "\<exists>b'. PersistentRingBuffer_new crc pad' open_ok path sz m =
       ((if cb_verify_crc crc (buf_control b) then Ok b' else Err InvalidBuffer), m) \<and>
     buf_control b' = buf_control b \<and>
     read_at crc 0 b' = Ok (Some (stored crc r, word_of_nat (rec_len r))) \<and>
     (\<forall>flush recs b''. read_all crc pad' flush b' = Some (Ok recs, b'') \<longrightarrow> (\<exists>more. recs = stored crc r # more))"
proof -
  have inv: "prb_inv b" and rep: "represents crc b (q # qs)" using assms(1) by (simp_all add: holds_log_def)
  let ?b = "reopened path m b"
  have k: "k < 5" "3 \<le> k" using assms(6) by auto
  note kept = stopped_in_write_keeps[OF inv u32_imp_vec[OF assms(3)] assms(4) k(1) assms(7)]
  have off: "write_offset r b = 0" using assms(5) by (simp add: write_offset_def)
  then have m: "m = put (buf_mmap b) 48 (record_image crc r)" and head: "take 48 m = take 48 (buf_mmap b)"
    using kept(2) kept(3)[OF k(2)] by simp_all
  note new = reopen_stopped[OF inv kept(1) head]
  have "subslice (buf_mmap ?b) (48 + 0) (rec_len r) = record_image crc r"
    using m slice_put_same[of 48 "record_image crc r" "buf_mmap b"] write_room[OF inv assms(4)] off
    by (simp add: reopened_def)
  then have at: "read_at crc 0 ?b = Ok (Some (stored crc r, word_of_nat (rec_len r)))"
    using read_at_image[OF new(1)[of path] _ _ assms(3), of 0] assms(4) by (simp add: reopened_def)
  have ctl: "buf_control ?b = buf_control b" by (simp add: reopened_def)
  have "0 < unat (cb_write_pos (buf_control b))"
    using rep rec_len_ge[of q] by (simp add: represents_def)
  then have pos: "0 < cb_write_pos (buf_control b)" by (simp add: word_less_nat_alt)
  have "\<exists>more. recs = stored crc r # more" if read: "read_all crc pad' flush ?b = Some (Ok recs, b'')" for flush recs b''
  proof -
    obtain pos' where "read_all_loop crc ?b 0 [] = Some (Ok (recs, pos'))"
      using read pos assms(2) ctl
      by (auto simp: read_all_def Let_def split: if_splits option.splits outcome.splits prod.splits)
    then have "read_all_loop crc ?b (word_of_nat (rec_len r)) [stored crc r] = Some (Ok (recs, pos'))"
      using pos ctl at by (subst (asm) read_all_loop.simps) simp
    then show ?thesis using read_all_loop_extends by fastforce
  qed
  then show ?thesis using new(2)[of crc pad' path sz] ctl at by (intro exI[of _ ?b]) auto
qed

theorem interrupted_wrap_damages_log_witness:
  "\<exists>b m b'. prb_reachable crc32_ieee 39240 b \<and> holds_log crc32_ieee b [wide_record 0] \<and>
     stopped_in_write crc32_ieee 0 (wide_record 1) b 3 m \<and>
     PersistentRingBuffer_new crc32_ieee 0 open_ok ''log'' 0 m = (Ok b', m) \<and>
     read_at crc32_ieee 0 b' = Ok (Some (stored crc32_ieee (wide_record 1), word_of_nat (rec_len (wide_record 1))))"
proof -
  obtain b where b: "prb_reachable crc32_ieee 39240 b" "holds_log crc32_ieee b [wide_record 0]"
    "buf_size b = 39240" "unat (cb_write_pos (buf_control b)) = 29186" "cb_read_pos (buf_control b) = 0"
    "cb_verify_crc crc32_ieee (buf_control b)"
    by (rule reopenable_buffer)
  then have inv: "prb_inv b" by (simp add: holds_log_def)
  obtain m where m: "stopped_in_write crc32_ieee 0 (wide_record 1) b 3 m"
    using stopped_exists[OF inv wide_record_ok(2), of 1 3 crc32_ieee 0] b(3) wide_record_ok(3)[of 1] by auto
  from interrupted_wrap_damages_log[OF b(2,5) wide_record_ok(1) _ _ _ m, of 0 "''log''" 0]
  show ?thesis
    using m b inv wide_record_ok(3)[of 1] by (auto simp: write_wraps_def)
qed

end
