(* ===== verification/Cursor_Concurrent.thy ===== *)
theory Cursor_Concurrent
  imports Cursor_Interference
begin

text \<open>
  \<open>Cursor::next\<close> while other threads write. The call locks the buffer once to read the record
  and once more to look at the control block, and the buffer may change in between:
  \<open>seen k\<close> is the buffer at the \<open>k\<close>-th of these accesses. The number of accesses made so far
  is threaded through.
\<close>

section \<open>Reading with interference\<close>

fun cursor_next_seen ::
  "hasher \<Rightarrow> nat \<Rightarrow> (nat \<Rightarrow> prb) \<Rightarrow> nat \<Rightarrow> cursor \<Rightarrow> log_record option presult \<times> cursor \<times> nat" where
  "cursor_next_seen crc 0 seen k c = (Panic StackOverflow, c, k)"
| "cursor_next_seen crc (Suc frames) seen k c =
     (if cur_at_end c then (Ok None, c, k)
      else
      case read_at crc (pos_offset (cur_position c)) (seen k) of
        Err e \<Rightarrow> (Err e, c, Suc k)
      | Panic p \<Rightarrow> (Panic p, c, Suc k)
      | Undefined \<Rightarrow> (Undefined, c, Suc k)
      | Ok (Some (record, sz)) \<Rightarrow>
          (let p = (cur_position c)\<lparr>pos_offset := pos_offset (cur_position c) + sz\<rparr>;
               control = get_control_block (seen (Suc k))
           in (Ok (Some record),
               \<lparr>cur_position = p,
                cur_at_end = (pos_offset p = cb_write_pos control \<and>
                              pos_wrap_count p = cb_wrap_count control)\<rparr>, k + 2))
      | Ok None \<Rightarrow>
          (let p = (cur_position c)\<lparr>pos_offset := pos_offset (cur_position c) + Header_SIZE\<rparr>;
               control = get_control_block (seen (Suc k));
               fin = (cb_write_pos control \<le> pos_offset p \<and>
                      cb_wrap_count control \<le> pos_wrap_count p);
               c' = \<lparr>cur_position = p, cur_at_end = fin\<rparr>
           in if fin then (Ok None, c', k + 2) else cursor_next_seen crc frames seen (k + 2) c'))"

text \<open>\<open>n\<close> calls of \<open>next\<close>, as the loop of \<open>read_batch\<close> makes them.\<close>

fun nexts_seen ::
  "hasher \<Rightarrow> nat \<Rightarrow> (nat \<Rightarrow> prb) \<Rightarrow> nat \<Rightarrow> nat \<Rightarrow> cursor \<Rightarrow> log_record list \<Rightarrow>
   log_record list presult \<times> cursor \<times> nat" where
  "nexts_seen crc frames seen 0 k c records = (Ok records, c, k)"
| "nexts_seen crc frames seen (Suc n) k c records =
     (case cursor_next_seen crc frames seen k c of
        (Ok (Some record), c', k') \<Rightarrow> nexts_seen crc frames seen n k' c' (records @ [record])
      | (Ok None, c', k') \<Rightarrow> (Ok records, c', k')
      | (Err e, c', k') \<Rightarrow> (Err e, c', k')
      | (Panic p, c', k') \<Rightarrow> (Panic p, c', k')
      | (Undefined, c', k') \<Rightarrow> (Undefined, c', k'))"

text \<open>Without interference these are the operations of the cursor.\<close>

lemma next_seen_alone:
  "\<exists>k'. cursor_next_seen crc frames (\<lambda>_. b) k c = (fst (cursor_next crc frames b c), snd (cursor_next crc frames b c), k')"
  by (induction frames arbitrary: k c) (auto simp: Let_def split: outcome.splits option.splits prod.splits)

lemma nexts_seen_alone:
  "\<exists>k'. nexts_seen crc frames (\<lambda>_. b) n k c acc =
     (fst (read_batch_loop crc frames b n c acc), snd (read_batch_loop crc frames b n c acc), k')"
proof (induction n arbitrary: k c acc)
  case (Suc n)
  obtain res c' where r: "cursor_next crc frames b c = (res, c')" by fastforce
  obtain k' where "cursor_next_seen crc frames (\<lambda>_. b) k c = (res, c', k')"
    using next_seen_alone[of crc frames b k c] r by auto
  then show ?case using r Suc.IH by (auto split: outcome.splits option.splits)
qed simp

section \<open>A lap on which records are appended\<close>

text \<open>
  The buffers seen belong to one lap of a log that only grows: \<open>log k\<close> is the log at the
  \<open>k\<close>-th access.
\<close>

definition growing :: "hasher \<Rightarrow> (nat \<Rightarrow> prb) \<Rightarrow> (nat \<Rightarrow> log_record list) \<Rightarrow> bool" where
  "growing crc seen log \<longleftrightarrow> (\<forall>k. holds_log crc (seen k) (log k) \<and> (\<forall>r\<in>set (log k). u32_ok r) \<and>
     cb_wrap_count (buf_control (seen k)) = cb_wrap_count (buf_control (seen 0)) \<and>
     (\<exists>rs. log (Suc k) = log k @ rs))"

lemma growingD:
  assumes "growing crc seen log"
  shows "holds_log crc (seen k) (log k)" "r \<in> set (log k) \<Longrightarrow> u32_ok r"
    "cb_wrap_count (buf_control (seen k)) = cb_wrap_count (buf_control (seen 0))"
  using assms unfolding growing_def by blast+

lemma growing_mono: "growing crc seen log \<Longrightarrow> k \<le> j \<Longrightarrow> \<exists>rs. log j = log k @ rs"
proof (induction j)
  case (Suc j)
  show ?case
  proof (cases "k = Suc j")
    case False
    then obtain rs where "log j = log k @ rs" using Suc by auto
    moreover obtain ss where "log (Suc j) = log j @ ss" using Suc.prems(1) by (auto simp: growing_def)
    ultimately show ?thesis by auto
  qed simp
qed simp

text \<open>
  A cursor that has returned the records \<open>xs\<close> of the lap: it is marked as ended when that was
  the whole log at some access before, and otherwise there is more to read.
\<close>

definition cursor_on_lap ::
  "hasher \<Rightarrow> (nat \<Rightarrow> prb) \<Rightarrow> (nat \<Rightarrow> log_record list) \<Rightarrow> nat \<Rightarrow> log_record list \<Rightarrow> cursor \<Rightarrow> bool" where
  "cursor_on_lap crc seen log k xs c \<longleftrightarrow>
     cur_position c = \<lparr>pos_offset = word_of_nat (log_len xs),
       pos_wrap_count = cb_wrap_count (buf_control (seen 0))\<rparr> \<and>
     (\<exists>ys. log k = xs @ ys) \<and>
     (if cur_at_end c then \<exists>j\<le>k. log j = xs else \<exists>y ys. log k = xs @ y # ys)"

lemma next_seen_on_lap:
  assumes g: "growing crc seen log" and c: "cursor_on_lap crc seen log k xs c"
    and more: "\<not> cur_at_end c"
  shows "\<exists>y ys c'. log k = xs @ y # ys \<and>
     cursor_next_seen crc (Suc frames) seen k c = (Ok (Some (stored crc y)), c', k + 2) \<and>
     cursor_on_lap crc seen log (Suc k) (xs @ [y]) c'"
proof -
  obtain y ys where y: "log k = xs @ y # ys" using c more by (auto simp: cursor_on_lap_def)
  have pos: "cur_position c = \<lparr>pos_offset = word_of_nat (log_len xs),
      pos_wrap_count = cb_wrap_count (buf_control (seen 0))\<rparr>" using c by (simp add: cursor_on_lap_def)
  have hk: "holds_log crc (seen k) (xs @ y # ys)" "u32_ok y"
    using growingD(1)[OF g, of k] growingD(2)[OF g, of y k] y by simp_all
  have at: "read_at crc (word_of_nat (log_len xs)) (seen k) = Ok (Some (stored crc y, word_of_nat (rec_len y)))"
    using read_at_record[of "seen k" crc xs y ys] hk by (simp add: holds_log_def)
  obtain zs where zs: "log (Suc k) = (xs @ [y]) @ zs" using growing_mono[OF g, of k "Suc k"] y by auto
  then have h: "holds_log crc (seen (Suc k)) ((xs @ [y]) @ zs)" using growingD(1)[OF g, of "Suc k"] by simp
  have wc: "cb_wrap_count (buf_control (seen (Suc k))) = cb_wrap_count (buf_control (seen 0))"
    by (rule growingD(3)[OF g])
  have fin: "word_of_nat (log_len xs) + word_of_nat (rec_len y) = cb_write_pos (buf_control (seen (Suc k))) \<longleftrightarrow> zs = []"
    using log_offset_eq_end[OF h] by simp
  let ?c = "\<lparr>cur_position = \<lparr>pos_offset = word_of_nat (log_len (xs @ [y])),
      pos_wrap_count = cb_wrap_count (buf_control (seen 0))\<rparr>, cur_at_end = (zs = [])\<rparr>"
  have "cursor_next_seen crc (Suc frames) seen k c = (Ok (Some (stored crc y)), ?c, k + 2)"
    using more pos at fin wc by (simp add: get_control_block_def Let_def)
  moreover have "cursor_on_lap crc seen log (Suc k) (xs @ [y]) ?c"
    using zs by (cases zs) (auto simp: cursor_on_lap_def)
  ultimately show ?thesis using y by blast
qed

lemma cursor_on_lap_mono:
  assumes "growing crc seen log" and "cursor_on_lap crc seen log k xs c" and "k \<le> j"
  shows "cursor_on_lap crc seen log j xs c"
  using assms(2,3) growing_mono[OF assms(1,3)] unfolding cursor_on_lap_def
  by (auto split: if_splits intro: order_trans)

lemma nexts_seen_on_lap:
  assumes g: "growing crc seen log"
  shows "cursor_on_lap crc seen log k xs c \<Longrightarrow>
    \<exists>m c' k' zs. nexts_seen crc (Suc frames) seen n k c acc = (Ok (acc @ map (stored crc) (take m zs)), c', k') \<and>
      k \<le> k' \<and> m \<le> n \<and> m \<le> length zs \<and> log k' = xs @ zs \<and> (m < n \<longrightarrow> (\<exists>j\<le>k'. log j = xs @ take m zs))"
proof (induction n arbitrary: k xs c acc)
  case 0
  then obtain zs where "log k = xs @ zs" by (auto simp: cursor_on_lap_def)
  then show ?case by auto
next
  case (Suc n)
  show ?case
  proof (cases "cur_at_end c")
    case True
    then obtain j zs where "j \<le> k" "log j = xs" "log k = xs @ zs" using Suc.prems by (auto simp: cursor_on_lap_def)
    then show ?thesis using True by (intro exI[of _ 0]) (auto intro!: exI[of _ zs])
  next
    case False
    obtain y ys c1 where c1: "log k = xs @ y # ys"
      "cursor_next_seen crc (Suc frames) seen k c = (Ok (Some (stored crc y)), c1, k + 2)"
      "cursor_on_lap crc seen log (Suc k) (xs @ [y]) c1" using next_seen_on_lap[OF g Suc.prems False] by blast
    then have "cursor_on_lap crc seen log (k + 2) (xs @ [y]) c1" by (intro cursor_on_lap_mono[OF g c1(3)]) simp
    from Suc.IH[OF this, of "acc @ [stored crc y]"] obtain m c' k' zs where
      m: "nexts_seen crc (Suc frames) seen n (k + 2) c1 (acc @ [stored crc y])
          = (Ok ((acc @ [stored crc y]) @ map (stored crc) (take m zs)), c', k')"
        "k + 2 \<le> k'" "m \<le> n" "m \<le> length zs" "log k' = (xs @ [y]) @ zs"
        "m < n \<longrightarrow> (\<exists>j\<le>k'. log j = (xs @ [y]) @ take m zs)" by blast
    then show ?thesis using c1(2)
      by (intro exI[of _ "Suc m"] exI[of _ c'] exI[of _ k'] exI[of _ "y # zs"]) auto
  qed
qed

text \<open>
  C7: a cursor that is used while other threads append records. Whatever is appended between
  any two accesses of the cursor, as long as the write position does not wrap, its calls of
  \<open>next\<close> return the records of the log one after the other, none lost, repeated or damaged;
  and they stop only after all the records that were in the log at one moment of the run.
\<close>

theorem concurrent_reads_in_order:
  assumes "growing crc seen log" and "log 0 = xs @ ys"
    and "unat (cb_read_pos (buf_control (seen 0))) = log_len xs" and "0 < frames"
  shows "\<exists>m c k zs. nexts_seen crc frames seen n 1 (Cursor_new (seen 0) None) []
       = (Ok (map (stored crc) (take m zs)), c, k) \<and>
     log k = xs @ zs \<and> m \<le> n \<and> m \<le> length zs \<and> (m < n \<longrightarrow> (\<exists>j\<le>k. log j = xs @ take m zs))"
proof -
  obtain f where f: "frames = Suc f" using assms(4) by (cases frames) auto
  have "cursor_between crc (seen 0) xs ys (Cursor_new (seen 0) None)"
    using growingD(1)[OF assms(1), of 0] growingD(2)[OF assms(1), of _ 0] assms(2,3)
    by (intro Cursor_new_between) auto
  then have "cursor_on_lap crc seen log 0 xs (Cursor_new (seen 0) None)"
    using assms(2) by (cases ys) (auto simp: cursor_on_lap_def cursor_between_def)
  then have "cursor_on_lap crc seen log 1 xs (Cursor_new (seen 0) None)"
    by (rule cursor_on_lap_mono[OF assms(1)]) simp
  from nexts_seen_on_lap[OF assms(1) this, of f n "[]"] show ?thesis unfolding f by (metis append_Nil)
qed

text \<open>The second record is appended between reading the first one and looking for the end.\<close>

definition demo_seen :: "nat \<Rightarrow> prb" where
  "demo_seen k = (if k < 2 then written crc32_ieee 0 demo_record demo_buffer else demo_filled)"

lemma demo_seen_growing: "growing crc32_ieee demo_seen (\<lambda>k. replicate (if k < 2 then 1 else 2) demo_record)"
proof -
  have "cb_wrap_count (buf_control (written crc32_ieee 0 demo_record demo_buffer)) = 0"
    using demo_buffer_ok(3,4) demo_record_ok(3)
    by (simp add: written_def control_after_def control_wrapped_def write_wraps_def)
       (simp add: demo_buffer_def ControlBlock_new_def)
  then show ?thesis
    using demo_one_ok demo_filled_ok demo_filled_counts demo_record_ok
    by (auto simp: growing_def demo_seen_def holds_log_def numeral_2_eq_2 less_Suc_eq)
qed

theorem concurrent_reads_in_order_witness:
  "\<exists>n c k. nexts_seen crc32_ieee 1 demo_seen 5 1 (Cursor_new (demo_seen 0) None) []
     = (Ok (replicate n demo_record), c, k) \<and> (n = 1 \<or> n = 2)"
proof -
  have "cb_read_pos (buf_control (demo_seen 0)) = 0"
    using written_control(2)[OF demo_buffer_ok(1), of demo_record crc32_ieee] demo_buffer_ok(3) demo_record_ok(3)
    by (simp add: demo_seen_def written_def) (simp add: demo_buffer_def ControlBlock_new_def)
  then show ?thesis
    using concurrent_reads_in_order[OF demo_seen_growing, of "[]" "[demo_record]" 1 5] demo_record_ok(5)
    by (auto split: if_splits)
qed

end
