(* ===== verification/Macros.thy ===== *)
theory Macros
  imports Prelude
begin

text \<open>
  What the example and the tests use of Rust's macros: numbers inserted into ASCII strings by
  \<open>format!\<close> and the bytes of such a string, assertions, and \<open>unwrap\<close>.
\<close>

definition digit :: "nat \<Rightarrow> char" where
  "digit d = char_of (48 + d)"

fun decimal :: "nat \<Rightarrow> string" where
  "decimal n = (if n < 10 then [digit n] else decimal (n div 10) @ [digit (n mod 10)])"

declare decimal.simps [simp del]

definition into_bytes :: "string \<Rightarrow> bytes" where
  "into_bytes = map of_char"

fun unwrap :: "('e, 'a) outcome \<Rightarrow> ('e, 'a) outcome" where
  "unwrap (Err e) = Panic ExpectFailed"
| "unwrap x = x"

definition assert_that :: "bool \<Rightarrow> ('e, unit) outcome" where
  "assert_that p = (if p then Ok () else Panic AssertFailed)"

text \<open>A sequence of assertions; the first that does not hold panics.\<close>

fun assert_all :: "bool list \<Rightarrow> ('e, unit) outcome" where
  "assert_all [] = Ok ()"
| "assert_all (p # ps) = and_then (assert_that p) (\<lambda>_. assert_all ps)"

lemma length_decimal: "n < 10 ^ k \<Longrightarrow> 0 < k \<Longrightarrow> length (decimal n) \<le> k"
proof (induction n arbitrary: k rule: decimal.induct)
  case (1 n)
  show ?case
  proof (cases "n < 10")
    case True
    then show ?thesis using "1.prems" by (simp add: decimal.simps)
  next
    case False
    then obtain j where j: "k = Suc j" "0 < j" using "1.prems" by (cases k; cases "k - 1") auto
    then have "n div 10 < 10 ^ j" using "1.prems"(1) by (simp add: less_mult_imp_div_less mult.commute)
    then show ?thesis using "1.IH"[OF False _ j(2)] j(1) False by (subst decimal.simps) simp
  qed
qed

lemma length_into_bytes [simp]: "length (into_bytes s) = length s"
  by (simp add: into_bytes_def)

lemma assert_all_Ok [simp]: "assert_all ps = Ok () \<longleftrightarrow> list_all id ps"
  by (induction ps) (auto simp: assert_that_def)

lemma assert_all_fails: "\<not> list_all id ps \<Longrightarrow> assert_all ps = Panic AssertFailed"
  by (induction ps) (auto simp: assert_that_def)

end
