(* ===== verification/Disk_Tests.thy ===== *)
theory Disk_Tests
  imports Cursor Macros
begin

text \<open>
  The test modules of \<open>src/disk/persistent.rs\<close> and \<open>src/disk/cursor.rs\<close>. A test passes when it
  returns \<open>Ok ()\<close>; a failed assertion and the \<open>unwrap\<close> of an error are panics. Each test
  opens a file that does not exist yet, in a temporary directory; \<open>env\<close> and \<open>flush\<close> are the
  results of the operating-system calls and \<open>clock i\<close> is the time at which record \<open>i\<close> is made.
\<close>

section \<open>What the tests share\<close>

definition numbered_record :: "hasher \<Rightarrow> (nat \<Rightarrow> nat option) \<Rightarrow> string \<Rightarrow> nat \<Rightarrow> log_record" where
  "numbered_record crc clock name i =
     Record_new crc (clock i) (into_bytes (name @ decimal i)) (word_of_nat i)"

text \<open>The loop that writes the records \<open>0..n\<close>, each of which has to succeed.\<close>

fun write_records ::
  "hasher \<Rightarrow> u32 \<Rightarrow> io_error option \<Rightarrow> log_record list \<Rightarrow> prb \<Rightarrow> prb presult" where
  "write_records crc pad flush [] b = Ok b"
| "write_records crc pad flush (r # rs) b =
     (let (res, b') = prb_write crc pad flush r b in
      and_then (unwrap res) (\<lambda>_. write_records crc pad flush rs b'))"

definition numbered_records ::
  "hasher \<Rightarrow> (nat \<Rightarrow> nat option) \<Rightarrow> string \<Rightarrow> nat \<Rightarrow> log_record list" where
  "numbered_records crc clock name n = map (numbered_record crc clock name) [0..<n]"

text \<open>A new buffer on a path without a file, filled with numbered records.\<close>

definition filled_buffer ::
  "hasher \<Rightarrow> u32 \<Rightarrow> open_env \<Rightarrow> io_error option \<Rightarrow> (nat \<Rightarrow> nat option) \<Rightarrow> string \<Rightarrow> usize \<Rightarrow> string \<Rightarrow> nat \<Rightarrow>
   prb presult" where
  "filled_buffer crc pad env flush clock path sz name n =
     and_then (unwrap (fst (PersistentRingBuffer_new crc pad env path sz [])))
       (write_records crc pad flush (numbered_records crc clock name n))"

text \<open>The comparison of records with the expected ones, numbered from \<open>start\<close>.\<close>

definition expect_data :: "string \<Rightarrow> nat \<Rightarrow> log_record list \<Rightarrow> bool list" where
  "expect_data name start records =
     map (\<lambda>i. r_data (records ! i) = into_bytes (name @ decimal (i + start))) [0..<length records]"

section \<open>The tests of the persistent buffer\<close>

definition test_create_new_buffer :: "hasher \<Rightarrow> u32 \<Rightarrow> open_env \<Rightarrow> string \<Rightarrow> unit presult" where
  "test_create_new_buffer crc pad env path =
     and_then (unwrap (fst (PersistentRingBuffer_new crc pad env path 1024 []))) (\<lambda>buffer.
       let control = get_control_block buffer in
       assert_all [prb_size buffer = 1024, cb_magic control = ControlBlock_MAGIC,
         cb_version control = ControlBlock_VERSION, cb_buffer_size control = 1024,
         cb_write_pos control = 0, cb_read_pos control = 0, cb_wrap_count control = 0,
         cb_verify_crc crc control])"

text \<open>\<open>None\<close> is a test whose call of \<open>read_all\<close> does not return.\<close>

definition test_write_read_records ::
  "hasher \<Rightarrow> u32 \<Rightarrow> open_env \<Rightarrow> io_error option \<Rightarrow> (nat \<Rightarrow> nat option) \<Rightarrow> string \<Rightarrow> unit presult option" where
  "test_write_read_records crc pad env flush clock path =
     (case filled_buffer crc pad env flush clock path 1024 ''test message '' 5 of
        Ok buffer \<Rightarrow> map_option (\<lambda>(res, _). and_then (unwrap res) (\<lambda>records.
          assert_all ((length records = 5) # concat (map (\<lambda>i.
            [r_data (records ! i) = into_bytes (''test message '' @ decimal i),
             rh_tag (r_header (records ! i)) = word_of_nat i]) [0..<length records]))))
          (read_all crc pad flush buffer)
      | Err e \<Rightarrow> Some (Err e) | Panic p \<Rightarrow> Some (Panic p) | Undefined \<Rightarrow> Some Undefined)"

text \<open>The first block of the test ends with its buffer; the file keeps the bytes of the mapping.\<close>

definition test_buffer_reopen ::
  "hasher \<Rightarrow> u32 \<Rightarrow> open_env \<Rightarrow> io_error option \<Rightarrow> nat option \<Rightarrow> string \<Rightarrow> unit presult option" where
  "test_buffer_reopen crc pad env flush clock path =
     (case and_then (unwrap (fst (PersistentRingBuffer_new crc pad env path 1024 []))) (\<lambda>buffer.
        and_then (write_records crc pad flush
            [Record_new crc clock (into_bytes ''persistence test'') 42] buffer) (\<lambda>buffer.
        and_then (unwrap (prb_flush flush buffer)) (\<lambda>_.
        and_then (unwrap (fst (PersistentRingBuffer_new crc pad env path 0 (buf_mmap buffer)))) (\<lambda>buffer.
        and_then (assert_that (prb_size buffer = 1024)) (\<lambda>_. Ok buffer))))) of
        Ok buffer \<Rightarrow> map_option (\<lambda>(res, _). and_then (unwrap res) (\<lambda>records.
          assert_all [length records = 1, r_data (records ! 0) = into_bytes ''persistence test'',
            rh_tag (r_header (records ! 0)) = 42])) (read_all crc pad flush buffer)
      | Err e \<Rightarrow> Some (Err e) | Panic p \<Rightarrow> Some (Panic p) | Undefined \<Rightarrow> Some Undefined)"

definition test_buffer_wrapping ::
  "hasher \<Rightarrow> u32 \<Rightarrow> open_env \<Rightarrow> io_error option \<Rightarrow> (nat \<Rightarrow> nat option) \<Rightarrow> string \<Rightarrow> unit presult" where
  "test_buffer_wrapping crc pad env flush clock path =
     and_then (filled_buffer crc pad env flush clock path 100 ''msg'' 20) (\<lambda>buffer.
       assert_that (0 < cb_wrap_count (get_control_block buffer)))"

section \<open>The tests of the cursor\<close>

text \<open>\<open>while let Some(record) = cursor.next().unwrap()\<close>; \<open>None\<close> is a loop that does not end.\<close>

partial_function (option) next_loop ::
  "hasher \<Rightarrow> nat \<Rightarrow> prb \<Rightarrow> cursor \<Rightarrow> log_record list \<Rightarrow> (log_record list \<times> cursor) presult option" where
  "next_loop crc frames b c records =
     (case cursor_next crc frames b c of
        (Ok found, c') \<Rightarrow>
          (case found of
             Some r \<Rightarrow> next_loop crc frames b c' (records @ [r])
           | None \<Rightarrow> Some (Ok (records, c')))
      | (Err e, c') \<Rightarrow> Some (Panic ExpectFailed)
      | (Panic p, c') \<Rightarrow> Some (Panic p)
      | (Undefined, c') \<Rightarrow> Some Undefined)"

definition test_cursor_basics ::
  "hasher \<Rightarrow> u32 \<Rightarrow> open_env \<Rightarrow> io_error option \<Rightarrow> (nat \<Rightarrow> nat option) \<Rightarrow> string \<Rightarrow> nat \<Rightarrow> unit presult option" where
  "test_cursor_basics crc pad env flush clock path frames =
     (case filled_buffer crc pad env flush clock path 1024 ''test '' 5 of
        Ok buffer \<Rightarrow> map_option (\<lambda>res. and_then res (\<lambda>(records, cursor).
          assert_all ([length records = 5, cursor_at_end cursor] @ expect_data ''test '' 0 records)))
          (next_loop crc frames buffer (Cursor_new buffer None) [])
      | Err e \<Rightarrow> Some (Err e) | Panic p \<Rightarrow> Some (Panic p) | Undefined \<Rightarrow> Some Undefined)"

definition test_cursor_batch_read ::
  "hasher \<Rightarrow> u32 \<Rightarrow> open_env \<Rightarrow> io_error option \<Rightarrow> (nat \<Rightarrow> nat option) \<Rightarrow> string \<Rightarrow> nat \<Rightarrow> unit presult" where
  "test_cursor_batch_read crc pad env flush clock path frames =
     and_then (filled_buffer crc pad env flush clock path 1024 ''batch '' 10) (\<lambda>buffer.
     let (res1, cursor1) = read_batch crc frames buffer 3 (Cursor_new buffer None);
         (res2, cursor2) = read_batch crc frames buffer 3 cursor1;
         (res3, cursor3) = read_batch crc frames buffer 5 cursor2
     in
     and_then (unwrap res1) (\<lambda>batch1. and_then (assert_that (length batch1 = 3)) (\<lambda>_.
     and_then (unwrap res2) (\<lambda>batch2. and_then (assert_that (length batch2 = 3)) (\<lambda>_.
     and_then (unwrap res3) (\<lambda>batch3.
       assert_all ([length batch3 = 4, cursor_at_end cursor3] @ expect_data ''batch '' 0 batch1 @
         expect_data ''batch '' 3 batch2 @ expect_data ''batch '' 6 batch3)))))))"

definition test_cursor_seek ::
  "hasher \<Rightarrow> u32 \<Rightarrow> open_env \<Rightarrow> io_error option \<Rightarrow> (nat \<Rightarrow> nat option) \<Rightarrow> string \<Rightarrow> nat \<Rightarrow> unit presult option" where
  "test_cursor_seek crc pad env flush clock path frames =
     (case filled_buffer crc pad env flush clock path 1024 ''seek '' 5 of
        Ok buffer \<Rightarrow>
          (let (res1, cursor1) = cursor_next crc frames buffer (Cursor_new buffer None);
               (res2, cursor2) = cursor_next crc frames buffer cursor1;
               pos = cursor_position cursor2
           in
           case and_then (unwrap res1) (\<lambda>_. unwrap res2) of
             Ok _ \<Rightarrow> map_option (\<lambda>res. and_then res (\<lambda>(_, cursor3).
               let (res4, cursor4) = seek_to buffer pos cursor3;
                   (res5, _) = read_batch crc frames buffer 10 cursor4
               in and_then (unwrap res4) (\<lambda>_. and_then (assert_that (\<not> cursor_at_end cursor4)) (\<lambda>_.
                  and_then (unwrap res5) (\<lambda>records.
                    assert_all ((length records = 3) # expect_data ''seek '' 2 records))))))
               (next_loop crc frames buffer cursor2 [])
           | Err e \<Rightarrow> Some (Err e) | Panic p \<Rightarrow> Some (Panic p) | Undefined \<Rightarrow> Some Undefined)
      | Err e \<Rightarrow> Some (Err e) | Panic p \<Rightarrow> Some (Panic p) | Undefined \<Rightarrow> Some Undefined)"

definition test_cursor_commit ::
  "hasher \<Rightarrow> u32 \<Rightarrow> open_env \<Rightarrow> io_error option \<Rightarrow> (nat \<Rightarrow> nat option) \<Rightarrow> string \<Rightarrow> nat \<Rightarrow> unit presult" where
  "test_cursor_commit crc pad env flush clock path frames =
     and_then (filled_buffer crc pad env flush clock path 1024 ''commit '' 5) (\<lambda>buffer.
     let (res1, cursor1) = read_batch crc frames buffer 3 (Cursor_new buffer None);
         (res2, buffer2) = cursor_commit crc pad flush cursor1 buffer;
         (res3, _) = read_batch crc frames buffer2 10 (Cursor_new buffer2 None)
     in
     and_then (unwrap res1) (\<lambda>_. and_then (unwrap res2) (\<lambda>_. and_then (unwrap res3) (\<lambda>records.
       assert_all ((length records = 2) # expect_data ''commit '' 3 records)))))"

end
