(* ===== verification/Disk_Tests_Properties.thy ===== *)
theory Disk_Tests_Properties
  imports Disk_Tests Cursor_Properties
begin

text \<open>
  Which unit tests of the persistent buffer and the cursor pass: for every clock and every
  content of the padding, when all calls of the operating system succeed.
\<close>

section \<open>The buffers of the tests\<close>

lemma write_records_iter:
  "iter_opt (try_write crc pad) rs b = Some b' \<Longrightarrow> write_records crc pad None rs b = Ok b'"
proof (induction rs arbitrary: b)
  case (Cons r rs)
  then obtain b1 where "try_write crc pad r b = Some b1" "iter_opt (try_write crc pad) rs b1 = Some b'"
    by (auto split: option.splits)
  moreover from this(1) have "prb_write crc pad None r b = (Ok (), b1)"
    by (auto simp: try_write_def split: outcome.splits prod.splits)
  ultimately show ?case using Cons.IH by simp
qed simp

lemma numbered_records_ok:
  assumes "n \<le> 100" and "length name \<le> 20" and "r \<in> set (numbered_records crc clock name n)"
  shows "u32_ok r" "rec_len r \<le> 26 + length name" "24 + length name < rec_len r" "stored crc r = r"
proof -
  obtain i where i: "i < n" "r = numbered_record crc clock name i"
    using assms(3) by (auto simp: numbered_records_def)
  have "length (decimal i) \<le> 2" using length_decimal[of i 2] i(1) assms(1) by simp
  moreover have "0 < length (decimal i)" by (subst decimal.simps) simp
  ultimately show "u32_ok r" "rec_len r \<le> 26 + length name" "24 + length name < rec_len r" "stored crc r = r"
    using assms(2) by (simp_all add: i(2) numbered_record_def u32_ok_def rec_len_def Record_new_fields)
qed

lemma log_len_le: "\<forall>r\<in>set rs. rec_len r \<le> k \<Longrightarrow> log_len rs \<le> length rs * k"
  by (induction rs) auto

lemma numbered_records_simps [simp]:
  "length (numbered_records crc clock name n) = n"
  "i < n \<Longrightarrow> numbered_records crc clock name n ! i = numbered_record crc clock name i"
  by (simp_all add: numbered_records_def)

lemma numbered_stored:
  "n \<le> 100 \<Longrightarrow> length name \<le> 20 \<Longrightarrow>
    map (stored crc) (numbered_records crc clock name n) = numbered_records crc clock name n"
  using numbered_records_ok(4) by (simp add: map_idI)

lemma filled_buffer_room:
  assumes "n * (26 + length name) \<le> unat sz" and "unat sz + 48 < 2 ^ 63" and "n \<le> 100" and "length name \<le> 20"
  obtains b where "filled_buffer crc pad open_ok None clock path sz name n = Ok b"
    "holds_log crc b (numbered_records crc clock name n)" "cb_read_pos (buf_control b) = 0"
    "\<forall>r\<in>set (numbered_records crc clock name n). u32_ok r"
proof -
  let ?rs = "numbered_records crc clock name n"
  obtain b0 where b0: "PersistentRingBuffer_new crc pad open_ok path sz [] = (Ok b0, buf_mmap b0)"
    "prb_inv b0" "represents crc b0 []" "buf_size b0 = sz" "buf_control b0 = ControlBlock_new crc sz"
    using new_file[OF assms(2), of crc pad path] by blast
  have ok: "\<forall>r\<in>set ?rs. u32_ok r" using numbered_records_ok(1)[OF assms(3,4)] by blast
  have "log_len ?rs \<le> unat sz"
    using log_len_le[of ?rs "26 + length name"] numbered_records_ok(2)[OF assms(3,4)] assms(1) by fastforce
  then obtain b where b: "iter_opt (try_write crc pad) ?rs b0 = Some b" "holds_log crc b ?rs"
    using plog.append_all_room[of crc b0 "[]" ?rs pad] ok b0 by (auto simp: holds_log_def log_len_def)
  have "\<forall>r\<in>set ?rs. vec_ok r" using ok by blast
  from iter_write_read_pos[OF b0(2) b(1) this] have "cb_read_pos (buf_control b) = 0"
    by (simp add: b0(5) ControlBlock_new_def)
  then show thesis using that b b0(1) ok write_records_iter[OF b(1)] by (simp add: filled_buffer_def)
qed

section \<open>The tests of the persistent buffer\<close>

text \<open>The checksums of the control blocks that the tests check.\<close>

lemma test_hashed:
  "cb_hashed \<lparr>cb_magic = 0x5348524C, cb_version = 1, cb_buffer_size = 1024, cb_write_pos = 0,
      cb_read_pos = 0, cb_wrap_count = 0, cb_crc32 = 0\<rparr>
   = [0x4C, 0x52, 0x48, 0x53, 1, 0, 0, 0, 0, 4, 0, 0, 0, 0, 0, 0, 0, 0, 0, 0, 0, 0, 0, 0,
      0, 0, 0, 0, 0, 0, 0, 0, 0, 0, 0, 0, 0, 0, 0, 0, 0, 0, 0, 0]"
  "cb_hashed \<lparr>cb_magic = 0x5348524C, cb_version = 1, cb_buffer_size = 1024, cb_write_pos = 40,
      cb_read_pos = 0, cb_wrap_count = 0, cb_crc32 = 0xA14D3161\<rparr>
   = [0x4C, 0x52, 0x48, 0x53, 1, 0, 0, 0, 0, 4, 0, 0, 0, 0, 0, 0, 40, 0, 0, 0, 0, 0, 0, 0,
      0, 0, 0, 0, 0, 0, 0, 0, 0, 0, 0, 0, 0, 0, 0, 0, 97, 49, 77, 161]"
  by (simp_all add: cb_hashed_def encode_control_block_def le_bytes_def upt_rec)

lemma test_crc:
  "crc32_ieee [0x4C, 0x52, 0x48, 0x53, 1, 0, 0, 0, 0, 4, 0, 0, 0, 0, 0, 0, 0, 0, 0, 0, 0, 0, 0, 0,
      0, 0, 0, 0, 0, 0, 0, 0, 0, 0, 0, 0, 0, 0, 0, 0, 0, 0, 0, 0] = 0xA14D3161"
  "crc32_ieee [0x4C, 0x52, 0x48, 0x53, 1, 0, 0, 0, 0, 4, 0, 0, 0, 0, 0, 0, 40, 0, 0, 0, 0, 0, 0, 0,
      0, 0, 0, 0, 0, 0, 0, 0, 0, 0, 0, 0, 0, 0, 0, 0, 97, 49, 77, 161] = 0xD868C7DE"
  by (simp_all add: crc32_ieee_eval)

lemma test_control:
  "ControlBlock_new crc32_ieee 1024 =
     \<lparr>cb_magic = 0x5348524C, cb_version = 1, cb_buffer_size = 1024, cb_write_pos = 0,
      cb_read_pos = 0, cb_wrap_count = 0, cb_crc32 = 0xA14D3161\<rparr>"
  by (simp add: ControlBlock_new_def cb_update_crc_def ControlBlock_MAGIC_def
      ControlBlock_VERSION_def test_hashed test_crc)

lemma create_new_buffer_fails:
  "test_create_new_buffer crc32_ieee pad open_ok path = Panic AssertFailed"
proof -
  obtain b where b: "PersistentRingBuffer_new crc32_ieee pad open_ok path 1024 [] = (Ok b, buf_mmap b)"
    "buf_control b = ControlBlock_new crc32_ieee 1024"
    using new_file[of 1024 crc32_ieee pad path] by auto
  have "\<not> cb_verify_crc crc32_ieee (ControlBlock_new crc32_ieee 1024)"
    unfolding ieee.verify_new by (simp add: test_control)
  then show ?thesis
    using b by (simp add: test_create_new_buffer_def get_control_block_def Let_def assert_all_fails del: assert_all.simps)
qed

lemma write_read_records_passes:
  "test_write_read_records crc pad open_ok None clock path = Some (Ok ())"
proof -
  let ?rs = "numbered_records crc clock ''test message '' 5"
  obtain b where b: "filled_buffer crc pad open_ok None clock path 1024 ''test message '' 5 = Ok b"
    "holds_log crc b ?rs" "cb_read_pos (buf_control b) = 0" "\<forall>r\<in>set ?rs. u32_ok r"
    by (rule filled_buffer_room[of 5 "''test message ''" 1024 crc pad clock path]) simp_all
  obtain b' where "read_all crc pad None b = Some (Ok ?rs, b')"
    using read_all_log[of b crc "[]" ?rs pad] b numbered_stored[of 5 "''test message ''" crc clock]
    by (auto simp: holds_log_def)
  then show ?thesis
    using b(1) by (simp add: test_write_read_records_def list_all_iff numbered_record_def Record_new_fields
        del: assert_all.simps)
qed

lemma buffer_reopen_fails:
  "test_buffer_reopen crc32_ieee pad open_ok None clock path = Some (Panic ExpectFailed)"
proof -
  let ?r = "Record_new crc32_ieee clock (into_bytes ''persistence test'') 42"
  obtain b where b: "PersistentRingBuffer_new crc32_ieee pad open_ok path 1024 [] = (Ok b, buf_mmap b)"
    "buf_control b = ControlBlock_new crc32_ieee 1024" "prb_inv b" "buf_size b = 1024"
    using new_file[of 1024 crc32_ieee pad path] by auto
  have r: "vec_ok ?r" "rec_len ?r = 40" by (simp_all add: vec_ok_def rec_len_def Record_new_fields)
  have w: "prb_write crc32_ieee pad None ?r b = (Ok (), written crc32_ieee pad ?r b)"
    using prb_write_eq[OF b(3) r(1)] r(2) b(4) by simp
  have inv: "prb_inv (written crc32_ieee pad ?r b)" using written_inv[OF b(3)] r(2) b(4) by simp
  have "control_after crc32_ieee ?r b = (ControlBlock_new crc32_ieee 1024)\<lparr>cb_write_pos := 40, cb_crc32 := 0xD868C7DE\<rparr>"
    using b(2,4) r(2) by (simp add: control_after_def control_wrapped_def write_wraps_def write_offset_def)
      (simp add: test_control cb_update_crc_def test_hashed test_crc)
  then have "\<not> cb_verify_crc crc32_ieee (buf_control (written crc32_ieee pad ?r b))"
    using ieee.verify_after_write[of ?r b] b(2) by (simp add: written_def test_control)
  then have "fst (PersistentRingBuffer_new crc32_ieee pad open_ok path 0 (buf_mmap (written crc32_ieee pad ?r b)))
      = Err InvalidBuffer"
    using reopen_eq[OF inv, of crc32_ieee pad path 0] by simp
  moreover have "prb_flush None (written crc32_ieee pad ?r b) = Ok ()"
    using prb_inv_facts(6)[OF b(3)] by (simp add: prb_flush_def written_def)
  ultimately show ?thesis using b(1) w by (simp add: test_buffer_reopen_def)
qed

text \<open>How a sequence of writes moves the write position and the wrap counter.\<close>

definition lap_step :: "nat \<Rightarrow> nat \<Rightarrow> nat \<times> nat \<Rightarrow> nat \<times> nat" where
  "lap_step cap n = (\<lambda>(pos, laps). if cap < pos + n then (n, Suc laps) else (pos + n, laps))"

definition lap_of :: "prb \<Rightarrow> nat \<times> nat" where
  "lap_of b = (unat (cb_write_pos (buf_control b)), unat (cb_wrap_count (buf_control b)))"

lemma write_laps:
  "prb_inv b \<Longrightarrow> \<forall>r\<in>set rs. vec_ok r \<and> rec_len r \<le> unat (buf_size b) \<Longrightarrow>
    unat (cb_wrap_count (buf_control b)) + length rs < 2 ^ 64 \<Longrightarrow>
    \<exists>b'. write_records crc pad None rs b = Ok b' \<and>
      lap_of b' = fold (lap_step (unat (buf_size b))) (map rec_len rs) (lap_of b)"
proof (induction rs arbitrary: b)
  case (Cons r rs)
  let ?b = "written crc pad r b"
  have fits: "rec_len r \<le> unat (buf_size b)" "vec_ok r" using Cons.prems by simp_all
  have ctl: "buf_control ?b = control_after crc r b" "buf_size ?b = buf_size b" by (simp_all add: written_def)
  have wc: "unat (cb_wrap_count (buf_control b) + 1) = Suc (unat (cb_wrap_count (buf_control b)))"
    using Cons.prems(3) unat_plus_no_wrap[of "cb_wrap_count (buf_control b)" 1] by simp
  have lap: "lap_of ?b = lap_step (unat (buf_size b)) (rec_len r) (lap_of b)"
    using written_control(1,3)[OF Cons.prems(1) fits(1), of crc] wc
    by (simp add: lap_of_def lap_step_def ctl write_wraps_def write_offset_def)
  have "unat (cb_wrap_count (buf_control ?b)) \<le> Suc (unat (cb_wrap_count (buf_control b)))"
    using lap by (auto simp: lap_of_def lap_step_def split: if_splits)
  then obtain b' where "write_records crc pad None rs ?b = Ok b'"
      "lap_of b' = fold (lap_step (unat (buf_size b))) (map rec_len rs) (lap_of ?b)"
    using Cons.IH[OF written_inv[OF Cons.prems(1) fits(1)], of crc pad] Cons.prems(2,3) ctl by auto
  then show ?case using prb_write_eq[OF Cons.prems(1) fits(2,1), of crc pad None] lap by simp
qed (simp add: lap_of_def)

lemma buffer_wrapping_passes: "test_buffer_wrapping crc pad open_ok None clock path = Ok ()"
proof -
  let ?rs = "numbered_records crc clock ''msg'' 20"
  obtain b0 where b0: "PersistentRingBuffer_new crc pad open_ok path 100 [] = (Ok b0, buf_mmap b0)"
    "prb_inv b0" "buf_size b0 = 100" "buf_control b0 = ControlBlock_new crc 100"
    using new_file[of 100 crc pad path] by auto
  have "\<forall>r\<in>set ?rs. vec_ok r \<and> rec_len r \<le> unat (buf_size b0)"
    using numbered_records_ok[of 20 "''msg''" _ crc clock] b0(3) by fastforce
  moreover have start: "lap_of b0 = (0, 0)" by (simp add: lap_of_def b0(4) ControlBlock_new_def)
  ultimately obtain b where b: "write_records crc pad None ?rs b0 = Ok b"
      "lap_of b = fold (lap_step 100) (map rec_len ?rs) (0, 0)"
    using write_laps[OF b0(2), of ?rs crc pad] b0(3) by (auto simp: lap_of_def)
  have "length (decimal i) = (if i < 10 then 1 else 2)" if "i < 20" for i
  proof -
    have "i div 10 < 10" using that by presburger
    then show ?thesis by (simp add: decimal.simps)
  qed
  then have "map rec_len ?rs = map (\<lambda>i. if i < 10 then 28 else 29) [0..<20]"
    by (simp add: numbered_records_def numbered_record_def rec_len_def Record_new_fields)
  moreover have "fold (lap_step 100) (map (\<lambda>i. if i < 10 then 28 else 29) [0..<20]) (0, 0) = (58, 6)"
    by (simp add: lap_step_def upt_rec)
  ultimately have "lap_of b = (58, 6)" using b(2) by simp
  then have "0 < cb_wrap_count (buf_control b)" by (simp add: lap_of_def word_less_nat_alt)
  then show ?thesis
    using b0(1) b(1) by (simp add: test_buffer_wrapping_def filled_buffer_def get_control_block_def assert_that_def)
qed

section \<open>The tests of the cursor\<close>

text \<open>The loops over a cursor that stands in a log end, at the end of the log.\<close>

lemma next_loop_between:
  "cursor_between crc b xs ys c \<Longrightarrow>
    \<exists>c'. next_loop crc (Suc f) b c acc = Some (Ok (acc @ map (stored crc) ys, c')) \<and>
      cursor_between crc b (xs @ ys) [] c'"
proof (induction ys arbitrary: xs c acc)
  case Nil
  then show ?case using cursor_next_end[OF Nil] by (subst next_loop.simps) simp
next
  case (Cons y ys)
  obtain c1 where c1: "cursor_next crc (Suc f) b c = (Ok (Some (stored crc y)), c1)"
    "cursor_between crc b (xs @ [y]) ys c1" using cursor_next_record[OF Cons.prems] by blast
  then show ?case using Cons.IH[OF c1(2), of "acc @ [stored crc y]"] by (subst next_loop.simps) auto
qed

lemma test_cursor_start:
  assumes "n \<le> 10" and "length name \<le> 20"
  obtains b where "filled_buffer crc pad open_ok None clock path 1024 name n = Ok b"
    "cursor_between crc b [] (numbered_records crc clock name n) (Cursor_new b None)"
proof -
  have "n * (26 + length name) \<le> 10 * 46" using assms by (intro mult_le_mono) auto
  then show thesis
    using filled_buffer_room[of n name 1024 crc pad clock path thesis] assms that
      Cursor_new_between[of crc _ "[]" "numbered_records crc clock name n"] by simp
qed

lemma expect_data_numbered:
  "start + k \<le> n \<Longrightarrow>
    list_all id (expect_data name start (take k (drop start (numbered_records crc clock name n))))"
  by (auto simp: expect_data_def list_all_iff numbered_record_def Record_new_fields add.commute)

lemma cursor_basics_passes:
  assumes "0 < frames" shows "test_cursor_basics crc pad open_ok None clock path frames = Some (Ok ())"
proof -
  let ?rs = "numbered_records crc clock ''test '' 5"
  obtain f where f: "frames = Suc f" using assms by (cases frames) auto
  obtain b where b: "filled_buffer crc pad open_ok None clock path 1024 ''test '' 5 = Ok b"
    "cursor_between crc b [] ?rs (Cursor_new b None)" by (rule test_cursor_start[of 5 "''test ''" crc pad clock path]) simp_all
  obtain c where "next_loop crc frames b (Cursor_new b None) [] = Some (Ok (?rs, c))" "cursor_between crc b ?rs [] c"
    using next_loop_between[OF b(2), of f "[]"] numbered_stored[of 5 "''test ''" crc clock] f by auto
  moreover have "list_all id (expect_data ''test '' 0 ?rs)"
    using expect_data_numbered[of 0 5 5 "''test ''" crc clock] by simp
  ultimately show ?thesis
    using b(1) by (simp add: test_cursor_basics_def cursor_at_end_def cursor_between_def del: assert_all.simps)
qed

text \<open>A batch of numbered records from the cursor of a test.\<close>

lemma test_batch:
  assumes "cursor_between crc b (take s rs) (drop s rs) c" and "rs = numbered_records crc clock name n"
    and "n \<le> 10" and "length name \<le> 20" and "0 < frames" and "unat k \<le> 10"
  shows "\<exists>c'. read_batch crc frames b k c = (Ok (take (unat k) (drop s rs)), c') \<and>
     cursor_between crc b (take (s + unat k) rs) (drop (s + unat k) rs) c'"
proof -
  have "unat k * 48 < 2 ^ 63" using assms(6) by simp
  from read_batch_between[OF assms(1,5) this] obtain c' where
    c': "read_batch crc frames b k c = (Ok (map (stored crc) (take (unat k) (drop s rs))), c')"
    "cursor_between crc b (take s rs @ take (unat k) (drop s rs)) (drop (unat k) (drop s rs)) c'" by blast
  have "map (stored crc) (take (unat k) (drop s rs)) = take (unat k) (drop s rs)"
    using numbered_records_ok(4)[of n name _ crc clock] assms(2-4) by (intro map_idI) (auto dest!: in_set_takeD in_set_dropD)
  then show ?thesis using c' by (simp add: take_add add.commute)
qed

lemma cursor_batch_read_passes:
  assumes "0 < frames" shows "test_cursor_batch_read crc pad open_ok None clock path frames = Ok ()"
proof -
  let ?rs = "numbered_records crc clock ''batch '' 10"
  obtain b where b: "filled_buffer crc pad open_ok None clock path 1024 ''batch '' 10 = Ok b"
    "cursor_between crc b [] ?rs (Cursor_new b None)" by (rule test_cursor_start[of 10 "''batch ''" crc pad clock path]) simp_all
  note batch = test_batch[where rs = ?rs and name = "''batch ''" and n = 10 and clock = clock and crc = crc and b = b, OF _ refl _ _ assms]
  obtain c1 where c1: "read_batch crc frames b 3 (Cursor_new b None) = (Ok (take 3 ?rs), c1)"
    "cursor_between crc b (take 3 ?rs) (drop 3 ?rs) c1" using batch[of 0 "Cursor_new b None" 3] b(2) by auto
  obtain c2 where c2: "read_batch crc frames b 3 c1 = (Ok (take 3 (drop 3 ?rs)), c2)"
    "cursor_between crc b (take 6 ?rs) (drop 6 ?rs) c2" using batch[OF c1(2), of 3] by auto
  obtain c3 where c3: "read_batch crc frames b 5 c2 = (Ok (drop 6 ?rs), c3)"
    "cursor_between crc b ?rs [] c3" using batch[OF c2(2), of 5] by auto
  have "list_all id (expect_data ''batch '' 0 (take 3 ?rs))" "list_all id (expect_data ''batch '' 3 (take 3 (drop 3 ?rs)))"
    "list_all id (expect_data ''batch '' 6 (drop 6 ?rs))"
    using expect_data_numbered[of 0 3 10 "''batch ''" crc clock] expect_data_numbered[of 3 3 10 "''batch ''" crc clock]
      expect_data_numbered[of 6 4 10 "''batch ''" crc clock] by simp_all
  then show ?thesis
    using b(1) c1(1) c2(1) c3 by (simp add: test_cursor_batch_read_def cursor_at_end_def cursor_between_def assert_that_def
        del: assert_all.simps)
qed

lemma cursor_seek_passes:
  assumes "0 < frames" shows "test_cursor_seek crc pad open_ok None clock path frames = Some (Ok ())"
proof -
  let ?rs = "numbered_records crc clock ''seek '' 5"
  obtain f where f: "frames = Suc f" using assms by (cases frames) auto
  obtain b where b: "filled_buffer crc pad open_ok None clock path 1024 ''seek '' 5 = Ok b"
    "cursor_between crc b [] ?rs (Cursor_new b None)" by (rule test_cursor_start[of 5 "''seek ''" crc pad clock path]) simp_all
  obtain y1 y2 ys where rs: "?rs = y1 # y2 # ys"
    by (auto simp: numbered_records_def upt_conv_Cons)
  obtain c1 where c1: "cursor_next crc frames b (Cursor_new b None) = (Ok (Some (stored crc y1)), c1)"
    "cursor_between crc b [y1] (y2 # ys) c1" using cursor_next_record[of crc b "[]" y1 "y2 # ys"] b(2) rs f by auto
  obtain c2 where c2: "cursor_next crc frames b c1 = (Ok (Some (stored crc y2)), c2)"
    "cursor_between crc b [y1, y2] ys c2" using cursor_next_record[OF c1(2), of f] f by auto
  obtain c3 where c3: "next_loop crc frames b c2 [] = Some (Ok (map (stored crc) ys, c3))"
    "cursor_between crc b ([y1, y2] @ ys) [] c3" using next_loop_between[OF c2(2), of f "[]"] f by auto
  have "map (stored crc) ?rs = ?rs" by (rule numbered_stored) simp_all
  then have ys: "map (stored crc) ys = ys" unfolding rs by simp
  have len: "length ys = 3" using arg_cong[OF rs, of length] by simp
  have part: "take 3 (drop 2 ?rs) = ys" using rs len by simp
  have seek: "seek_to b (cursor_position c2) c3 = (Ok (), c2)"
    unfolding cursor_position_def by (rule seek_to_between[OF c2(2)])
  have "\<not> cursor_at_end c2" using c2(2) len by (auto simp: cursor_between_def cursor_at_end_def)
  moreover obtain c4 where "read_batch crc frames b 10 c2 = (Ok ys, c4)"
    using read_batch_between[OF c2(2) assms, of 10] ys len by auto
  moreover have "list_all id (expect_data ''seek '' 2 ys)"
    using expect_data_numbered[of 2 3 5 "''seek ''" crc clock] part by simp
  ultimately show ?thesis
    using b(1) c1(1) c2(1) c3(1) seek ys len
    by (simp add: test_cursor_seek_def assert_that_def del: assert_all.simps)
qed

lemma cursor_commit_fails:
  assumes "0 < frames" shows "test_cursor_commit crc pad open_ok None clock path frames = Panic AssertFailed"
proof -
  let ?rs = "numbered_records crc clock ''commit '' 5"
  obtain b where b: "filled_buffer crc pad open_ok None clock path 1024 ''commit '' 5 = Ok b"
    "cursor_between crc b [] ?rs (Cursor_new b None)" by (rule test_cursor_start[of 5 "''commit ''" crc pad clock path]) simp_all
  obtain c1 where c1: "read_batch crc frames b 3 (Cursor_new b None) = (Ok (take 3 ?rs), c1)"
    "cursor_between crc b (take 3 ?rs) (drop 3 ?rs) c1"
    using test_batch[of crc b 0 ?rs "Cursor_new b None" clock "''commit ''" 5 frames 3] b(2) assms by auto
  have "unat (cb_read_pos (buf_control b)) = 0"
    using b(2) by (simp add: Cursor_new_def cursor_between_def get_control_block_def Position_new_def Let_def)
  moreover have "0 < log_len (take 3 ?rs)" by (simp add: numbered_records_def take_map rec_len_def upt_conv_Cons)
  ultimately obtain b2 where b2: "cursor_commit crc pad None c1 b = (Ok (), b2)"
    "cb_read_pos (buf_control b2) = cb_write_pos (buf_control b2)"
    using commit_between[OF c1(2), of pad None] by auto
  then have "cur_at_end (Cursor_new b2 None)"
    by (simp add: Cursor_new_def get_control_block_def Position_new_def Let_def)
  then have "read_batch crc frames b2 10 (Cursor_new b2 None) = (Ok [], Cursor_new b2 None)"
    using read_batch_at_end[of _ frames 10] assms by simp
  then show ?thesis
    using b(1) c1(1) b2(1) by (simp add: test_cursor_commit_def assert_that_def)
qed

text \<open>
  C37: the unit tests of the persistent buffer and the cursor, for every clock and every
  content of the padding, when the calls of the operating system succeed and the checksum is
  the one of the crate. Three of the eight fail: the test of a new buffer at the checksum of
  its control block, the test of reopening at the second opening, and the test of a commit
  at the number of records that are left. The others pass.
\<close>

theorem disk_unit_tests:
  "test_create_new_buffer crc32_ieee pad open_ok path = Panic AssertFailed \<and>
   test_write_read_records crc32_ieee pad open_ok None clock path = Some (Ok ()) \<and>
   test_buffer_reopen crc32_ieee pad open_ok None (clock 0) path = Some (Panic ExpectFailed) \<and>
   test_buffer_wrapping crc32_ieee pad open_ok None clock path = Ok () \<and>
   test_cursor_basics crc32_ieee pad open_ok None clock path (Suc f) = Some (Ok ()) \<and>
   test_cursor_batch_read crc32_ieee pad open_ok None clock path (Suc f) = Ok () \<and>
   test_cursor_seek crc32_ieee pad open_ok None clock path (Suc f) = Some (Ok ()) \<and>
   test_cursor_commit crc32_ieee pad open_ok None clock path (Suc f) = Panic AssertFailed"
  by (simp add: create_new_buffer_fails write_read_records_passes buffer_reopen_fails
      buffer_wrapping_passes cursor_basics_passes cursor_batch_read_passes cursor_seek_passes
      cursor_commit_fails)

end
