(* ===== verification/Volatile_Tests.thy ===== *)
theory Volatile_Tests
  imports Volatile Macros
begin

text \<open>
  The test module of \<open>src/memory/volatile.rs\<close>. A test passes when it returns \<open>Ok ()\<close>; a failed
  assertion is a panic. Each test starts with an empty store; \<open>clock i\<close> is the time at which
  record \<open>i\<close> is made.
\<close>

section \<open>What the tests share\<close>

definition test_buffer :: "usize \<Rightarrow> addr run \<times> mem" where
  "test_buffer cap =
     run_then (VolatileRingBuffer_new cap \<lparr>mem_bufs = [], mem_signals = []\<rparr>) (\<lambda>b m.
       let (a, m1) = arc_new b m in (Ok a, m1))"

text \<open>Writes whose results are not looked at.\<close>

fun write_each :: "u32 \<Rightarrow> log_record list \<Rightarrow> addr \<Rightarrow> mem \<Rightarrow> unit run \<times> mem" where
  "write_each pad [] a m = (Ok (), m)"
| "write_each pad (r # rs) a m = run_then (vrb_write pad r a m) (\<lambda>_ m1. write_each pad rs a m1)"

text \<open>Writes that have to go into the buffer directly.\<close>

fun write_asserted :: "u32 \<Rightarrow> log_record list \<Rightarrow> addr \<Rightarrow> mem \<Rightarrow> unit run \<times> mem" where
  "write_asserted pad [] a m = (Ok (), m)"
| "write_asserted pad (r # rs) a m =
     run_then (vrb_write pad r a m) (\<lambda>direct m1.
     run_then (assert_that direct, m1) (\<lambda>_ m2. write_asserted pad rs a m2))"

text \<open>Reading at the end of a test, and what it expects of the records.\<close>

definition read_expecting ::
  "hasher \<Rightarrow> u32 \<Rightarrow> (log_record list \<Rightarrow> unit run) \<Rightarrow> addr \<Rightarrow> mem \<Rightarrow> unit run \<times> mem" where
  "read_expecting crc pad check a m = run_then (vrb_read crc pad a m) (\<lambda>records m1. (check records, m1))"

definition one_record :: "bytes \<Rightarrow> u32 \<Rightarrow> log_record list \<Rightarrow> unit run" where
  "one_record data tag records = assert_all [length records = 1, r_data (records ! 0) = data,
     rh_tag (r_header (records ! 0)) = tag]"

section \<open>The tests\<close>

definition test_basic_write_read :: "hasher \<Rightarrow> u32 \<Rightarrow> nat option \<Rightarrow> unit run" where
  "test_basic_write_read crc pad clock =
     fst (run_then (test_buffer 1024) (\<lambda>buffer m.
       run_then (write_asserted pad [Record_new crc clock (into_bytes ''test message'') 1] buffer m) (\<lambda>_.
       read_expecting crc pad (one_record (into_bytes ''test message'') 1) buffer)))"

text \<open>
  The writes of the four threads are executed in the order of \<open>schedule\<close>, which lists thread
  and message numbers; \<open>counts\<close> is indexed with the tag, which panics out of range.
\<close>

definition thread_record :: "hasher \<Rightarrow> (nat \<Rightarrow> nat \<Rightarrow> nat option) \<Rightarrow> nat \<times> nat \<Rightarrow> log_record" where
  "thread_record crc clock = (\<lambda>(t, i). Record_new crc (clock t i)
     (into_bytes (''Thread '' @ decimal t @ '' message '' @ decimal i)) (word_of_nat t))"

fun count_threads :: "log_record list \<Rightarrow> nat list \<Rightarrow> nat list run" where
  "count_threads [] counts = Ok counts"
| "count_threads (r # rs) counts =
     (let thread_id = unat (rh_tag (r_header r)) in
      if thread_id < length counts
      then count_threads rs (counts[thread_id := counts ! thread_id + 1])
      else Panic IndexRange)"

definition test_multi_thread_write ::
  "hasher \<Rightarrow> u32 \<Rightarrow> (nat \<Rightarrow> nat \<Rightarrow> nat option) \<Rightarrow> (nat \<times> nat) list \<Rightarrow> unit run" where
  "test_multi_thread_write crc pad clock schedule =
     fst (run_then (test_buffer 4096) (\<lambda>buffer m.
       run_then (write_each pad (map (thread_record crc clock) schedule) buffer m) (\<lambda>_.
       read_expecting crc pad (\<lambda>records.
         and_then (assert_that (length records = 4 * 100)) (\<lambda>_.
         and_then (count_threads records (replicate 4 0)) (\<lambda>counts.
           assert_all (map (\<lambda>n. n = 100) counts)))) buffer)))"

definition test_reserve_write_commit :: "hasher \<Rightarrow> u32 \<Rightarrow> nat option \<Rightarrow> nat \<Rightarrow> unit run" where
  "test_reserve_write_commit crc pad clock frames =
     fst (run_then (test_buffer 1024) (\<lambda>buffer m.
       run_then (reserve frames 10 True buffer m) (\<lambda>reserved m1.
       case reserved of
         None \<Rightarrow> (Panic ExpectFailed, m1)
       | Some reservation \<Rightarrow>
           (let data = into_bytes ''test data'';
                header = rh_update_crc crc data (RecordHeader_new clock (word_of_nat (length data)) 123)
            in run_then (fill_and_commit pad \<lparr>r_header = header, r_data = data\<rparr> reservation m1) (\<lambda>_.
               read_expecting crc pad (one_record data 123) buffer)))))"

definition overflow_record :: "hasher \<Rightarrow> (nat \<Rightarrow> nat option) \<Rightarrow> string \<Rightarrow> nat \<Rightarrow> nat \<Rightarrow> log_record" where
  "overflow_record crc clock name base i =
     Record_new crc (clock (base + i)) (into_bytes (name @ decimal i)) (word_of_nat (base + i))"

definition test_buffer_overflow :: "hasher \<Rightarrow> u32 \<Rightarrow> (nat \<Rightarrow> nat option) \<Rightarrow> unit run" where
  "test_buffer_overflow crc pad clock =
     fst (run_then (test_buffer 4) (\<lambda>buffer m.
       run_then (write_each pad (map (overflow_record crc clock ''message '' 0) [0..<20]) buffer m) (\<lambda>_ m1.
       run_then (read_expecting crc pad (\<lambda>records. assert_that (0 < length records)) buffer m1) (\<lambda>_ m2.
       run_then (write_asserted pad (map (overflow_record crc clock ''new message '' 100) [0..<5]) buffer m2) (\<lambda>_.
       read_expecting crc pad (\<lambda>records. assert_that (length records = 5)) buffer)))))"

text \<open>The loop that reads after each write.\<close>

fun write_and_read :: "hasher \<Rightarrow> u32 \<Rightarrow> log_record list \<Rightarrow> addr \<Rightarrow> mem \<Rightarrow> unit run \<times> mem" where
  "write_and_read crc pad [] a m = (Ok (), m)"
| "write_and_read crc pad (r # rs) a m =
     run_then (vrb_write pad r a m) (\<lambda>_ m1.
     run_then (vrb_read crc pad a m1) (\<lambda>_ m2. write_and_read crc pad rs a m2))"

definition test_sequence_wrapping :: "hasher \<Rightarrow> u32 \<Rightarrow> (nat \<Rightarrow> nat option) \<Rightarrow> unit run" where
  "test_sequence_wrapping crc pad clock =
     fst (run_then (test_buffer 4) (\<lambda>buffer m.
       run_then (write_and_read crc pad (map (overflow_record crc clock ''wrap '' 0) [0..<20]) buffer m) (\<lambda>_ m1.
       run_then (write_asserted pad [Record_new crc (clock 20) (into_bytes ''final test'') 999] buffer m1) (\<lambda>_.
       read_expecting crc pad (one_record (into_bytes ''final test'') 999) buffer))))"

end
