(* ===== verification/Volatile_Tests_Properties.thy ===== *)
theory Volatile_Tests_Properties
  imports Volatile_Tests Volatile_Safety
begin

text \<open>
  The unit tests of the volatile buffer: each of them expects a record to be read back that
  was written before, and fails.
\<close>

section \<open>Steps of a test\<close>

abbreviation test_ok :: "mem \<Rightarrow> bool" where
  "test_ok m \<equiv> quiet_mem {0} m"

lemma test_ok_buffer: "test_ok m \<Longrightarrow> 0 < length (mem_bufs m)"
  by (simp add: quiet_mem_def)

lemma test_buffer_ok:
  assumes "unat n \<le> 2 ^ 54"
  obtains m where "test_buffer n = (Ok 0, m)" "test_ok m" "buf_at 0 m = new_vrb (next_power_of_two n) 0"
proof -
  let ?b = "new_vrb (next_power_of_two n) 0"
  let ?m = "\<lparr>mem_bufs = [?b], mem_signals = [False]\<rparr>"
  have "idle_buf ?b"
    using new_vrb_inv[OF next_power_of_two_small(1,2)[OF assms], of 0]
    by (simp add: idle_buf_def) (simp add: new_vrb_def)
  then have "test_ok ?m"
    using idle_quiet by (simp add: quiet_mem_def buf_at_def) (simp add: new_vrb_def empty_like_def)
  moreover have "test_buffer n = (Ok 0, ?m)"
    using VolatileRingBuffer_new_eq[OF assms, of "\<lparr>mem_bufs = [], mem_signals = []\<rparr>"]
    by (simp add: test_buffer_def arc_new_def)
  ultimately show thesis using that by (simp add: buf_at_def)
qed

text \<open>A write reports whether there was a free slot, and a read returns nothing.\<close>

lemma write_ok:
  assumes "test_ok m" and "length (r_data r) \<le> 232"
  obtains m' where "vrb_write pad r 0 m = (Ok (\<not> full (buf_at 0 m)), m')" "test_ok m'"
proof -
  have w: "vrb_write pad r 0 m = (Ok (\<not> full (buf_at 0 m)),
      if full (buf_at 0 m) then set_buf 0 (queued r (buf_at 0 m)) m else lost_mem pad r 0 m)"
    using vrb_write_eq[OF quiet_memD(1)[OF assms(1) test_ok_buffer[OF assms(1)]] assms(2), of pad] by simp
  then show thesis using write_quiet[OF assms(1) _ _ w] assms(2) that by simp
qed

lemma read_expecting_nothing: "test_ok m \<Longrightarrow> read_expecting crc pad check 0 m = (check [], m)"
  using quiet_read[OF _ test_ok_buffer, of "{0}"] by (simp add: read_expecting_def)

lemma write_each_ok:
  "test_ok m \<Longrightarrow> \<forall>r\<in>set rs. length (r_data r) \<le> 232 \<Longrightarrow> \<exists>m'. write_each pad rs 0 m = (Ok (), m') \<and> test_ok m'"
proof (induction rs arbitrary: m)
  case (Cons r rs)
  obtain m1 where "vrb_write pad r 0 m = (Ok (\<not> full (buf_at 0 m)), m1)" "test_ok m1"
    using write_ok[OF Cons.prems(1), of r pad] Cons.prems(2) by auto
  then show ?case using Cons by simp
qed simp

lemma write_asserted_cases:
  "test_ok m \<Longrightarrow> \<forall>r\<in>set rs. length (r_data r) \<le> 232 \<Longrightarrow>
    (\<exists>m'. write_asserted pad rs 0 m = (Ok (), m') \<and> test_ok m') \<or>
    (\<exists>m'. write_asserted pad rs 0 m = (Panic AssertFailed, m'))"
proof (induction rs arbitrary: m)
  case (Cons r rs)
  obtain m1 where "vrb_write pad r 0 m = (Ok (\<not> full (buf_at 0 m)), m1)" "test_ok m1"
    using write_ok[OF Cons.prems(1), of r pad] Cons.prems(2) by auto
  then show ?case using Cons by (simp add: assert_that_def)
qed simp

lemma write_and_read_ok:
  "test_ok m \<Longrightarrow> \<forall>r\<in>set rs. length (r_data r) \<le> 232 \<Longrightarrow>
    \<exists>m'. write_and_read crc pad rs 0 m = (Ok (), m') \<and> test_ok m'"
proof (induction rs arbitrary: m)
  case (Cons r rs)
  obtain m1 where m1: "vrb_write pad r 0 m = (Ok (\<not> full (buf_at 0 m)), m1)" "test_ok m1"
    using write_ok[OF Cons.prems(1), of r pad] Cons.prems(2) by auto
  then show ?case using Cons quiet_read[OF m1(2) test_ok_buffer[OF m1(2)], of crc pad] by simp
qed simp

text \<open>A test that goes on with asserted writes and then expects a record fails at one of them.\<close>

lemma asserted_writes_fail:
  assumes "test_ok m" and "\<forall>r\<in>set rs. length (r_data r) \<le> 232" and "check [] = Panic AssertFailed"
  shows "fst (run_then (write_asserted pad rs 0 m) (\<lambda>_. read_expecting crc pad check 0)) = Panic AssertFailed"
  using write_asserted_cases[OF assms(1,2), of pad] assms(3) by (auto simp: read_expecting_nothing)

lemma test_records_fit:
  "t < 100 \<Longrightarrow> i < 100 \<Longrightarrow> length (r_data (thread_record crc clock (t, i))) \<le> 232"
  "i < 100 \<Longrightarrow> length name \<le> 20 \<Longrightarrow> length (r_data (overflow_record crc clock' name base i)) \<le> 232"
  using length_decimal[of t 2] length_decimal[of i 2]
  by (simp_all add: thread_record_def overflow_record_def Record_new_fields)

section \<open>The tests\<close>

lemma basic_write_read_fails: "test_basic_write_read crc pad clock = Panic AssertFailed"
proof -
  obtain m where m: "test_buffer 1024 = (Ok 0, m)" "test_ok m" by (rule test_buffer_ok[of 1024]) simp
  then show ?thesis
    unfolding test_basic_write_read_def m(1) run_then.simps
    by (intro asserted_writes_fail) (simp_all add: Record_new_fields one_record_def assert_that_def)
qed

lemma multi_thread_write_fails:
  assumes "set schedule \<subseteq> {..<4} \<times> {..<100}"
  shows "test_multi_thread_write crc pad clock schedule = Panic AssertFailed"
proof -
  obtain m where m: "test_buffer 4096 = (Ok 0, m)" "test_ok m" by (rule test_buffer_ok[of 4096]) simp
  have "\<forall>r\<in>set (map (thread_record crc clock) schedule). length (r_data r) \<le> 232"
    using assms test_records_fit(1) by (force simp: subset_iff)
  then obtain m' where "write_each pad (map (thread_record crc clock) schedule) 0 m = (Ok (), m')" "test_ok m'"
    using write_each_ok[OF m(2)] by blast
  then show ?thesis
    using m(1) by (simp add: test_multi_thread_write_def read_expecting_nothing assert_that_def)
qed

lemma reserve_write_commit_fails:
  "test_reserve_write_commit crc pad clock (Suc frames) = Panic AssertFailed"
proof -
  obtain m where m: "test_buffer 1024 = (Ok 0, m)" "test_ok m" "buf_at 0 m = new_vrb (next_power_of_two 1024) 0"
    by (rule test_buffer_ok[of 1024]) simp
  have b: "vinv (buf_at 0 m)" by (rule quiet_memD(1)[OF m(2) test_ok_buffer[OF m(2)]])
  have "\<not> full (buf_at 0 m)"
    using prod_idx_less[OF b] vinv_facts(3)[OF b] by (simp add: full_def m(3) new_vrb_def empty_like_def)
  then have r: "reserve (Suc frames) 10 True 0 m = (Ok (Some (new_reservation 10 0 m)), reserved_mem 0 m)"
    using reserve_eq[OF b, of 10 frames True] by simp
  let ?d = "into_bytes ''test data''"
  let ?r = "\<lparr>r_header = rh_update_crc crc ?d (RecordHeader_new clock 9 123), r_data = ?d\<rparr>"
  have "fill_and_commit pad ?r (new_reservation 10 0 m) (reserved_mem 0 m) = (Ok (), lost_mem pad ?r 0 m)"
    using fill_reserved[OF b, of ?r 10] by simp
  moreover have "test_ok (lost_mem pad ?r 0 m)"
    using lost_quiet[OF m(2) _ test_ok_buffer[OF m(2)], of ?r pad] by simp
  ultimately show ?thesis
    using m(1) r by (simp add: test_reserve_write_commit_def Let_def read_expecting_nothing one_record_def
        assert_that_def del: reserve.simps)
qed

lemma buffer_overflow_fails: "test_buffer_overflow crc pad clock = Panic AssertFailed"
proof -
  obtain m where m: "test_buffer 4 = (Ok 0, m)" "test_ok m" by (rule test_buffer_ok[of 4]) simp
  have "\<forall>r\<in>set (map (overflow_record crc clock ''message '' 0) [0..<20]). length (r_data r) \<le> 232"
    using test_records_fit(2)[of _ "''message ''" crc clock 0] by simp
  then obtain m' where "write_each pad (map (overflow_record crc clock ''message '' 0) [0..<20]) 0 m = (Ok (), m')"
    "test_ok m'" using write_each_ok[OF m(2)] by blast
  then show ?thesis
    using m(1) by (simp add: test_buffer_overflow_def read_expecting_nothing assert_that_def del: upt_rec_numeral)
qed

lemma sequence_wrapping_fails: "test_sequence_wrapping crc pad clock = Panic AssertFailed"
proof -
  obtain m where m: "test_buffer 4 = (Ok 0, m)" "test_ok m" by (rule test_buffer_ok[of 4]) simp
  have "\<forall>r\<in>set (map (overflow_record crc clock ''wrap '' 0) [0..<20]). length (r_data r) \<le> 232"
    using test_records_fit(2)[of _ "''wrap ''" crc clock 0] by simp
  then obtain m' where m': "write_and_read crc pad (map (overflow_record crc clock ''wrap '' 0) [0..<20]) 0 m = (Ok (), m')"
    "test_ok m'" using write_and_read_ok[OF m(2)] by blast
  show ?thesis
    unfolding test_sequence_wrapping_def m(1) run_then.simps m'(1) using m'(2)
    by (intro asserted_writes_fail) (simp_all add: Record_new_fields one_record_def assert_that_def)
qed

text \<open>
  Every unit test of the volatile buffer fails, for every clock and every content of the
  padding, whatever the order in which the writes of the four threads are executed: each test
  reaches an assertion about records that were written and are never read.
\<close>

theorem volatile_unit_tests:
  assumes "set schedule \<subseteq> {..<4} \<times> {..<100}"
  shows "test_basic_write_read crc pad (clock 0) = Panic AssertFailed \<and>
     test_multi_thread_write crc pad clock2 schedule = Panic AssertFailed \<and>
     test_reserve_write_commit crc pad (clock 0) (Suc frames) = Panic AssertFailed \<and>
     test_buffer_overflow crc pad clock = Panic AssertFailed \<and>
     test_sequence_wrapping crc pad clock = Panic AssertFailed"
  by (simp add: basic_write_read_fails multi_thread_write_fails[OF assms] reserve_write_commit_fails
      buffer_overflow_fails sequence_wrapping_fails)

theorem volatile_unit_tests_witness:
  "test_multi_thread_write crc32_ieee 0 (\<lambda>_ _. Some 7) (List.product [0..<4] [0..<100]) = Panic AssertFailed"
proof -
  have "set (List.product [0..<4] [0..<100]) \<subseteq> {..<4} \<times> {..<(100 :: nat)}" by auto
  from volatile_unit_tests[OF this, of crc32_ieee 0 "\<lambda>_. None" "\<lambda>_ _. Some 7" 0] show ?thesis by blast
qed

end
