(* ===== verification/Volatile_Signal.thy ===== *)
theory Volatile_Signal
  imports Volatile
begin

text \<open>
  The signal between producers and the consumer of the volatile buffer
  (\<open>src/memory/volatile.rs\<close>): a flag and a condition variable under one mutex.
  \<open>notify_consumer\<close> is one critical section. \<open>wait_for_data\<close> is two: the first tests the flag
  and starts to wait, which releases the mutex; the second runs when the wait has ended and the
  mutex is held again. Between them the wait ends by a notification or by its timeout, and
  producers can notify at any moment. There is one consumer.
\<close>

section \<open>Critical sections as steps\<close>

text \<open>Where the consumer is; \<open>Waiting\<close> carries the timeout of the call.\<close>

datatype wait_place = Outside | Waiting "u64 option" | Woken | TimedOut

text \<open>\<open>sig_results\<close> are the results of the calls of \<open>wait_for_data\<close> that have returned.\<close>

record signal =
  sig_ready :: bool
  sig_place :: wait_place
  sig_results :: "bool list"

datatype signal_event = Notify | Enter "u64 option" | Expire | Return

definition signal_start :: signal where
  "signal_start = \<lparr>sig_ready = False, sig_place = Outside, sig_results = []\<rparr>"

text \<open>\<open>notify_one\<close> wakes the consumer only while it waits.\<close>

definition signal_notify :: "signal \<Rightarrow> signal" where
  "signal_notify s = s\<lparr>sig_ready := True,
     sig_place := (case sig_place s of Waiting t \<Rightarrow> Woken | p \<Rightarrow> p)\<rparr>"

definition wait_enter :: "u64 option \<Rightarrow> signal \<Rightarrow> signal" where
  "wait_enter timeout_ms s =
     (if sig_ready s then s\<lparr>sig_ready := False, sig_results := sig_results s @ [True]\<rparr>
      else s\<lparr>sig_place := Waiting timeout_ms\<rparr>)"

definition wait_return :: "bool \<Rightarrow> signal \<Rightarrow> signal" where
  "wait_return was_notified s = s\<lparr>sig_ready := False, sig_place := Outside,
     sig_results := sig_results s @ [was_notified]\<rparr>"

text \<open>\<open>None\<close> is an event that cannot happen now.\<close>

fun signal_step :: "signal_event \<Rightarrow> signal \<Rightarrow> signal option" where
  "signal_step Notify s = Some (signal_notify s)"
| "signal_step (Enter timeout_ms) s =
     (case sig_place s of Outside \<Rightarrow> Some (wait_enter timeout_ms s) | _ \<Rightarrow> None)"
| "signal_step Expire s =
     (case sig_place s of Waiting (Some timeout) \<Rightarrow> Some (s\<lparr>sig_place := TimedOut\<rparr>) | _ \<Rightarrow> None)"
| "signal_step Return s =
     (case sig_place s of
        Woken \<Rightarrow> Some (wait_return True s)
      | TimedOut \<Rightarrow> Some (wait_return False s)
      | _ \<Rightarrow> None)"

fun signal_run :: "signal_event list \<Rightarrow> signal \<Rightarrow> signal option" where
  "signal_run [] s = Some s"
| "signal_run (e # es) s = (case signal_step e s of None \<Rightarrow> None | Some s' \<Rightarrow> signal_run es s')"

lemmas signal_defs = signal_notify_def wait_enter_def wait_return_def

lemma signal_run_append:
  "signal_run (es @ fs) s = (case signal_run es s of None \<Rightarrow> None | Some s' \<Rightarrow> signal_run fs s')"
  by (induction es arbitrary: s) (auto split: option.split)

lemma signal_run_Cons: "signal_run (e # es) s = Some s' \<longleftrightarrow> (\<exists>s1. signal_step e s = Some s1 \<and> signal_run es s1 = Some s')"
  by (auto split: option.splits)

declare signal_run.simps(2) [simp del]

text \<open>The results only grow.\<close>

lemma signal_run_results: "signal_run es s = Some s' \<Longrightarrow> \<exists>rs. sig_results s' = sig_results s @ rs"
proof (induction es arbitrary: s)
  case (Cons e es)
  then obtain s1 where s1: "signal_step e s = Some s1" "signal_run es s1 = Some s'"
    by (auto simp: signal_run_Cons)
  then have "\<exists>rs. sig_results s1 = sig_results s @ rs"
    by (cases e) (auto simp: signal_defs split: wait_place.splits option.splits if_splits)
  then show ?case using Cons.IH[OF s1(2)] by auto
qed simp

section \<open>Every success comes from a notification\<close>

definition successes :: "signal \<Rightarrow> nat" where
  "successes s = length (filter id (sig_results s)) + (if sig_ready s \<or> sig_place s = Woken then 1 else 0)"

lemma signal_step_successes:
  "signal_step e s = Some s' \<Longrightarrow> successes s' \<le> successes s + (if e = Notify then 1 else 0)"
  by (cases e) (auto simp: successes_def signal_defs split: wait_place.splits option.splits if_splits)

lemma signal_run_successes:
  "signal_run es s = Some s' \<Longrightarrow> successes s' \<le> successes s + length (filter (\<lambda>e. e = Notify) es)"
proof (induction es arbitrary: s)
  case (Cons e es)
  then obtain s1 where s1: "signal_step e s = Some s1" "signal_run es s1 = Some s'"
    by (auto simp: signal_run_Cons)
  then show ?case using Cons.IH[OF s1(2)] signal_step_successes[OF s1(1)] by (simp split: if_splits)
qed simp

section \<open>A notification is seen\<close>

text \<open>The consumer has a notification to see and is not about to return without it.\<close>

definition will_succeed :: "signal \<Rightarrow> bool" where
  "will_succeed s \<longleftrightarrow> sig_ready s \<and> (sig_place s = Outside \<or> sig_place s = Woken)"

lemma will_succeed_step:
  assumes "will_succeed s" and "signal_step e s = Some s'"
  shows "sig_results s' = sig_results s \<and> will_succeed s' \<or> sig_results s' = sig_results s @ [True]"
  using assms by (cases e) (auto simp: will_succeed_def signal_defs split: wait_place.splits option.splits if_splits)

lemma will_succeed_run:
  "will_succeed s \<Longrightarrow> signal_run es s = Some s' \<Longrightarrow>
    sig_results s' = sig_results s \<and> will_succeed s' \<or> (\<exists>rs. sig_results s' = sig_results s @ True # rs)"
proof (induction es arbitrary: s)
  case (Cons e es)
  then obtain s1 where s1: "signal_step e s = Some s1" "signal_run es s1 = Some s'"
    by (auto simp: signal_run_Cons)
  from will_succeed_step[OF Cons.prems(1) s1(1)] show ?case
    using Cons.IH[OF _ s1(2)] signal_run_results[OF s1(2)] by auto
qed simp

text \<open>
  C13: no notification is missed by a consumer whose wait has not timed out. After a
  notification, whatever happens next, the first call of \<open>wait_for_data\<close> that returns returns
  true; until it does, the consumer is never blocked, and one critical section makes it return.
\<close>

theorem notification_is_seen:
  assumes "sig_place s \<noteq> TimedOut" and "signal_run (Notify # es) s = Some s'"
  shows "(\<exists>rs. sig_results s' = sig_results s @ True # rs) \<or>
     sig_results s' = sig_results s \<and>
     (\<exists>e s''. e \<in> {Enter timeout_ms, Return} \<and> signal_step e s' = Some s'' \<and>
        sig_results s'' = sig_results s @ [True])"
proof -
  have "will_succeed (signal_notify s)" "sig_results (signal_notify s) = sig_results s"
    using assms(1) by (auto simp: will_succeed_def signal_notify_def split: wait_place.split)
  then consider "sig_results s' = sig_results s" "will_succeed s'"
    | rs where "sig_results s' = sig_results s @ True # rs"
    using will_succeed_run[of "signal_notify s" es s'] assms(2) by (auto simp: signal_run_Cons)
  then show ?thesis
  proof cases
    case 1
    then show ?thesis by (auto simp: will_succeed_def signal_defs)
  qed blast
qed

theorem notification_is_seen_witness:
  "\<exists>s. signal_run [Enter (Some 500), Notify] signal_start = Some s \<and> sig_results s = [] \<and>
     (\<exists>e s'. e \<in> {Enter None, Return} \<and> signal_step e s = Some s' \<and> sig_results s' = [True])"
proof -
  let ?s = "signal_start\<lparr>sig_place := Waiting (Some 500)\<rparr>" and ?t = "signal_start\<lparr>sig_ready := True, sig_place := Woken\<rparr>"
  have "signal_run (Notify # []) ?s = Some ?t"
    by (simp add: signal_run_Cons signal_notify_def signal_start_def)
  from notification_is_seen[OF _ this, of None] have "\<exists>e s'. e \<in> {Enter None, Return} \<and>
      signal_step e ?t = Some s' \<and> sig_results s' = [True]"
    by (simp add: signal_start_def)
  moreover have "signal_run [Enter (Some 500), Notify] signal_start = Some ?t"
    by (simp add: signal_run_Cons signal_defs signal_start_def)
  ultimately show ?thesis by (auto simp: signal_start_def)
qed

text \<open>
  C26: a notification that comes after the timeout of a wait and before the consumer holds
  the mutex again is lost. The call returns false and clears the flag; a following call
  without a timeout blocks, and stays blocked until another notification.
\<close>

theorem late_notification_is_lost:
  assumes "sig_place s = TimedOut"
  shows "\<exists>s'. signal_run [Notify, Return, Enter None] s = Some s' \<and>
     sig_results s' = sig_results s @ [False] \<and> \<not> sig_ready s' \<and>
     (\<forall>es s''. signal_run es s' = Some s'' \<and> Notify \<notin> set es \<longrightarrow> s'' = s')"
proof -
  let ?s = "s\<lparr>sig_ready := False, sig_place := Waiting None, sig_results := sig_results s @ [False]\<rparr>"
  have "signal_run [Notify, Return, Enter None] s = Some ?s"
    using assms by (simp add: signal_run_Cons signal_defs)
  moreover have "s'' = ?s" if "signal_run es ?s = Some s''" "Notify \<notin> set es" for es s''
  proof (cases es)
    case (Cons e fs)
    then have "signal_step e ?s = None" using that(2) by (cases e) auto
    then show ?thesis using that(1) Cons by (simp add: signal_run_Cons)
  qed (use that in simp)
  ultimately show ?thesis by auto
qed

theorem late_notification_is_lost_witness:
  "\<exists>s. signal_run [Enter (Some 500), Expire, Notify, Return, Enter None] signal_start = Some s \<and>
     sig_results s = [False] \<and> \<not> sig_ready s"
proof -
  have "signal_run [Enter (Some 500), Expire] signal_start = Some (signal_start\<lparr>sig_place := TimedOut\<rparr>)"
    by (simp add: signal_run_Cons signal_defs signal_start_def)
  then show ?thesis
    using late_notification_is_lost[of "signal_start\<lparr>sig_place := TimedOut\<rparr>"]
      signal_run_append[of "[Enter (Some 500), Expire]" "[Notify, Return, Enter None]" signal_start]
    by (auto simp: signal_start_def)
qed

section \<open>The sequential operations\<close>

text \<open>
  When no other critical section comes between, the steps compute what \<open>notify_consumer\<close> and
  \<open>wait_for_data\<close> compute; \<open>notified\<close> decides how the wait ends.
\<close>

definition signal_of :: "addr \<Rightarrow> mem \<Rightarrow> signal" where
  "signal_of a m = \<lparr>sig_ready = mem_signals m ! vb_consumer_signal (buf_at a m), sig_place = Outside, sig_results = []\<rparr>"

definition wait_events :: "u64 option \<Rightarrow> bool \<Rightarrow> bool \<Rightarrow> signal_event list" where
  "wait_events timeout_ms notified ready =
     Enter timeout_ms # (if ready then [] else if notified then [Notify, Return] else [Expire, Return])"

lemma notify_is_step:
  assumes "vb_consumer_signal (buf_at a m) < length (mem_signals m)"
  shows "signal_step Notify (signal_of a m) = Some (signal_of a (notify_consumer a m))"
  using assms by (simp add: signal_of_def signal_notify_def notify_consumer_def buf_at_def)

theorem wait_is_steps:
  "wait_for_data timeout_ms notified a m =
     map_option (\<lambda>s. (last (sig_results s),
         m\<lparr>mem_signals := (mem_signals m)[vb_consumer_signal (buf_at a m) := sig_ready s]\<rparr>))
       (signal_run (wait_events timeout_ms notified (sig_ready (signal_of a m))) (signal_of a m))"
  by (cases timeout_ms)
     (simp_all add: wait_for_data_def Let_def signal_of_def wait_events_def signal_run.simps(2) signal_defs)

text \<open>
  Every call that returns true has a notification of its own: the calls that returned true
  are at most as many as the notifications.
\<close>

theorem successes_are_notified:
  assumes "signal_run es signal_start = Some s"
  shows "length (filter id (sig_results s)) \<le> length (filter (\<lambda>e. e = Notify) es)"
  using signal_run_successes[OF assms] by (simp add: successes_def signal_start_def split: if_splits)

end
