(* ===== verification/Spec2Isabelle.thy ===== *)
theory Spec2Isabelle
  imports Persistent_Properties Persistent_Faults Cursor_Properties Volatile_Properties
    Returned_Records Concurrent_Properties Sherlog_Properties Sherlog_Runs
    Basic_Usage_Properties Clients_Properties Kotlin_Record
    Persistent_Serial Persistent_Forgery Persistent_Crash Cursor_Concurrent
    Disk_Tests_Properties Volatile_Tests_Properties Volatile_Signal
begin

text \<open>
  This is a verification development for Sherlog, a logging library written in Rust: a
  multi-producer single-consumer ring buffer in memory, a ring buffer in a memory-mapped
  file, a daemon thread that moves records from the first to the second, cursors over the
  file, bindings for Android and iOS with the client code they generate, and an example
  program.

  \<^bold>\<open>The parts of the program and where they are modelled.\<close>

  \<^item> \<open>src/memory/mod.rs\<close> is theory \<open>Memory\<close>: \<open>RecordHeader\<close> with its 24-byte \<open>repr(C)\<close> image
    (\<open>record_header\<close>, \<open>rh_update_crc\<close>, \<open>rh_verify_crc\<close>), \<open>Record\<close> (\<open>log_record\<close>,
    \<open>Record_new\<close>), \<open>AtomicIndex\<close> (\<open>atomic_index\<close>, the \<open>ai_\<close> operations and
    \<open>physical_index\<close>) and \<open>Slot\<close> (\<open>slot\<close>, \<open>set_state\<close>, \<open>try_transition\<close>, \<open>set_seq\<close>).
  \<^item> \<open>src/memory/volatile.rs\<close> is theory \<open>Volatile\<close>: \<open>VolatileRingBuffer\<close> is the record \<open>vrb\<close>,
    \<open>Reservation\<close> the record \<open>reservation\<close>. Buffers and the flags behind condition variables
    are shared through \<open>Arc\<close>, so they live in an explicit store \<open>mem\<close> and are named by
    address. \<open>reserve\<close> (with its loop \<open>reserve_spin\<close>), \<open>reservation_write\<close>,
    \<open>reservation_commit\<close>, \<open>reservation_drop\<close>, \<open>vrb_write\<close>, \<open>wait_for_data\<close>, \<open>vrb_read\<close> (with
    its loops \<open>read_slots\<close> and \<open>drain_overflow\<close>) and \<open>usage_percent\<close> are the methods of the
    same names. Theory \<open>Float32\<close> models the single-precision arithmetic they use.
    Theory \<open>Concurrent\<close> cuts the loop of \<open>reserve\<close> at its accesses to shared memory
    (\<open>producer_step\<close>) and lets any number of producers interleave with reads. Theory
    \<open>Volatile_Signal\<close> cuts \<open>notify_consumer\<close> and \<open>wait_for_data\<close> at the critical sections of
    their mutex (\<open>signal_step\<close>), between which notifications and timeouts come in any order.
  \<^item> \<open>src/disk/mod.rs\<close> is theory \<open>Disk\<close>: \<open>ControlBlock\<close> (\<open>control_block\<close>, 48 bytes) and
    \<open>Header\<close>, which precedes every stored record (\<open>disk_header\<close>, 24 bytes), with their byte
    images and checksums.
  \<^item> \<open>src/disk/persistent.rs\<close> is theory \<open>Persistent\<close>: \<open>PersistentRingBuffer\<close> is the record
    \<open>prb\<close>, which holds the bytes of the mapping, the control block kept in memory, and
    whether the standard locks are poisoned; \<open>PersistentRingBuffer_new\<close>, \<open>prb_write\<close>,
    \<open>read_at\<close>, \<open>read_all\<close>, \<open>reset_read_position\<close> and \<open>prb_flush\<close> are its methods.
    Theory \<open>Persistent_Locks\<close> lists, for every method, the acquisitions and releases of its
    three locks and runs them on any number of threads (\<open>lock_step\<close>); \<open>Persistent_Serial\<close> puts
    the changes of the control block and the mapping between them (\<open>call_actions\<close>,
    \<open>serial_step\<close>).
  \<^item> \<open>src/disk/cursor.rs\<close> is theory \<open>Cursor\<close>: \<open>position\<close>, \<open>cursor\<close>, \<open>cursor_next\<close>,
    \<open>read_batch\<close>, \<open>seek_to\<close>, \<open>seek_to_end\<close>, \<open>cursor_commit\<close>. Theory \<open>Cursor_Concurrent\<close> lets the
    buffer change between any two accesses of a cursor (\<open>cursor_next_seen\<close>, \<open>nexts_seen\<close>).
  \<^item> \<open>src/lib.rs\<close> is theory \<open>Sherlog\<close>: the record \<open>lib\<close> holds the two once-cells, the store of
    volatile buffers, the persistent buffers, the bytes of the files and the flag of the
    daemon; \<open>init_memory_buffer\<close>, \<open>init_persistent_buffer\<close>, \<open>start_flush_daemon\<close> with the
    thread's loop (\<open>daemon_iteration\<close>, \<open>daemon_loop\<close>), \<open>stop_flush_daemon\<close>, \<open>lib_write\<close> and
    \<open>lib_reserve\<close>.
  \<^item> \<open>src/jni/mod.rs\<close> is theory \<open>Jni\<close> (the exported \<open>Java_\<close> functions over a table of boxed
    cursors) and \<open>src/ios/mod.rs\<close> is theory \<open>Ios\<close> (the \<open>swift_\<close> functions).
  \<^item> The two bindings return client code as text: \<open>generate_kotlin_interface\<close> the Kotlin object
    \<open>Sherlog\<close> and \<open>generate_swift_interface\<close> the Swift classes \<open>SherlongLogger\<close> and \<open>LogCursor\<close>.
    Theory \<open>Clients\<close> models that code over the native functions: \<open>kotlin_withCursor\<close>,
    \<open>kotlin_readAllLogs\<close>, \<open>swift_withCursor\<close>, \<open>swift_readAllLogs\<close>, the wrappers of the logger with
    their default arguments, and the methods of \<open>LogCursor\<close>, and theory \<open>Kotlin_Record\<close> the
    equality and hash code of the Kotlin data class \<open>LogRecord\<close>.
  \<^item> \<open>examples/basic_usage.rs\<close> is theory \<open>Basic_Usage\<close>: the start of the program and the report
    \<open>read_logs\<close> at its end.
  \<^item> The test modules of \<open>persistent.rs\<close> and \<open>cursor.rs\<close> are theory \<open>Disk_Tests\<close>, that of
    \<open>volatile.rs\<close> is \<open>Volatile_Tests\<close>: one definition per test, whose value says whether it
    passes. Theory \<open>Macros\<close> has the assertions, \<open>unwrap\<close> and \<open>format!\<close>.

  \<^bold>\<open>How they interact.\<close> A client writes through \<open>lib_write\<close> to the global volatile buffer:
  \<open>vrb_write\<close> reserves a slot, fills and commits it, or puts the record into the overflow
  queue. The daemon waits for data, reads all ready records and passes the first batch of
  them to \<open>prb_write\<close>, which stores each behind the previous one and starts again at the
  beginning of the data section when the end is reached. Readers use \<open>read_all\<close>, or cursors
  from the bindings, which call \<open>read_at\<close>.

  \<^bold>\<open>Shared vocabulary.\<close> Theory \<open>Prelude\<close> has the integer types (words of the widths of the
  source, with a 64-bit \<open>usize\<close>), the type \<open>outcome\<close> (\<open>Ok\<close>, \<open>Err\<close>, \<open>Panic\<close> with its reason,
  \<open>Undefined\<close> for an access the language does not define), byte slices with Rust's range
  checks, little-endian images, and the collections \<open>usize_simps\<close> and \<open>layout_simps\<close>.

  \<^bold>\<open>Interfaces.\<close> Four contracts are stated as locales and proved for the code's definitions:
  \<open>codec\<close> (a fixed-width structure is determined by its bytes; interpreted for the record
  header, the control block and the stored header), \<open>burst_checksum\<close> (what is relied on of the
  crate \<open>crc32fast\<close>: a difference within four bytes changes the checksum; interpreted for
  the bitwise IEEE polynomial), \<open>record_log\<close> (append and fetch on a bounded log, with the
  laws of room and wrap; interpreted for the persistent buffer as \<open>plog\<close>) and
  \<open>bounded_fifo\<close> (publish and consume on a bounded queue; interpreted for the slots of the
  volatile buffer as \<open>slots\<close>). The \<open>publish\<close> of \<open>slots\<close> goes through the protocol that a
  reservation documents, on the buffer itself; the code's \<open>reserve\<close> hands out a reservation on
  a copy, so no property of the program rests on it, only the stores that show what \<open>read\<close>
  does with a ready slot.

  \<^bold>\<open>What the lemmas show.\<close>

  \<^item> \<open>Persistent_Log\<close> has the invariant \<open>prb_inv\<close>, the abstraction \<open>represents\<close> from the bytes of
    the data section to a list of records, and closed forms of the operations;
    \<open>Persistent_Safety\<close> the reachable buffers and reopening. \<open>Persistent_Properties\<close> concludes:
    a write refines the abstract \<open>log_write\<close>, a written record is read back, \<open>read_all\<close> returns
    the unread records and terminates, the log keeps the latest records, reachable buffers
    satisfy the invariant and no operation on them panics, corruption within four bytes is
    detected; and when writes fail, when a file cannot be opened again, and which records a
    wrap hides from \<open>read_all\<close>. \<open>Persistent_Faults\<close>: a file cut shorter than its control block
    says makes the next write panic and every later call that takes its locks. \<open>Persistent_Forgery\<close>: after a
    wrap the data of a record can be read as a record of its own. \<open>Persistent_Crash\<close>: what a
    process that ends within a write leaves in the file; the log of before the write, unless the
    write wraps.
  \<^item> \<open>Persistent_Locks\<close>: the methods take their locks in one order, so exclusive locks are
    exclusive, some thread can always go on, and runs are finite. \<open>Persistent_Serial\<close>: however
    the calls interleave, the buffer ends as the sequential operations leave it in some order
    that keeps the order of every thread; so what is shown of sequences of operations holds of
    concurrent ones.
  \<^item> \<open>Cursor_Log\<close> and \<open>Cursor_Properties\<close>: batches return the unread records in order; \<open>next\<close> ends
    after a seek within a bounded stack; a cursor of an earlier lap overflows it; where
    seeking lands; what a commit does. \<open>Cursor_Interference\<close>: a cursor and a writer that take
    turns within a lap, and a cursor that meets a damaged record. \<open>Cursor_Concurrent\<close>: a cursor
    beside writers that append between its accesses.
  \<^item> \<open>Volatile_Log\<close> has the invariant \<open>vinv\<close> and closed forms, \<open>Volatile_Fifo\<close> the queue that
    ready slots form, \<open>Volatile_Safety\<close> the states clients can reach. \<open>Volatile_Properties\<close>
    concludes: reservations refer to a fresh copy, so no written record is ever
    read; the outcomes of \<open>reserve\<close>, of sequences of writes and of reads; the
    overflow queue's limit; the size checks that wrap.
  \<^item> \<open>Returned_Records\<close>: whatever bytes the mapping or the slots hold, every reader returns only
    records that agree with their headers in length and checksum, and \<open>read_all\<close> ends, with
    records that fit in the data section together.
  \<^item> \<open>Concurrent\<close> and \<open>Concurrent_Properties\<close>: in every interleaving the granted reservations
    differ in slot and sequence number and the numbers have no gaps; the steps of a producer
    that runs alone compute what \<open>reserve_spin\<close> computes.
  \<^item> \<open>Volatile_Signal\<close>: a consumer whose wait has not timed out sees every notification, every
    success has a notification of its own, a notification after a timeout is lost; without
    interleaving the steps compute \<open>wait_for_data\<close> of theory \<open>Volatile\<close>.
  \<^item> \<open>Sherlog_Properties\<close>: the figures the daemon works with, what an iteration moves, how the
    loop ends, what a failing write leaves behind, initialisation and restart;
    \<open>Sherlog_Runs\<close>: in every run of the library, with any number of clients, nothing that is
    logged reaches the file.
  \<^item> \<open>Bindings_Properties\<close>: the life of a Java cursor and negative integers from Java;
    \<open>Clients_Properties\<close>: the reading loops of both clients end and return the unread records
    in order, what a partial read or a damaged record loses on the Swift side, and the
    buffers that Swift's default arguments give; \<open>Kotlin_Record\<close>: records compare equal exactly
    when they were stored equal, and equal ones have equal hash codes.
  \<^item> \<open>Basic_Usage_Properties\<close>: the example starts on a new file, and its report counts the unread
    records.
  \<^item> \<open>Disk_Tests_Properties\<close> and \<open>Volatile_Tests_Properties\<close>: which unit tests pass. Three of the
    eight for the persistent buffer and the cursor fail, and all five for the volatile buffer,
    each at an assertion that the properties above contradict.

  \<^bold>\<open>Inputs.\<close> Code outside the repository is a parameter: the checksum \<open>crc\<close>, the results of
  operating-system calls (\<open>open_env\<close> and the flush results), the clock, wake-ups of condition
  variables, the calls of the Java runtime, and what other threads do between two iterations
  of the daemon. The padding bytes of \<open>repr(C)\<close> structures have no defined contents and are
  arguments (\<open>pad\<close>). Paths identify files: two buffers with equal paths share their bytes.

  \<^bold>\<open>Bounds and fuel.\<close> The only functions that take fuel are those whose recursion uses the
  stack: \<open>cursor_next\<close> and \<open>reserve\<close> (which calls itself when blocking) take the number of
  frames left and give \<open>Panic StackOverflow\<close> when there are none; how many are enough, and
  when no number is, are theorems. (A process whose stack overflows is aborted, which no code can
  catch; the outcome stands for that.) \<open>read_all_loop\<close>, \<open>read_logs_loop\<close>, \<open>kotlin_read_loop\<close>,
  \<open>swift_read_loop\<close> and \<open>next_loop\<close> are partial functions into \<open>option\<close> that are shown to return. The loop of \<open>reserve\<close> ends because its spin counter is limited. A run of
  \<open>lock_step\<close> or \<open>serial_step\<close> is finite: every call is a finite sequence of actions. How often
  \<open>read_all\<close> reads is chosen with the call; the tests between the actions decide whether the
  choice of storing the read position fits the buffer, and that the loop itself ends is shown of
  \<open>read_all_loop\<close>. The reads of a \<open>read_all\<close> happen under the exclusive lock of the control
  block, which every change of the buffer needs, so they are one evaluation in the steps. Buffers of at
  most \<open>2 ^ 54\<close> slots are considered, because larger ones exceed the size limit of a vector;
  vectors hold less than \<open>2 ^ 63\<close> bytes. Allocations within these limits succeed and the data
  of a buffer is aligned for its headers. Arithmetic is that of the release profile, which
  wraps.

  \<^bold>\<open>Not modelled.\<close> Memory orderings weaker than sequential consistency (values are modelled,
  the order in which other threads see them is one interleaving), sleeping and printing; the
  declarations of the native functions in the Kotlin text; the declarations for the bridge
  generator, which only repeat the signatures of the \<open>swift_\<close> functions; the logging threads of
  the example and two of the files under \<open>tests\<close>, which do not build because they name types that
  the library does not export; \<open>integration_tests.rs\<close>, whose tests run in one process and share
  the once-cells in an order that the test harness chooses;
  the loss of power, after which the pages of a mapping may be in the file in any order; and
  the iOS demonstration application, a user interface.
\<close>

end
